(* ===== verification/Prelude.thy ===== *)
theory Prelude
  imports Main "HOL-Library.Word" "HOL-Library.Monad_Syntax"
begin

text \<open>
  Shared vocabulary of the development: bytes, buffers and C integers as the model sees
  them, and the generic facts the component theories use.

  A buffer is a list of bytes and a pointer into it is an index.  Reading through a pointer
  is \<open>rd\<close>, which is \<open>None\<close> outside the buffer: a model whose result is \<open>None\<close> is one in
  which the C code has read memory it does not own.  \<open>size_t\<close> is 64 bits wide and the host
  is little-endian, as on the platforms the sources build for by default.
\<close>

unbundle bit_operations_syntax

section \<open>Types\<close>

type_synonym u8 = "8 word"
type_synonym u16 = "16 word"
type_synonym u32 = "32 word"
type_synonym u64 = "64 word"
type_synonym bytes = "u8 list"

text \<open>The largest \<open>int\<close>; arithmetic on \<open>int\<close> that passes it is undefined.\<close>

definition INT_MAX :: nat where "INT_MAX = 2 ^ 31 - 1"

named_theorems bytes_simps \<open>byte order conversions and their inverses\<close>
named_theorems buf_simps \<open>reads, overlays and other operations on buffers\<close>

section \<open>Characters\<close>

definition ch :: "char \<Rightarrow> u8" where
  "ch c = of_char c"

definition str :: "string \<Rightarrow> bytes" where
  "str s = map ch s"

lemma str_Nil [simp]: "str [] = []"
  by (simp add: str_def)

lemma str_Cons [simp]: "str (c # cs) = ch c # str cs"
  by (simp add: str_def)

lemma length_str [simp]: "length (str s) = length s"
  by (simp add: str_def)

lemma str_append: "str (a @ b) = str a @ str b"
  by (simp add: str_def)

section \<open>Reads and overlays\<close>

definition rd :: "bytes \<Rightarrow> nat \<Rightarrow> u8 option" where
  "rd bs i = (if i < length bs then Some (bs ! i) else None)"

lemma rd_Some_iff: "rd bs i = Some b \<longleftrightarrow> i < length bs \<and> bs ! i = b"
  by (auto simp: rd_def)

lemma rd_None_iff: "rd bs i = None \<longleftrightarrow> length bs \<le> i"
  by (simp add: rd_def)

lemma rd_in [buf_simps]: "i < length bs \<Longrightarrow> rd bs i = Some (bs ! i)"
  by (simp add: rd_def)

text \<open>The bytes of \<open>bs\<close> from index \<open>i\<close>, \<open>n\<close> of them (\<open>memcpy\<close> from a buffer).\<close>

definition bslice :: "bytes \<Rightarrow> nat \<Rightarrow> nat \<Rightarrow> bytes" where
  "bslice bs i n = take n (drop i bs)"

lemma length_bslice [buf_simps]: "i + n \<le> length bs \<Longrightarrow> length (bslice bs i n) = n"
  by (simp add: bslice_def)

lemma bslice_append_mid [buf_simps]: "length a = i \<Longrightarrow> length b = n \<Longrightarrow> bslice (a @ b @ c) i n = b"
  by (simp add: bslice_def)

text \<open>\<open>memcpy\<close> into a block of memory: \<open>overlay xs off ys\<close> writes \<open>ys\<close> at \<open>off\<close>.\<close>

definition overlay :: "bytes \<Rightarrow> nat \<Rightarrow> bytes \<Rightarrow> bytes" where
  "overlay xs off ys = take off xs @ ys @ drop (off + length ys) xs"

lemma length_overlay [buf_simps]:
  "off + length ys \<le> length xs \<Longrightarrow> length (overlay xs off ys) = length xs"
  by (simp add: overlay_def)

lemma take_overlay_prefix [buf_simps]:
  "off \<le> length xs \<Longrightarrow> take (off + length ys) (overlay xs off ys) = take off xs @ ys"
  by (simp add: overlay_def min_def)

lemma take_overlay_before [buf_simps]:
  "n \<le> off \<Longrightarrow> off \<le> length xs \<Longrightarrow> take n (overlay xs off ys) = take n xs"
  by (simp add: overlay_def min_def)

lemma overlay_Nil [buf_simps]: "overlay xs off [] = xs"
  by (simp add: overlay_def)

lemma overlay_append: "length A = off \<Longrightarrow> overlay (A @ B) off ys = A @ ys @ drop (length ys) B"
  by (simp add: overlay_def)

lemma overlay_all: "length ys = length xs \<Longrightarrow> overlay xs 0 ys = ys"
  by (simp add: overlay_def)

lemma take_eq_shorter: "take k xs = take k ys \<Longrightarrow> n \<le> k \<Longrightarrow> take n xs = take n ys"
  by (metis min.absorb1 take_take)

section \<open>Bits of a byte\<close>

lemma less_8_cases:
  "(n::nat) < 8 \<Longrightarrow> n = 0 \<or> n = 1 \<or> n = 2 \<or> n = 3 \<or> n = 4 \<or> n = 5 \<or> n = 6 \<or> n = 7"
  by arith

text \<open>Two bytes with the same eight bits are equal; each bit is then decided by \<open>bit_simps\<close>.\<close>

lemma u8_eqI:
  fixes x y :: u8
  assumes "bit x 0 = bit y 0" "bit x 1 = bit y 1" "bit x 2 = bit y 2" "bit x 3 = bit y 3"
    "bit x 4 = bit y 4" "bit x 5 = bit y 5" "bit x 6 = bit y 6" "bit x 7 = bit y 7"
  shows "x = y"
  by (rule bit_word_eqI) (use assms in \<open>auto dest!: less_8_cases\<close>)

lemma u8_high_bit: "8 \<le> n \<Longrightarrow> \<not> bit (w::u8) n"
  by (auto dest: bit_imp_le_length)

lemma u8_take_less:
  assumes "x = take_bit k (x::u8)"
  shows "unat x < 2 ^ k"
proof -
  have "unat x = take_bit k (unat x)" using assms by (metis unsigned_take_bit_eq)
  then show ?thesis by (metis take_bit_nat_less_exp)
qed

lemma and_masks:
  fixes x :: "'a::ring_bit_operations"
  shows "x AND 3 = take_bit 2 x" and "x AND 15 = take_bit 4 x"
    and "x AND 63 = take_bit 6 x" and "x AND 127 = take_bit 7 x"
  by (simp_all add: take_bit_eq_mask mask_eq_exp_minus_1)

section \<open>Byte order\<close>

definition be16 :: "u16 \<Rightarrow> bytes" where
  "be16 w = [ucast (drop_bit 8 w), ucast w]"

definition un16 :: "u8 \<Rightarrow> u8 \<Rightarrow> u16" where
  "un16 a b = push_bit 8 (ucast a) OR ucast b"

definition be32 :: "u32 \<Rightarrow> bytes" where
  "be32 w = [ucast (drop_bit 24 w), ucast (drop_bit 16 w), ucast (drop_bit 8 w), ucast w]"

definition un32 :: "u8 \<Rightarrow> u8 \<Rightarrow> u8 \<Rightarrow> u8 \<Rightarrow> u32" where
  "un32 a b c d =
     push_bit 24 (ucast a) OR push_bit 16 (ucast b) OR push_bit 8 (ucast c) OR ucast d"

definition le32 :: "u32 \<Rightarrow> bytes" where
  "le32 w = rev (be32 w)"

lemma length_be16 [simp]: "length (be16 w) = 2"
  by (simp add: be16_def)

lemma length_be32 [simp]: "length (be32 w) = 4"
  by (simp add: be32_def)

lemma length_le32 [simp]: "length (le32 w) = 4"
  by (simp add: le32_def)

lemma un16_be16 [bytes_simps]:
  "un16 (ucast (drop_bit 8 w)) (ucast w) = w"
  by (rule bit_word_eqI) (auto simp: un16_def bit_simps)

lemma un32_be32 [bytes_simps]:
  "un32 (ucast (drop_bit 24 w)) (ucast (drop_bit 16 w)) (ucast (drop_bit 8 w)) (ucast w) = w"
proof (rule bit_word_eqI)
  fix n assume n: "n < LENGTH(32)"
  show "bit (un32 (ucast (drop_bit 24 w)) (ucast (drop_bit 16 w)) (ucast (drop_bit 8 w)) (ucast w)) n
    \<longleftrightarrow> bit w n"
  proof (cases "24 \<le> n")
    case True
    with n show ?thesis by (auto simp: un32_def bit_simps)
  next
    case False
    with n show ?thesis by (cases "16 \<le> n") (auto simp: un32_def bit_simps)
  qed
qed

section \<open>Scanning a buffer from the left\<close>

text \<open>The parsers walk an index through a buffer; \<open>drop p mem\<close> is what is still ahead.\<close>

named_theorems scan_simps \<open>reads at the front of what is still ahead\<close>

lemma rd_ahead: "drop p mem = x # xs \<Longrightarrow> rd mem p = Some x"
  by (metis drop_eq_Nil hd_drop_conv_nth leI list.sel(1) list.simps(3) rd_in)

lemma drop_past: "drop p mem = a @ b \<Longrightarrow> length a = n \<Longrightarrow> drop (p + n) mem = b"
  by (metis add.commute append_eq_conv_conj drop_drop)

lemma bslice_ahead: "drop p mem = a @ b \<Longrightarrow> length a = n \<Longrightarrow> bslice mem p n = a"
  by (simp add: bslice_def)

lemma be16_ahead:
  assumes "drop p mem = be16 w @ r"
  shows "rd mem p = Some (ucast (drop_bit 8 w))" "rd mem (p + 1) = Some (ucast w)" "drop (p + 2) mem = r"
proof -
  have a: "drop p mem = ucast (drop_bit 8 w) # [ucast w] @ r" using assms by (simp add: be16_def)
  then show "rd mem p = Some (ucast (drop_bit 8 w))" by (rule rd_ahead)
  have "drop (p + 1) mem = ucast w # r" using drop_past [of p mem "[ucast (drop_bit 8 w)]" "[ucast w] @ r" 1] a by simp
  then show "rd mem (p + 1) = Some (ucast w)" by (rule rd_ahead)
  show "drop (p + 2) mem = r" using drop_past [OF assms] by simp
qed

lemma ahead_fits: "drop p mem = a @ b \<Longrightarrow> a \<noteq> [] \<Longrightarrow> p + length a \<le> length mem"
  by (metis append_is_Nil_conv drop_eq_Nil length_append length_drop le_add1 nat_le_linear ordered_cancel_comm_monoid_diff_class.le_diff_conv2 add.commute)

lemma unat_of_nat_small: "k < 2 ^ LENGTH('a::len) \<Longrightarrow> unat (of_nat k :: 'a word) = k"
  by (simp add: unsigned_of_nat take_bit_nat_eq_self)

lemma be32_ahead:
  assumes "drop p mem = be32 w @ r"
  shows "rd mem p = Some (ucast (drop_bit 24 w))" "rd mem (p + 1) = Some (ucast (drop_bit 16 w))"
    "rd mem (p + 2) = Some (ucast (drop_bit 8 w))" "rd mem (p + 3) = Some (ucast w)" "drop (p + 4) mem = r"
proof -
  let ?l = "[ucast (drop_bit 24 w), ucast (drop_bit 16 w), ucast (drop_bit 8 w), ucast w] :: bytes"
  have a: "drop p mem = ?l @ r" using assms by (simp add: be32_def)
  show "rd mem p = Some (ucast (drop_bit 24 w))" "rd mem (p + 1) = Some (ucast (drop_bit 16 w))"
    "rd mem (p + 2) = Some (ucast (drop_bit 8 w))" "rd mem (p + 3) = Some (ucast w)"
    using rd_ahead [of p mem] rd_ahead [of "p + 1" mem] rd_ahead [of "p + 2" mem] rd_ahead [of "p + 3" mem]
      drop_past [of p mem "take 1 ?l" "drop 1 ?l @ r" 1] drop_past [of p mem "take 2 ?l" "drop 2 ?l @ r" 2]
      drop_past [of p mem "take 3 ?l" "drop 3 ?l @ r" 3] a by (simp_all add: numeral_eq_Suc)
  show "drop (p + 4) mem = r" using drop_past [OF assms] by simp
qed

lemma rd_at: "drop p mem = a @ x # b \<Longrightarrow> i = p + length a \<Longrightarrow> rd mem i = Some x"
  using drop_past [of p mem a "x # b" "length a"] rd_ahead by simp

end
