(* ===== verification/Base64.thy ===== *)
theory Base64
  imports Prelude
begin

text \<open>
  \<open>common/base64.c\<close>: the streaming encoder (a context fed byte by byte, with a character
  sink), the one-shot encoder and the decoder, all shown against the RFC 4648 encoding.
  Byte values are \<open>int\<close> where the C code computes in \<open>int\<close> and \<open>8 word\<close> where it
  computes in \<open>unsigned char\<close>.
\<close>

section \<open>The streaming encoder\<close>

record 'u cs_base64_ctx =
  chunk :: bytes
  chunk_size :: nat
  b64_putc :: "u8 \<Rightarrow> 'u \<Rightarrow> 'u"
  user_data :: 'u

definition NUM_UPPERCASES :: int where "NUM_UPPERCASES = 26"
definition NUM_LETTERS :: int where "NUM_LETTERS = NUM_UPPERCASES * 2"
definition NUM_DIGITS :: int where "NUM_DIGITS = 10"

lemmas b64_consts = NUM_UPPERCASES_def NUM_LETTERS_def NUM_DIGITS_def

definition b64_put :: "'u cs_base64_ctx \<Rightarrow> u8 \<Rightarrow> 'u cs_base64_ctx" where
  "b64_put ctx c = ctx\<lparr>user_data := b64_putc ctx c (user_data ctx)\<rparr>"

definition b64_code :: "int \<Rightarrow> u8" where
  "b64_code v =
     (if v < NUM_UPPERCASES then word_of_int (v + uint (ch CHR ''A''))
      else if v < NUM_LETTERS then word_of_int (v - NUM_UPPERCASES + uint (ch CHR ''a''))
      else if v < NUM_LETTERS + NUM_DIGITS
        then word_of_int (v - NUM_LETTERS + uint (ch CHR ''0''))
      else if v - NUM_LETTERS - NUM_DIGITS = 0 then ch CHR ''+'' else ch CHR ''/'')"

definition cs_base64_emit_code :: "'u cs_base64_ctx \<Rightarrow> int \<Rightarrow> 'u cs_base64_ctx" where
  "cs_base64_emit_code ctx v = b64_put ctx (b64_code v)"

definition cs_base64_emit_chunk :: "'u cs_base64_ctx \<Rightarrow> 'u cs_base64_ctx" where
  "cs_base64_emit_chunk ctx =
     (let a = uint (chunk ctx ! 0); b = uint (chunk ctx ! 1); c = uint (chunk ctx ! 2);
          ctx1 = cs_base64_emit_code ctx (drop_bit 2 a);
          ctx2 = cs_base64_emit_code ctx1 (push_bit 4 (a AND 3) OR drop_bit 4 b);
          ctx3 = (if chunk_size ctx > 1
                  then cs_base64_emit_code ctx2 (push_bit 2 (b AND 15) OR drop_bit 6 c) else ctx2)
      in if chunk_size ctx > 2 then cs_base64_emit_code ctx3 (c AND 63) else ctx3)"

text \<open>The context is caller-allocated: \<open>chunk\<close> keeps what it held.\<close>

definition cs_base64_init ::
  "'u cs_base64_ctx \<Rightarrow> (u8 \<Rightarrow> 'u \<Rightarrow> 'u) \<Rightarrow> 'u \<Rightarrow> 'u cs_base64_ctx" where
  "cs_base64_init ctx putc ud = ctx\<lparr>chunk_size := 0, b64_putc := putc, user_data := ud\<rparr>"

definition b64_update_byte :: "'u cs_base64_ctx \<Rightarrow> u8 \<Rightarrow> 'u cs_base64_ctx" where
  "b64_update_byte ctx b =
     (let ctx1 = ctx\<lparr>chunk := (chunk ctx)[chunk_size ctx := b], chunk_size := chunk_size ctx + 1\<rparr>
      in if chunk_size ctx1 = 3 then (cs_base64_emit_chunk ctx1)\<lparr>chunk_size := 0\<rparr> else ctx1)"

fun cs_base64_update :: "'u cs_base64_ctx \<Rightarrow> bytes \<Rightarrow> 'u cs_base64_ctx" where
  "cs_base64_update ctx [] = ctx"
| "cs_base64_update ctx (b # bs) = cs_base64_update (b64_update_byte ctx b) bs"

fun b64_put_pads :: "'u cs_base64_ctx \<Rightarrow> nat \<Rightarrow> 'u cs_base64_ctx" where
  "b64_put_pads ctx 0 = ctx"
| "b64_put_pads ctx (Suc n) = b64_put_pads (b64_put ctx (ch CHR ''='')) n"

definition cs_base64_finish :: "'u cs_base64_ctx \<Rightarrow> 'u cs_base64_ctx" where
  "cs_base64_finish ctx =
     (if chunk_size ctx > 0 then
        let ctx1 = ctx\<lparr>chunk := overlay (chunk ctx) (chunk_size ctx)
                                   (replicate (3 - chunk_size ctx) 0)\<rparr>;
            ctx2 = cs_base64_emit_chunk ctx1
        in b64_put_pads ctx2 (3 - chunk_size ctx2)
      else ctx)"

section \<open>The one-shot encoder\<close>

definition b64_table :: bytes where
  "b64_table = str ''ABCDEFGHIJKLMNOPQRSTUVWXYZabcdefghijklmnopqrstuvwxyz0123456789+/''"

definition b64_at :: "int \<Rightarrow> u8" where
  "b64_at v = b64_table ! nat v"

function b64_encode_loop :: "bytes \<Rightarrow> nat \<Rightarrow> bytes \<Rightarrow> bytes" where
  "b64_encode_loop src i dst =
     (if i < length src then
        let a = uint (src ! i);
            b = (if i + 1 \<ge> length src then 0 else uint (src ! (i + 1)));
            c = (if i + 2 \<ge> length src then 0 else uint (src ! (i + 2)));
            dst1 = dst @ [b64_at (drop_bit 2 a)];
            dst2 = dst1 @ [b64_at (push_bit 4 (a AND 3) OR drop_bit 4 b)];
            dst3 = (if i + 1 < length src
                    then dst2 @ [b64_at (push_bit 2 (b AND 15) OR drop_bit 6 c)] else dst2);
            dst4 = (if i + 2 < length src then dst3 @ [b64_at (c AND 63)] else dst3)
        in b64_encode_loop src (i + 3) dst4
      else dst)"
  by pat_completeness auto
termination by (relation "measure (\<lambda>(src, i, dst). length src - i)") auto

lemma pad_measure:
  assumes "0 < (n::nat) mod 4"
  shows "(4 - Suc n mod 4) mod 4 < 4 - n mod 4"
proof -
  have "n mod 4 = 1 \<or> n mod 4 = 2 \<or> n mod 4 = 3"
    using assms mod_less_divisor [of 4 n] by linarith
  then show ?thesis by (auto simp: mod_Suc)
qed

function b64_pad_loop :: "bytes \<Rightarrow> bytes" where
  "b64_pad_loop dst = (if length dst mod 4 \<noteq> 0 then b64_pad_loop (dst @ [ch CHR ''='']) else dst)"
  by pat_completeness auto
termination
  by (relation "measure (\<lambda>dst. (4 - length dst mod 4) mod 4)") (auto simp: pad_measure)

declare b64_encode_loop.simps [simp del] b64_pad_loop.simps [simp del]

text \<open>
  \<open>cs_base64_encode\<close> writes the code and the terminating NUL to \<open>dst\<close>.  Its \<open>src_len\<close> and the indices \<open>i\<close> and \<open>j\<close> are
  \<open>int\<close>: \<open>None\<close> is a length that is no \<open>int\<close>, or an overflow.  \<open>j\<close> is at any time the number of characters written so far and at
  least \<open>i\<close>, so an overflow happens exactly when \<open>j\<close> passes \<open>INT_MAX\<close> at the end.
\<close>

definition cs_base64_encode :: "bytes \<Rightarrow> bytes option" where
  "cs_base64_encode src =
     (let dst = b64_pad_loop (b64_encode_loop src 0 []) @ [0] in
      if length src \<le> INT_MAX \<and> length dst \<le> INT_MAX then Some dst else None)"

text \<open>\<open>cs_fprint_base64\<close> prints the same characters to a stream, without the NUL.\<close>

definition cs_fprint_base64 :: "bytes \<Rightarrow> bytes \<Rightarrow> bytes option" where
  "cs_fprint_base64 file src =
     (let out = b64_pad_loop (b64_encode_loop src 0 []) in
      if length src \<le> INT_MAX \<and> length out \<le> INT_MAX then Some (file @ out) else None)"

section \<open>The decoder\<close>

definition b64_inverse_table :: "u8 list" where
  "b64_inverse_table =
     [255, 255, 255, 255, 255, 255, 255, 255, 255, 255, 255, 255, 255, 255, 255, 255,
      255, 255, 255, 255, 255, 255, 255, 255, 255, 255, 255, 255, 255, 255, 255, 255,
      255, 255, 255, 255, 255, 255, 255, 255, 255, 255, 255, 62, 255, 255, 255, 63,
      52, 53, 54, 55, 56, 57, 58, 59, 60, 61, 255, 255, 255, 200, 255, 255,
      255, 0, 1, 2, 3, 4, 5, 6, 7, 8, 9, 10, 11, 12, 13, 14,
      15, 16, 17, 18, 19, 20, 21, 22, 23, 24, 25, 255, 255, 255, 255, 255,
      255, 26, 27, 28, 29, 30, 31, 32, 33, 34, 35, 36, 37, 38, 39, 40,
      41, 42, 43, 44, 45, 46, 47, 48, 49, 50, 51, 255, 255, 255, 255, 255]"

definition from_b64 :: "u8 \<Rightarrow> u8" where
  "from_b64 c = b64_inverse_table ! unat (c AND 127)"

text \<open>The loop returns the input it has not consumed and the bytes it has written.\<close>

fun b64_decode_loop :: "bytes \<Rightarrow> bytes \<Rightarrow> bytes \<times> bytes" where
  "b64_decode_loop (s0 # s1 # s2 # s3 # s) dst =
     (let a = from_b64 s0; b = from_b64 s1; c = from_b64 s2; d = from_b64 s3 in
      if a = 255 \<or> b = 255 \<or> c = 255 \<or> d = 255 then (s0 # s1 # s2 # s3 # s, dst)
      else if a = 200 \<or> b = 200 then (s, dst)
      else let dst1 = dst @ [push_bit 2 a OR drop_bit 4 b] in
        if c = 200 then (s, dst1)
        else let dst2 = dst1 @ [push_bit 4 b OR drop_bit 2 c] in
          if d = 200 then (s, dst2)
          else b64_decode_loop s (dst2 @ [push_bit 6 c OR d]))"
| "b64_decode_loop s dst = (s, dst)"

text \<open>
  \<open>cs_base64_decode s\<close>: the number of characters consumed, the bytes written to \<open>dst\<close>
  (with the terminating NUL) and the value stored in \<open>*dec_len\<close>.  The length of \<open>s\<close> is an \<open>int\<close>, and
  all other numbers are below it.
\<close>

definition cs_base64_decode :: "bytes \<Rightarrow> (nat \<times> bytes \<times> nat) option" where
  "cs_base64_decode s =
     (if length s \<le> INT_MAX
      then case b64_decode_loop s [] of
        (rest, dst) \<Rightarrow> Some (length s - length rest, dst @ [0], length dst)
      else None)"

section \<open>The encoding as RFC 4648 states it\<close>

definition sx0 :: "u8 \<Rightarrow> u8" where "sx0 a = drop_bit 2 a"
definition sx1 :: "u8 \<Rightarrow> u8 \<Rightarrow> u8" where "sx1 a b = push_bit 4 (a AND 3) OR drop_bit 4 b"
definition sx2 :: "u8 \<Rightarrow> u8 \<Rightarrow> u8" where "sx2 b c = push_bit 2 (b AND 15) OR drop_bit 6 c"
definition sx3 :: "u8 \<Rightarrow> u8" where "sx3 c = c AND 63"

lemmas sx_defs = sx0_def sx1_def sx2_def sx3_def

definition b64_chars :: "u8 \<Rightarrow> u8 \<Rightarrow> u8 \<Rightarrow> bytes" where
  "b64_chars a b c =
     [b64_table ! unat (sx0 a), b64_table ! unat (sx1 a b),
      b64_table ! unat (sx2 b c), b64_table ! unat (sx3 c)]"

fun rfc4648 :: "bytes \<Rightarrow> bytes" where
  "rfc4648 [] = []"
| "rfc4648 [a] = take 2 (b64_chars a 0 0) @ [ch CHR ''='', ch CHR ''='']"
| "rfc4648 [a, b] = take 3 (b64_chars a b 0) @ [ch CHR ''='']"
| "rfc4648 (a # b # c # s) = b64_chars a b c @ rfc4648 s"

section \<open>Code characters and sextets\<close>

lemma b64_code_table: "k < 64 \<Longrightarrow> b64_code (int k) = b64_table ! k"
proof -
  have "list_all (\<lambda>k. b64_code (int k) = b64_table ! k) [0..<64]"
    by (simp add: upt_rec b64_code_def b64_consts b64_table_def ch_def)
  then show "k < 64 \<Longrightarrow> ?thesis" by (auto simp: list_all_iff)
qed

lemma from_b64_table: "k < 64 \<Longrightarrow> from_b64 (b64_table ! k) = of_nat k"
proof -
  have "list_all (\<lambda>k. from_b64 (b64_table ! k) = of_nat k) [0..<64]"
    by (simp add: upt_rec from_b64_def b64_inverse_table_def b64_table_def ch_def)
  then show "k < 64 \<Longrightarrow> ?thesis" by (auto simp: list_all_iff)
qed

lemma from_b64_pad [simp]: "from_b64 (ch CHR ''='') = 200"
  by (simp add: from_b64_def b64_inverse_table_def ch_def)



lemma int_sextets:
  fixes a b c :: u8
  shows "drop_bit 2 (uint a) = uint (sx0 a)"
    and "push_bit 4 (uint a AND 3) OR drop_bit 4 (uint b) = uint (sx1 a b)"
    and "push_bit 2 (uint b AND 15) OR drop_bit 6 (uint c) = uint (sx2 b c)"
    and "uint c AND 63 = uint (sx3 c)"
  unfolding and_masks sx_defs
  by (rule bit_eqI, auto simp: bit_simps dest: bit_imp_le_length)+

lemma sextets_less [simp]:
  "unat (sx0 a) < 64" "unat (sx1 a b) < 64" "unat (sx2 b c) < 64" "unat (sx3 c) < 64"
  unfolding and_masks sx_defs
  by (rule u8_take_less [of _ 6, simplified], rule u8_eqI; simp add: bit_simps u8_high_bit)+

lemma sextets_bytes [simp]:
  "push_bit 2 (sx0 a) OR drop_bit 4 (sx1 a b) = a"
  "push_bit 4 (sx1 a b) OR drop_bit 2 (sx2 b c) = b"
  "push_bit 6 (sx2 b c) OR sx3 c = c"
  unfolding and_masks sx_defs
  by (rule u8_eqI; simp add: bit_simps)+

lemma b64_code_uint:
  assumes "unat (w::u8) < 64"
  shows "b64_code (uint w) = b64_table ! unat w"
  using b64_code_table [OF assms] by (simp only: uint_nat)

lemma b64_code_sx [simp]:
  "b64_code (uint (sx0 a)) = b64_table ! unat (sx0 a)"
  "b64_code (uint (sx1 a b)) = b64_table ! unat (sx1 a b)"
  "b64_code (uint (sx2 b c)) = b64_table ! unat (sx2 b c)"
  "b64_code (uint (sx3 c)) = b64_table ! unat (sx3 c)"
  by (simp_all add: b64_code_uint)

lemma b64_at_uint: "b64_at (uint (w::u8)) = b64_table ! unat w"
  by (simp add: b64_at_def)

section \<open>The streaming encoder computes the RFC encoding\<close>

lemma emit_chunk_user_data:
  assumes "chunk ctx = [a, b, c]"
  shows "user_data (cs_base64_emit_chunk ctx) =
    fold (b64_putc ctx) (take (max 2 (chunk_size ctx + 1)) (b64_chars a b c)) (user_data ctx)"
  unfolding cs_base64_emit_chunk_def Let_def int_sextets
  using assms
  by (auto simp: cs_base64_emit_code_def b64_put_def b64_chars_def max_def
      take_Cons' numeral_eq_Suc)

lemma emit_chunk_frame [simp]:
  "chunk (cs_base64_emit_chunk ctx) = chunk ctx"
  "chunk_size (cs_base64_emit_chunk ctx) = chunk_size ctx"
  "b64_putc (cs_base64_emit_chunk ctx) = b64_putc ctx"
  by (simp_all add: cs_base64_emit_chunk_def Let_def cs_base64_emit_code_def b64_put_def)

lemma put_pads_user_data:
  "user_data (b64_put_pads ctx n) = fold (b64_putc ctx) (replicate n (ch CHR ''='')) (user_data ctx)"
  by (induction n arbitrary: ctx) (auto simp: b64_put_def)

text \<open>The complete triples of a message, encoded, and what is left of it.\<close>

fun b64_full :: "bytes \<Rightarrow> bytes" where
  "b64_full (a # b # c # s) = b64_chars a b c @ b64_full s"
| "b64_full s = []"

fun b64_tail :: "bytes \<Rightarrow> bytes" where
  "b64_tail (a # b # c # s) = b64_tail s"
| "b64_tail s = s"

lemma rfc4648_full_tail: "rfc4648 m = b64_full m @ rfc4648 (b64_tail m)"
  by (induction m rule: rfc4648.induct) (auto simp: b64_chars_def)

lemma length_b64_tail: "length (b64_tail m) < 3"
  by (induction m rule: b64_tail.induct) auto

lemma b64_full_snoc:
  "b64_full (m @ [x]) = b64_full m @ (case b64_tail m of [a, b] \<Rightarrow> b64_chars a b x | _ \<Rightarrow> [])"
  by (induction m rule: b64_tail.induct) auto

lemma b64_tail_snoc:
  "b64_tail (m @ [x]) = (case b64_tail m of [a, b] \<Rightarrow> [] | t \<Rightarrow> t @ [x])"
  by (induction m rule: b64_tail.induct) (auto split: list.splits)

definition b64_streamed ::
  "(u8 \<Rightarrow> 'u \<Rightarrow> 'u) \<Rightarrow> 'u \<Rightarrow> 'u cs_base64_ctx \<Rightarrow> bytes \<Rightarrow> bool" where
  "b64_streamed putc u ctx m \<longleftrightarrow>
     length (chunk ctx) = 3 \<and> b64_putc ctx = putc \<and> chunk_size ctx = length (b64_tail m) \<and>
     take (chunk_size ctx) (chunk ctx) = b64_tail m \<and> user_data ctx = fold putc (b64_full m) u"

lemma length_3_cases: "length xs = 3 \<Longrightarrow> \<exists>a b c. xs = [a, b, c]"
  by (auto simp: numeral_eq_Suc length_Suc_conv)

lemma b64_streamed_init:
  "length (chunk ctx) = 3 \<Longrightarrow> b64_streamed putc u (cs_base64_init ctx putc u) []"
  by (simp add: b64_streamed_def cs_base64_init_def)

lemma b64_streamed_byte:
  assumes "b64_streamed putc u ctx m"
  shows "b64_streamed putc u (b64_update_byte ctx x) (m @ [x])"
proof -
  from assms obtain a b c where ch: "chunk ctx = [a, b, c]"
    using length_3_cases [of "chunk ctx"] by (auto simp: b64_streamed_def)
  have "length (b64_tail m) = 0 \<or> length (b64_tail m) = 1 \<or> length (b64_tail m) = 2"
    using length_b64_tail [of m] by linarith
  with assms ch show ?thesis
    by (auto simp: b64_streamed_def b64_update_byte_def b64_full_snoc b64_tail_snoc
        emit_chunk_user_data numeral_eq_Suc length_Suc_conv b64_chars_def)
qed

lemma b64_streamed_update:
  "b64_streamed putc u ctx m \<Longrightarrow> b64_streamed putc u (cs_base64_update ctx d) (m @ d)"
proof (induction d arbitrary: ctx m)
  case (Cons x d)
  from Cons.IH [OF b64_streamed_byte [OF Cons.prems]] show ?case by simp
qed simp

lemma b64_streamed_finish:
  assumes "b64_streamed putc u ctx m"
  shows "user_data (cs_base64_finish ctx) = fold putc (rfc4648 m) u"
proof -
  from assms obtain a b c where ch: "chunk ctx = [a, b, c]"
    using length_3_cases [of "chunk ctx"] by (auto simp: b64_streamed_def)
  have "length (b64_tail m) = 0 \<or> length (b64_tail m) = 1 \<or> length (b64_tail m) = 2"
    using length_b64_tail [of m] by linarith
  with assms ch show ?thesis
    unfolding rfc4648_full_tail [of m]
    by (auto simp: b64_streamed_def cs_base64_finish_def Let_def overlay_def emit_chunk_user_data
        put_pads_user_data numeral_eq_Suc length_Suc_conv b64_chars_def)
qed

text \<open>C5. Feeding the streaming encoder any sequence of pieces and finishing it passes exactly
  the RFC 4648 encoding of the concatenated pieces to the character sink, in order.\<close>

theorem cs_base64_stream_rfc4648:
  assumes "length (chunk ctx) = 3"
  shows "user_data (cs_base64_finish (fold (\<lambda>d c. cs_base64_update c d) ds
           (cs_base64_init ctx putc u))) = fold putc (rfc4648 (concat ds)) u"
proof -
  have "b64_streamed putc u c m \<Longrightarrow>
      b64_streamed putc u (fold (\<lambda>d c. cs_base64_update c d) ds c) (m @ concat ds)" for c m
  proof (induction ds arbitrary: c m)
    case (Cons d ds)
    from Cons.IH [OF b64_streamed_update [OF Cons.prems]] show ?case by simp
  qed simp
  from this [OF b64_streamed_init [OF assms]] show ?thesis
    by (simp add: b64_streamed_finish)
qed

theorem cs_base64_stream_rfc4648_witness:
  "length (chunk \<lparr>chunk = [0, 0, 0], chunk_size = 0, b64_putc = (\<lambda>c u. u), user_data = []\<rparr>) = 3 \<and>
   user_data (cs_base64_finish (fold (\<lambda>d c. cs_base64_update c d) [str ''M'', str ''any!'']
     (cs_base64_init \<lparr>chunk = [0, 0, 0], chunk_size = 0, b64_putc = (\<lambda>c u. u), user_data = []\<rparr>
        (\<lambda>c u. u @ [c]) []))) =
   fold (\<lambda>c u. u @ [c]) (rfc4648 (str ''Many!'')) []"
proof -
  have l: "length (chunk \<lparr>chunk = [0, 0, 0], chunk_size = 0, b64_putc = (\<lambda>c u. u), user_data = ([]::bytes)\<rparr>) = 3"
    by simp
  from cs_base64_stream_rfc4648 [OF l, of "[str ''M'', str ''any!'']" "\<lambda>c u. u @ [c]" "[]"] l
  show ?thesis by simp
qed

section \<open>The one-shot encoder against the RFC\<close>

fun b64_raw :: "bytes \<Rightarrow> bytes" where
  "b64_raw [] = []"
| "b64_raw [a] = take 2 (b64_chars a 0 0)"
| "b64_raw [a, b] = take 3 (b64_chars a b 0)"
| "b64_raw (a # b # c # s) = b64_chars a b c @ b64_raw s"

lemma b64_encode_loop_end: "length src \<le> i \<Longrightarrow> b64_encode_loop src i dst = dst"
  by (simp add: b64_encode_loop.simps)

lemma int_sextets_0:
  shows int_sx1_0: "push_bit 4 (uint a AND 3) = uint (sx1 a 0)"
    and int_sx2_0: "push_bit 2 (uint b AND 15) = uint (sx2 b 0)"
  using int_sextets(2) [of a 0] int_sextets(3) [of b 0] by (simp_all del: push_bit_and)

lemma b64_encode_loop_raw: "b64_encode_loop (pre @ s) (length pre) dst = dst @ b64_raw s"
proof (induction s arbitrary: pre dst rule: b64_raw.induct)
  case (4 a b c s)
  have "b64_encode_loop (pre @ a # b # c # s) (length pre + 3) d = d @ b64_raw s" for d
    using "4.IH" [of "pre @ [a, b, c]" d] by (simp add: eval_nat_numeral)
  then show ?case
    by (subst b64_encode_loop.simps)
      (simp add: Let_def int_sextets b64_at_uint b64_chars_def nth_append del: push_bit_and)
next
  case (2 a)
  show ?case
    by (subst b64_encode_loop.simps)
      (simp add: Let_def int_sextets int_sx1_0
        b64_at_uint b64_chars_def nth_append b64_encode_loop_end del: push_bit_and)
next
  case (3 a b)
  show ?case
    by (subst b64_encode_loop.simps)
      (simp add: Let_def int_sextets int_sx2_0
         b64_at_uint b64_chars_def nth_append b64_encode_loop_end del: push_bit_and)
qed (simp add: b64_encode_loop_end)

lemma b64_pad_step: "0 < length dst mod 4 \<Longrightarrow> b64_pad_loop dst = b64_pad_loop (dst @ [ch CHR ''=''])"
  by (subst b64_pad_loop.simps) simp

lemma b64_pad_done: "length dst mod 4 = 0 \<Longrightarrow> b64_pad_loop dst = dst"
  by (subst b64_pad_loop.simps) simp

lemma b64_pad_raw: "length x mod 4 = 0 \<Longrightarrow> b64_pad_loop (x @ b64_raw s) = x @ rfc4648 s"
proof (induction s arbitrary: x rule: b64_raw.induct)
  case (4 a b c s)
  from "4.prems" have "length (x @ b64_chars a b c) mod 4 = 0"
    by (simp add: b64_chars_def mod_Suc)
  from "4.IH" [OF this] show ?case by simp
next
  case (2 a)
  then show ?case
    by (simp add: b64_pad_step b64_pad_done b64_chars_def mod_Suc)
next
  case (3 a b)
  then show ?case
    by (simp add: b64_pad_step b64_pad_done b64_chars_def mod_Suc)
qed (simp add: b64_pad_done)

lemma b64_encode_pad: "b64_pad_loop (b64_encode_loop src 0 []) = rfc4648 src"
  using b64_encode_loop_raw [of "[]" src "[]"] b64_pad_raw [of "[]" src] by simp

lemma length_rfc4648: "length (rfc4648 s) = 4 * ((length s + 2) div 3)"
  by (induction s rule: rfc4648.induct) (simp_all add: b64_chars_def, presburger)

text \<open>The one-shot encoder writes the RFC 4648 encoding followed by a NUL, as long as that many characters can be counted.\<close>

lemma cs_base64_encode_rfc4648:
  "4 * ((length src + 2) div 3) < INT_MAX \<Longrightarrow> cs_base64_encode src = Some (rfc4648 src @ [0])"
  unfolding cs_base64_encode_def b64_encode_pad Let_def by (simp add: length_rfc4648)

section \<open>Decoding\<close>

lemma of_nat_sextet [simp]: "(of_nat (unat (w::u8)) :: u8) = w"
  by simp

lemma sextet_not_special [simp]:
  "unat (w::u8) < 64 \<Longrightarrow> w \<noteq> 255" "unat (w::u8) < 64 \<Longrightarrow> w \<noteq> 200"
  by auto

lemma from_b64_sx [simp]:
  "from_b64 (b64_table ! unat (sx0 a)) = sx0 a"
  "from_b64 (b64_table ! unat (sx1 a b)) = sx1 a b"
  "from_b64 (b64_table ! unat (sx2 b c)) = sx2 b c"
  "from_b64 (b64_table ! unat (sx3 c)) = sx3 c"
  by (simp_all add: from_b64_table)

lemma b64_decode_loop_rfc4648: "b64_decode_loop (rfc4648 s) dst = ([], dst @ s)"
  by (induction s arbitrary: dst rule: rfc4648.induct)
    (auto simp: b64_chars_def Let_def sextets_bytes(1) [where b = 0])

text \<open>C6. As long as the indices of the encoder, which are \<open>int\<close>, do not overflow, decoding what \<open>cs_base64_encode\<close> wrote gives the
  original bytes back: every character is consumed, \<open>dst\<close> is the source with a NUL after it and \<open>*dec_len\<close> its length.\<close>

theorem cs_base64_roundtrip:
  assumes "4 * ((length src + 2) div 3) < INT_MAX"
  shows "\<exists>enc. cs_base64_encode src = Some (enc @ [0]) \<and> cs_base64_decode enc = Some (length enc, src @ [0], length src)"
  using cs_base64_encode_rfc4648 [OF assms] assms
  by (intro exI [of _ "rfc4648 src"]) (simp add: cs_base64_decode_def b64_decode_loop_rfc4648 length_rfc4648)

theorem cs_base64_roundtrip_witness:
  "\<exists>enc. cs_base64_encode (str ''any'') = Some (enc @ [0]) \<and>
     cs_base64_decode enc = Some (length enc, str ''any'' @ [0], length (str ''any''))"
  by (rule cs_base64_roundtrip) (simp add: INT_MAX_def)

lemma b64_decode_loop_bound:
  "b64_decode_loop s dst = (rest, out) \<Longrightarrow>
     \<exists>k. length s = length rest + 4 * k \<and> length out \<le> length dst + 3 * k"
proof (induction "length s" arbitrary: s dst rule: less_induct)
  case less
  show ?case
  proof (cases "\<exists>s0 s1 s2 s3 r. s = s0 # s1 # s2 # s3 # r")
    case False
    with less.prems have "rest = s" "out = dst"
      by (cases "(s, dst)" rule: b64_decode_loop.cases; simp)+
    then show ?thesis by simp
  next
    case True
    then obtain s0 s1 s2 s3 r where s: "s = s0 # s1 # s2 # s3 # r" by blast
    let ?bad = "from_b64 s0 = 255 \<or> from_b64 s1 = 255 \<or> from_b64 s2 = 255 \<or> from_b64 s3 = 255"
    let ?stop = "from_b64 s0 = 200 \<or> from_b64 s1 = 200 \<or> from_b64 s2 = 200 \<or> from_b64 s3 = 200"
    show ?thesis
    proof (cases ?bad)
      case True
      with less.prems have "rest = s" "out = dst" unfolding s by simp_all
      then show ?thesis by simp
    next
      case ok: False
      show ?thesis
      proof (cases ?stop)
        case True
        with ok less.prems have "rest = r" "length out \<le> length dst + 3"
          unfolding s by (auto simp: Let_def split: if_splits)
        with s show ?thesis by (intro exI [of _ 1]) simp
      next
        case False
        with ok less.prems obtain d where d: "b64_decode_loop r d = (rest, out)"
          "length d = length dst + 3"
          unfolding s by (simp add: Let_def)
        from less.hyps [OF _ d(1)] s obtain k where "length r = length rest + 4 * k"
          "length out \<le> length d + 3 * k" by auto
        with s d show ?thesis by (intro exI [of _ "Suc k"]) simp
      qed
    qed
  qed
qed

text \<open>On any input the decoder consumes a multiple of four characters that is at most the
  input's length, and writes at most three bytes for each four consumed, plus the NUL.\<close>

lemma cs_base64_decode_bounds:
  "cs_base64_decode s = Some (n, dst, dec_len) \<Longrightarrow>
     n \<le> length s \<and> 4 dvd n \<and> length dst = dec_len + 1 \<and> 4 * dec_len \<le> 3 * n"
proof -
  assume d: "cs_base64_decode s = Some (n, dst, dec_len)"
  obtain rest out where "b64_decode_loop s [] = (rest, out)" by fastforce
  with b64_decode_loop_bound [OF this] d show ?thesis
    by (auto simp: cs_base64_decode_def split: if_splits)
qed

text \<open>The lookup masks the top bit, so a byte above 127 is read as the character it masks to.\<close>

lemma from_b64_high_bit: "from_b64 (c OR 128) = from_b64 c"
  unfolding from_b64_def by (rule arg_cong [where f = "\<lambda>w. b64_inverse_table ! unat w"], rule u8_eqI; simp add: bit_simps and_masks)

end
