(* ===== verification/Mbuf.thy ===== *)
theory Mbuf
  imports Prelude
begin

text \<open>
  \<open>common/mbuf.c\<close>: the growable buffer behind every connection.  A buffer is a block of
  memory (its address, its contents and its size) of which the first \<open>len\<close> bytes are in
  use.  The allocator is a parameter with the documented behaviour of \<open>realloc\<close>.  A failed
  \<open>assert\<close> is \<open>None\<close>.  Lengths are below $2^{62}$, so sums of lengths do not wrap.
\<close>

section \<open>The allocator\<close>

text \<open>Blocks lie in the lower half of the address space.\<close>

definition USER_SPACE :: nat where "USER_SPACE = 2 ^ 63"

lemma USER_SPACE_pos [simp]: "0 < USER_SPACE"
  by (simp add: USER_SPACE_def)

text \<open>
  \<open>ra p m n\<close> is \<open>realloc (p, n)\<close> on a block at \<open>p\<close> with contents \<open>m\<close>: the new address
  (0 for \<open>NULL\<close>) and the contents of the new block.
\<close>

type_synonym realloc = "nat \<Rightarrow> bytes \<Rightarrow> nat \<Rightarrow> nat \<times> bytes"

definition realloc_ok :: "realloc \<Rightarrow> bool" where
  "realloc_ok ra \<longleftrightarrow>
     (\<forall>p m n. fst (ra p m n) \<noteq> 0 \<longrightarrow>
        length (snd (ra p m n)) = n \<and>
        take (min (length m) n) (snd (ra p m n)) = take (min (length m) n) m \<and>
        fst (ra p m n) < USER_SPACE)"

text \<open>An allocator that serves every request up to \<open>K\<close> bytes.\<close>

definition reliable :: "nat \<Rightarrow> realloc \<Rightarrow> bool" where
  "reliable K ra \<longleftrightarrow>
     realloc_ok ra \<and> K \<le> 2 ^ 62 \<and> (\<forall>p m n. 0 < n \<and> n \<le> K \<longrightarrow> fst (ra p m n) \<noteq> 0)"

text \<open>A concrete allocator: blocks of up to \<open>2 ^ 20\<close> bytes, fresh memory reads as zero.\<close>

definition arena_realloc :: realloc where
  "arena_realloc p m n =
     (if 0 < n \<and> n \<le> 2 ^ 20 then (4096, take n m @ replicate (n - length m) 0) else (0, []))"

lemma arena_reliable: "reliable (2 ^ 20) arena_realloc"
  by (auto simp: reliable_def realloc_ok_def arena_realloc_def min_def USER_SPACE_def)

section \<open>The buffer and its operations\<close>

definition SIZE_MAX :: nat where "SIZE_MAX = 2 ^ 64 - 1"

text \<open>\<open>(size_t)(n * MBUF_SIZE_MULTIPLIER)\<close>, the multiplier being 1.5.\<close>

definition mbuf_grow :: "nat \<Rightarrow> nat" where
  "mbuf_grow n = n * 3 div 2"

lemma mbuf_grow_ge [simp]: "n \<le> mbuf_grow n"
  by (simp add: mbuf_grow_def)

record mbuf =
  mb_addr :: nat
  mb_mem :: bytes
  mb_len :: nat
  mb_size :: nat

definition mbuf_bytes :: "mbuf \<Rightarrow> bytes" where
  "mbuf_bytes m = take (mb_len m) (mb_mem m)"

definition mbuf_resize :: "realloc \<Rightarrow> mbuf \<Rightarrow> nat \<Rightarrow> mbuf" where
  "mbuf_resize ra a new_size =
     (if new_size > mb_size a \<or> (new_size < mb_size a \<and> new_size \<ge> mb_len a) then
        case ra (mb_addr a) (mb_mem a) new_size of
          (p, mem) \<Rightarrow>
            if p = 0 \<and> new_size \<noteq> 0 then a
            else a\<lparr>mb_addr := p, mb_mem := (if p = 0 then [] else mem), mb_size := new_size\<rparr>
      else a)"

definition mbuf_init :: "realloc \<Rightarrow> nat \<Rightarrow> mbuf" where
  "mbuf_init ra initial_size =
     mbuf_resize ra \<lparr>mb_addr = 0, mb_mem = [], mb_len = 0, mb_size = 0\<rparr> initial_size"

definition mbuf_free :: "realloc \<Rightarrow> mbuf \<Rightarrow> mbuf" where
  "mbuf_free ra m = (if mb_addr m \<noteq> 0 then mbuf_init ra 0 else m)"

definition mbuf_trim :: "realloc \<Rightarrow> mbuf \<Rightarrow> mbuf" where
  "mbuf_trim ra m = mbuf_resize ra m (mb_len m)"

text \<open>
  The two memory moves of \<open>mbuf_insert\<close>: the tail moves up by \<open>len\<close> and, unless \<open>buf\<close> is
  \<open>NULL\<close>, the data is copied into the gap.
\<close>

definition mbuf_open_gap :: "bytes \<Rightarrow> nat \<Rightarrow> nat \<Rightarrow> nat \<Rightarrow> bytes option \<Rightarrow> bytes" where
  "mbuf_open_gap mem used off len buf =
     (let mem1 = overlay mem (off + len) (bslice mem off (used - off))
      in case buf of None \<Rightarrow> mem1 | Some b \<Rightarrow> overlay mem1 off (take len b))"

definition mbuf_insert ::
  "realloc \<Rightarrow> mbuf \<Rightarrow> nat \<Rightarrow> bytes option \<Rightarrow> nat \<Rightarrow> (nat \<times> mbuf) option" where
  "mbuf_insert ra a off buf len =
     (if \<not> (mb_len a \<le> mb_size a \<and> off \<le> mb_len a) then None
      else if SIZE_MAX - mb_addr a < len then Some (0, a)
      else if mb_len a + len \<le> mb_size a then
        Some (len, a\<lparr>mb_mem := mbuf_open_gap (mb_mem a) (mb_len a) off len buf,
                     mb_len := mb_len a + len\<rparr>)
      else
        let new_size = mbuf_grow (mb_len a + len) in
        case ra (mb_addr a) (mb_mem a) new_size of
          (p, mem) \<Rightarrow>
            if p \<noteq> 0 then
              Some (len, a\<lparr>mb_addr := p, mb_mem := mbuf_open_gap mem (mb_len a) off len buf,
                           mb_len := mb_len a + len, mb_size := new_size\<rparr>)
            else Some (0, a))"

definition mbuf_append :: "realloc \<Rightarrow> mbuf \<Rightarrow> bytes option \<Rightarrow> nat \<Rightarrow> (nat \<times> mbuf) option" where
  "mbuf_append ra a buf len = mbuf_insert ra a (mb_len a) buf len"

definition mbuf_remove :: "mbuf \<Rightarrow> nat \<Rightarrow> mbuf" where
  "mbuf_remove mb n =
     (if n > 0 \<and> n \<le> mb_len mb then
        mb\<lparr>mb_mem := overlay (mb_mem mb) 0 (bslice (mb_mem mb) n (mb_len mb - n)),
           mb_len := mb_len mb - n\<rparr>
      else mb)"

section \<open>Invariant\<close>

definition mbuf_inv :: "mbuf \<Rightarrow> bool" where
  "mbuf_inv m \<longleftrightarrow>
     length (mb_mem m) = mb_size m \<and> mb_len m \<le> mb_size m \<and> mb_addr m < USER_SPACE \<and>
     (mb_addr m = 0 \<longrightarrow> mb_size m = 0)"

lemma mbuf_inv_len [dest]: "mbuf_inv m \<Longrightarrow> mb_len m \<le> length (mb_mem m)"
  by (simp add: mbuf_inv_def)

lemma length_mbuf_bytes [simp]: "mbuf_inv m \<Longrightarrow> length (mbuf_bytes m) = mb_len m"
  by (auto simp: mbuf_inv_def mbuf_bytes_def)

lemma mbuf_open_gap_append:
  assumes "length pre = off" and "length mid = used - off" and "off \<le> used"
    and "length b = len" and "len \<le> length rest"
  shows "mbuf_open_gap (pre @ mid @ rest) used off len (Some b) = pre @ b @ mid @ drop len rest"
proof -
  have "overlay (pre @ mid @ rest) (off + len) mid =
      take (off + len) (pre @ mid @ rest) @ mid @ drop len rest"
    using assms by (simp add: overlay_def)
  then show ?thesis
    using assms by (simp add: mbuf_open_gap_def Let_def bslice_def overlay_def)
qed

lemma mbuf_open_gap_bytes:
  assumes "off \<le> used" and "used + length b \<le> length mem"
  shows "take (used + length b) (mbuf_open_gap mem used off (length b) (Some b)) =
         take off mem @ b @ bslice mem off (used - off)"
    and "length (mbuf_open_gap mem used off (length b) (Some b)) = length mem"
proof -
  have "mem = take off mem @ bslice mem off (used - off) @ drop used mem"
    using assms by (metis append_take_drop_id bslice_def drop_drop le_add_diff_inverse2)
  moreover have "length (take off mem) = off" "length (bslice mem off (used - off)) = used - off"
    "length b \<le> length (drop used mem)"
    using assms by (simp_all add: bslice_def)
  ultimately have "mbuf_open_gap mem used off (length b) (Some b) =
      take off mem @ b @ bslice mem off (used - off) @ drop (length b) (drop used mem)"
    using mbuf_open_gap_append [of "take off mem" off "bslice mem off (used - off)" used b "length b"
      "drop used mem"] assms(1) by simp
  then show "take (used + length b) (mbuf_open_gap mem used off (length b) (Some b)) =
         take off mem @ b @ bslice mem off (used - off)"
    and "length (mbuf_open_gap mem used off (length b) (Some b)) = length mem"
    using assms by (simp_all add: bslice_def)
qed

text \<open>What an insertion does when it succeeds, and that it is all or nothing.\<close>

lemma realloc_okD:
  assumes "realloc_ok ra" and "ra p m n = (q, mem)" and "q \<noteq> 0"
  shows "length mem = n" "take (min (length m) n) mem = take (min (length m) n) m" "q < USER_SPACE"
  using assms unfolding realloc_ok_def by (metis fst_conv snd_conv)+

lemma mbuf_insert_cases:
  assumes "realloc_ok ra" and inv: "mbuf_inv m" and off: "off \<le> mb_len m"
  obtains (fail) "mbuf_insert ra m off (Some b) (length b) = Some (0, m)"
  | (ok) m' where "mbuf_insert ra m off (Some b) (length b) = Some (length b, m')"
      "mbuf_inv m'" "mbuf_bytes m' = take off (mbuf_bytes m) @ b @ drop off (mbuf_bytes m)"
proof (cases "SIZE_MAX - mb_addr m < length b")
  case True
  with inv off show ?thesis by (intro fail) (simp add: mbuf_insert_def mbuf_inv_def)
next
  case addr: False
  show ?thesis
  proof (cases "mb_len m + length b \<le> mb_size m")
    case True
    let ?m = "m\<lparr>mb_mem := mbuf_open_gap (mb_mem m) (mb_len m) off (length b) (Some b),
               mb_len := mb_len m + length b\<rparr>"
    have l: "mb_len m + length b \<le> length (mb_mem m)" using True inv by (simp add: mbuf_inv_def)
    show ?thesis
    proof (rule ok)
      show "mbuf_insert ra m off (Some b) (length b) = Some (length b, ?m)"
        using addr True inv off by (simp add: mbuf_insert_def mbuf_inv_def)
      show "mbuf_inv ?m"
        using inv True mbuf_open_gap_bytes(2) [OF off l] by (simp add: mbuf_inv_def)
      show "mbuf_bytes ?m = take off (mbuf_bytes m) @ b @ drop off (mbuf_bytes m)"
        using mbuf_open_gap_bytes(1) [OF off l] off
        by (simp add: mbuf_bytes_def bslice_def drop_take min_def)
    qed
  next
    case big: False
    let ?n = "mbuf_grow (mb_len m + length b)"
    obtain p mem where r: "ra (mb_addr m) (mb_mem m) ?n = (p, mem)" by fastforce
    show ?thesis
    proof (cases "p = 0")
      case True
      with r addr big inv off show ?thesis
        by (intro fail) (simp add: mbuf_insert_def mbuf_inv_def)
    next
      case False
      note ro = realloc_okD [OF assms(1) r False]
      let ?m = "m\<lparr>mb_addr := p, mb_mem := mbuf_open_gap mem (mb_len m) off (length b) (Some b),
                 mb_len := mb_len m + length b, mb_size := ?n\<rparr>"
      have l: "mb_len m + length b \<le> length mem" using ro(1) mbuf_grow_ge by simp
      have tk: "take (mb_len m) mem = take (mb_len m) (mb_mem m)"
      proof -
        have "mb_len m \<le> min (length (mb_mem m)) ?n"
          using inv le_trans [OF le_add1 mbuf_grow_ge, of "mb_len m" "length b"]
          by (simp add: mbuf_inv_def)
        with ro(2) show ?thesis by (rule take_eq_shorter)
      qed
      show ?thesis
      proof (rule ok)
        show "mbuf_insert ra m off (Some b) (length b) = Some (length b, ?m)"
          using addr big r False inv off by (simp add: mbuf_insert_def mbuf_inv_def Let_def)
        show "mbuf_inv ?m"
          using False ro mbuf_open_gap_bytes(2) [OF off l] by (simp add: mbuf_inv_def)
        have "take off mem = take off (mb_mem m)" "bslice mem off (mb_len m - off) = bslice (mb_mem m) off (mb_len m - off)"
          using take_eq_shorter [OF tk off] arg_cong [OF tk, of "drop off"]
          by (simp_all add: bslice_def drop_take)
        then show "mbuf_bytes ?m = take off (mbuf_bytes m) @ b @ drop off (mbuf_bytes m)"
          using mbuf_open_gap_bytes(1) [OF off l] off
          by (simp add: mbuf_bytes_def bslice_def drop_take min_def)
      qed
    qed
  qed
qed

lemma mbuf_remove_bytes:
  assumes "mbuf_inv m"
  shows "mbuf_bytes (mbuf_remove m n) = (if n \<le> mb_len m then drop n (mbuf_bytes m) else mbuf_bytes m)"
    and "mbuf_inv (mbuf_remove m n)"
  using assms
  by (auto simp: mbuf_remove_def mbuf_bytes_def mbuf_inv_def overlay_def bslice_def drop_take)

lemma mbuf_resize_inv:
  assumes "realloc_ok ra" and "mbuf_inv m"
  shows "mbuf_inv (mbuf_resize ra m n)" and "mbuf_bytes (mbuf_resize ra m n) = mbuf_bytes m"
proof -
  obtain p mem where r: "ra (mb_addr m) (mb_mem m) n = (p, mem)" by fastforce
  have "mbuf_inv (mbuf_resize ra m n) \<and> mbuf_bytes (mbuf_resize ra m n) = mbuf_bytes m"
  proof (cases "p = 0")
    case True
    show ?thesis
    proof (cases "n = 0 \<and> n < mb_size m \<and> mb_len m \<le> n")
      case True
      with r \<open>p = 0\<close> show ?thesis by (simp add: mbuf_resize_def mbuf_inv_def mbuf_bytes_def)
    next
      case False
      with r \<open>p = 0\<close> have "mbuf_resize ra m n = m" by (auto simp: mbuf_resize_def)
      with assms(2) show ?thesis by simp
    qed
  next
    case False
    note ro = realloc_okD [OF assms(1) r False]
    have "take (mb_len m) mem = take (mb_len m) (mb_mem m)" if "mb_len m \<le> n"
    proof -
      have "mb_len m \<le> min (length (mb_mem m)) n" using assms(2) that by (simp add: mbuf_inv_def)
      with ro(2) show ?thesis by (rule take_eq_shorter)
    qed
    with False r ro assms(2) show ?thesis
      by (simp add: mbuf_resize_def mbuf_inv_def mbuf_bytes_def)
  qed
  then show "mbuf_inv (mbuf_resize ra m n)" and "mbuf_bytes (mbuf_resize ra m n) = mbuf_bytes m"
    by simp_all
qed

lemma mbuf_insert_reliable:
  assumes rel: "reliable K ra" and inv: "mbuf_inv m" and off: "off \<le> mb_len m"
    and fits: "mbuf_grow (mb_len m + length b) \<le> K"
  shows "\<exists>m'. mbuf_insert ra m off (Some b) (length b) = Some (length b, m') \<and> mbuf_inv m' \<and>
           mbuf_bytes m' = take off (mbuf_bytes m) @ b @ drop off (mbuf_bytes m)"
proof -
  have ok: "realloc_ok ra" using rel by (simp add: reliable_def)
  from ok inv off show ?thesis
  proof (cases rule: mbuf_insert_cases [where b = b])
    case (ok m')
    then show ?thesis by blast
  next
    case fail
    have "length b \<le> K" using fits mbuf_grow_ge [of "mb_len m + length b"] by linarith
    moreover have "K \<le> 2 ^ 62" "mb_addr m < 2 ^ 63"
      using rel inv by (simp_all add: reliable_def mbuf_inv_def USER_SPACE_def)
    ultimately have "\<not> SIZE_MAX - mb_addr m < length b"
      unfolding SIZE_MAX_def by simp
    moreover have "fst (ra (mb_addr m) (mb_mem m) (mbuf_grow (mb_len m + length b))) \<noteq> 0"
      if "0 < length b"
    proof -
      have "0 < mbuf_grow (mb_len m + length b)"
        using that mbuf_grow_ge [of "mb_len m + length b"] by linarith
      with rel fits show ?thesis by (simp add: reliable_def)
    qed
    ultimately have "length b = 0"
      using fail inv off
      by (auto simp: mbuf_insert_def mbuf_inv_def Let_def split: if_splits prod.splits)
    with fail inv show ?thesis by simp
  qed
qed

section \<open>The contract of a byte buffer\<close>

text \<open>
  What the protocol code relies on: insertions and removals act on the contents as on a
  list, or an insertion fails and leaves no trace.
\<close>

datatype buf_op = Put bytes | Take nat

fun buf_run ::
  "('m \<Rightarrow> bytes) \<Rightarrow> ('m \<Rightarrow> nat \<Rightarrow> bytes \<Rightarrow> 'm option) \<Rightarrow> ('m \<Rightarrow> nat \<Rightarrow> 'm) \<Rightarrow>
     buf_op list \<Rightarrow> 'm \<Rightarrow> (bytes \<times> 'm) option" where
  "buf_run con ins rem [] m = Some ([], m)"
| "buf_run con ins rem (Put b # ops) m =
     (case ins m (length (con m)) b of None \<Rightarrow> None | Some m' \<Rightarrow> buf_run con ins rem ops m')"
| "buf_run con ins rem (Take n # ops) m =
     (if n \<le> length (con m)
      then map_option (\<lambda>(out, m'). (take n (con m) @ out, m')) (buf_run con ins rem ops (rem m n))
      else None)"

fun put_bytes :: "buf_op list \<Rightarrow> bytes" where
  "put_bytes [] = []"
| "put_bytes (Put b # ops) = b @ put_bytes ops"
| "put_bytes (Take n # ops) = put_bytes ops"

locale byte_buffer =
  fixes contents :: "'m \<Rightarrow> bytes" and valid :: "'m \<Rightarrow> bool"
    and insert_at :: "'m \<Rightarrow> nat \<Rightarrow> bytes \<Rightarrow> 'm option" and remove_front :: "'m \<Rightarrow> nat \<Rightarrow> 'm"
  assumes insert_valid: "valid m \<Longrightarrow> off \<le> length (contents m) \<Longrightarrow> insert_at m off b = Some m' \<Longrightarrow>
      valid m'"
    and insert_contents: "valid m \<Longrightarrow> off \<le> length (contents m) \<Longrightarrow> insert_at m off b = Some m' \<Longrightarrow>
      contents m' = take off (contents m) @ b @ drop off (contents m)"
    and remove_valid: "valid m \<Longrightarrow> valid (remove_front m n)"
    and remove_contents: "valid m \<Longrightarrow> n \<le> length (contents m) \<Longrightarrow>
      contents (remove_front m n) = drop n (contents m)"
begin

lemma append_contents:
  "valid m \<Longrightarrow> insert_at m (length (contents m)) b = Some m' \<Longrightarrow> valid m' \<and> contents m' = contents m @ b"
  using insert_valid [of m "length (contents m)" b m'] insert_contents [of m "length (contents m)" b m'] by simp

lemma fifo:
  "valid m \<Longrightarrow> buf_run contents insert_at remove_front ops m = Some (out, m') \<Longrightarrow>
     valid m' \<and>
     out @ contents m' = contents m @ put_bytes ops"
proof (induction ops arbitrary: m out)
  case (Cons op ops)
  show ?case
  proof (cases op)
    case (Put b)
    with Cons.prems obtain m1 where i: "insert_at m (length (contents m)) b = Some m1"
      and r: "buf_run contents insert_at remove_front ops m1 = Some (out, m')"
      by (auto split: option.splits)
    from append_contents [OF Cons.prems(1) i] have v: "valid m1" and c: "contents m1 = contents m @ b"
      by simp_all
    from Cons.IH [OF v r] c Put show ?thesis by simp
  next
    case (Take n)
    with Cons.prems obtain out' where n: "n \<le> length (contents m)"
      and r: "buf_run contents insert_at remove_front ops (remove_front m n) = Some (out', m')"
      and o: "out = take n (contents m) @ out'"
      by (auto split: if_splits)
    from Cons.IH [OF remove_valid [OF Cons.prems(1)] r]
    have "valid m'" and eq: "out' @ contents m' = drop n (contents m) @ put_bytes ops"
      using remove_contents [OF Cons.prems(1) n] by simp_all
    moreover have "out @ contents m' = take n (contents m) @ (out' @ contents m')" using o by simp
    ultimately show ?thesis using Take by (simp only: eq) simp
  qed
qed simp

end

definition mbuf_put :: "realloc \<Rightarrow> mbuf \<Rightarrow> nat \<Rightarrow> bytes \<Rightarrow> mbuf option" where
  "mbuf_put ra m off b =
     (case mbuf_insert ra m off (Some b) (length b) of
        Some (n, m') \<Rightarrow> if n = length b then Some m' else None
      | None \<Rightarrow> None)"

lemma mbuf_put_Some:
  assumes "realloc_ok ra" and inv: "mbuf_inv m" and off: "off \<le> length (mbuf_bytes m)"
    and put: "mbuf_put ra m off b = Some m'"
  shows "mbuf_inv m'" and "mbuf_bytes m' = take off (mbuf_bytes m) @ b @ drop off (mbuf_bytes m)"
proof -
  have off': "off \<le> mb_len m" using inv off by simp
  have "mbuf_inv m' \<and> mbuf_bytes m' = take off (mbuf_bytes m) @ b @ drop off (mbuf_bytes m)"
  proof (cases rule: mbuf_insert_cases [OF assms(1) inv off', of b, case_names fail ok])
    case fail
    with put inv show ?thesis by (auto simp: mbuf_put_def split: if_splits)
  next
    case (ok m1)
    with put show ?thesis by (simp add: mbuf_put_def)
  qed
  then show "mbuf_inv m'" and "mbuf_bytes m' = take off (mbuf_bytes m) @ b @ drop off (mbuf_bytes m)"
    by simp_all
qed

locale heap =
  fixes ra :: realloc
  assumes ra_ok: "realloc_ok ra"

sublocale heap \<subseteq> buf: byte_buffer mbuf_bytes mbuf_inv "mbuf_put ra" mbuf_remove
proof (unfold_locales, goal_cases)
  case 1
  then show ?case by (rule mbuf_put_Some(1) [OF ra_ok])
next
  case 2
  then show ?case by (rule mbuf_put_Some(2) [OF ra_ok])
qed (simp_all add: mbuf_remove_bytes)

context heap
begin

lemma buf_fifo:
  "mbuf_inv m \<Longrightarrow> buf_run mbuf_bytes (mbuf_put ra) mbuf_remove ops m = Some (out, m') \<Longrightarrow>
     out @ mbuf_bytes m' = mbuf_bytes m @ put_bytes ops"
  using buf.fifo by blast

end

interpretation arena: heap arena_realloc
  using arena_reliable by unfold_locales (simp add: reliable_def)

lemma arena_ok: "realloc_ok arena_realloc"
  by (rule arena.ra_ok)

definition mbuf_run :: "realloc \<Rightarrow> buf_op list \<Rightarrow> mbuf \<Rightarrow> (bytes \<times> mbuf) option" where
  "mbuf_run ra = buf_run mbuf_bytes (mbuf_put ra) mbuf_remove"

section \<open>Appending piece by piece\<close>

text \<open>An append whose result the code ignores; \<open>None\<close> is a failed assertion.\<close>

definition mbuf_push :: "realloc \<Rightarrow> mbuf option \<Rightarrow> bytes \<Rightarrow> mbuf option" where
  "mbuf_push ra m b = Option.bind m (\<lambda>m. map_option snd (mbuf_append ra m (Some b) (length b)))"

definition mbuf_has :: "mbuf option \<Rightarrow> bytes \<Rightarrow> bool" where
  "mbuf_has m bs \<longleftrightarrow> (\<exists>m'. m = Some m' \<and> mbuf_inv m' \<and> mbuf_bytes m' = bs)"

lemma mbuf_grow_mono: "m \<le> n \<Longrightarrow> mbuf_grow m \<le> mbuf_grow n"
  by (simp add: mbuf_grow_def div_le_mono)

lemma mbuf_has_push:
  assumes "reliable K ra" and "mbuf_has m bs" and "mbuf_grow (length bs + length b) \<le> K"
  shows "mbuf_has (mbuf_push ra m b) (bs @ b)"
proof -
  from assms(2) obtain m' where m: "m = Some m'" "mbuf_inv m'" "mbuf_bytes m' = bs"
    by (auto simp: mbuf_has_def)
  then have l: "mb_len m' = length bs" using length_mbuf_bytes by metis
  from mbuf_insert_reliable [OF assms(1) m(2), of "mb_len m'" b] assms(3) l
  show ?thesis using m(3) by (auto simp: mbuf_has_def mbuf_push_def mbuf_append_def m(1))
qed

lemma mbuf_has_pushes:
  assumes "reliable K ra"
  shows "mbuf_has m bs \<Longrightarrow> mbuf_grow (length bs + length (concat ds)) \<le> K \<Longrightarrow>
    mbuf_has (fold (\<lambda>d m. mbuf_push ra m d) ds m) (bs @ concat ds)"
proof (induction ds arbitrary: m bs)
  case (Cons d ds)
  have "mbuf_grow (length bs + length d) \<le> K"
    using order_trans [OF mbuf_grow_mono Cons.prems(2), of "length bs + length d"] by simp
  from Cons.IH [OF mbuf_has_push [OF assms Cons.prems(1) this]] Cons.prems(2)
  show ?case by (simp add: add.assoc)
qed simp

section \<open>Properties\<close>

definition empty_mbuf :: mbuf where
  "empty_mbuf = \<lparr>mb_addr = 0, mb_mem = [], mb_len = 0, mb_size = 0\<rparr>"

lemma empty_mbuf_inv [simp]: "mbuf_inv empty_mbuf" "mbuf_bytes empty_mbuf = []"
  "mb_len empty_mbuf = 0"
  by (simp_all add: empty_mbuf_def mbuf_inv_def mbuf_bytes_def)

text \<open>C7. With any allocator that behaves as \<open>realloc\<close> is documented to, an insertion at an
  offset inside the buffer never trips an assertion, keeps the buffer well formed, and is all
  or nothing: either the data is spliced in at the offset and its length is returned, or 0 is
  returned and the buffer is what it was.\<close>

theorem mbuf_insert_all_or_nothing:
  assumes "realloc_ok ra" and "mbuf_inv m" and "off \<le> mb_len m"
  shows "\<exists>n m'. mbuf_insert ra m off (Some b) (length b) = Some (n, m') \<and> mbuf_inv m' \<and>
    (n = length b \<and> mbuf_bytes m' = take off (mbuf_bytes m) @ b @ drop off (mbuf_bytes m) \<or>
     n = 0 \<and> m' = m)"
  using mbuf_insert_cases [OF assms, of b] assms(2) by blast

theorem mbuf_insert_all_or_nothing_witness:
  "realloc_ok arena_realloc \<and> (\<exists>n m'. mbuf_insert arena_realloc empty_mbuf 0 (Some [1, 2]) 2 = Some (n, m') \<and>
     mbuf_inv m' \<and> (n = 2 \<and> mbuf_bytes m' = [1, 2] \<or> n = 0 \<and> m' = empty_mbuf))"
  using mbuf_insert_all_or_nothing [OF arena_ok empty_mbuf_inv(1), of 0 "[1, 2]"] arena_ok
  by (simp add: numeral_2_eq_2)

text \<open>C8. A buffer is a queue of bytes: for any run of appends and removals that succeeds, what
  was taken out followed by what is left is what was there followed by what was appended.\<close>

theorem mbuf_fifo:
  assumes "realloc_ok ra" and "mbuf_inv m" and "mbuf_run ra ops m = Some (out, m')"
  shows "out @ mbuf_bytes m' = mbuf_bytes m @ put_bytes ops"
  using heap.buf_fifo [OF heap.intro [OF assms(1)] assms(2)] assms(3) by (simp add: mbuf_run_def)


theorem mbuf_fifo_witness:
  "\<exists>out m'. mbuf_run arena_realloc [Put [1, 2, 3], Take 2, Put [4]] empty_mbuf = Some (out, m') \<and>
     out @ mbuf_bytes m' = [1, 2, 3, 4]"
proof -
  have "mbuf_run arena_realloc [Put [1, 2, 3], Take 2, Put [4]] empty_mbuf \<noteq> None"
    by (simp add: mbuf_run_def empty_mbuf_def mbuf_put_def mbuf_insert_def arena_realloc_def
        SIZE_MAX_def mbuf_grow_def mbuf_bytes_def mbuf_open_gap_def bslice_def overlay_def
        mbuf_remove_def)
  then obtain out m' where r: "mbuf_run arena_realloc [Put [1, 2, 3], Take 2, Put [4]] empty_mbuf = Some (out, m')"
    by auto
  from mbuf_fifo [OF arena_ok empty_mbuf_inv(1) r] r show ?thesis by simp
qed

text \<open>An append of \<open>NULL\<close> makes room without touching the contents.\<close>

lemma mbuf_append_room:
  assumes rel: "reliable K ra" and inv: "mbuf_inv m" and fits: "mbuf_grow (mb_len m + n) \<le> K"
  shows "\<exists>m'. mbuf_append ra m None n = Some (n, m') \<and> mbuf_inv m' \<and> mb_len m' = mb_len m + n \<and>
    take (mb_len m) (mb_mem m') = mbuf_bytes m"
proof -
  have ok: "realloc_ok ra" using rel by (simp add: reliable_def)
  have gap: "mbuf_open_gap mem (mb_len m) (mb_len m) n None = mem" for mem
    by (simp add: mbuf_open_gap_def bslice_def overlay_Nil)
  have "n \<le> K" using fits mbuf_grow_ge [of "mb_len m + n"] by linarith
  moreover have "K \<le> 2 ^ 62" "mb_addr m < 2 ^ 63"
    using rel inv by (simp_all add: reliable_def mbuf_inv_def USER_SPACE_def)
  ultimately have addr: "\<not> SIZE_MAX - mb_addr m < n" unfolding SIZE_MAX_def by simp
  show ?thesis
  proof (cases "mb_len m + n \<le> mb_size m")
    case True
    then show ?thesis using inv addr
      by (simp add: mbuf_append_def mbuf_insert_def gap mbuf_inv_def mbuf_bytes_def)
  next
    case False
    let ?n = "mbuf_grow (mb_len m + n)"
    have n0: "0 < ?n" using False mbuf_grow_ge [of "mb_len m + n"] by linarith
    obtain p mem where r: "ra (mb_addr m) (mb_mem m) ?n = (p, mem)" by fastforce
    have p: "p \<noteq> 0" using rel fits n0 r unfolding reliable_def by (metis fst_conv)
    note ro = realloc_okD [OF ok r p]
    have "mb_len m \<le> min (length (mb_mem m)) ?n"
      using inv le_trans [OF le_add1 mbuf_grow_ge, of "mb_len m" n] by (simp add: mbuf_inv_def)
    with ro(2) have tk: "take (mb_len m) mem = take (mb_len m) (mb_mem m)" by (rule take_eq_shorter)
    show ?thesis using inv addr False r p ro tk mbuf_grow_ge [of "mb_len m + n"]
      by (simp add: mbuf_append_def mbuf_insert_def gap mbuf_inv_def mbuf_bytes_def Let_def)
  qed
qed

lemma overlay_room:
  assumes "mbuf_inv m" and "mb_len m = k + length b"
  shows "k + length b \<le> length (mb_mem m)" and "mbuf_inv (m\<lparr>mb_mem := overlay (mb_mem m) k b\<rparr>)"
    and "mbuf_bytes (m\<lparr>mb_mem := overlay (mb_mem m) k b\<rparr>) = take k (mb_mem m) @ b"
  using assms by (auto simp: mbuf_inv_def mbuf_bytes_def overlay_def)

end
