(* ===== verification/BlockHash.thy ===== *)
theory BlockHash
  imports Prelude
begin

text \<open>
  What MD5 and SHA-1 share: the iteration of a compression function over 64-byte blocks, the
  64-bit message length kept as two 32-bit words, and the contract of a streaming hash
  context, from which the independence of the result from the way the message is cut into
  pieces follows once for both.
\<close>

section \<open>Words\<close>

text \<open>Sixteen little-endian words of a block (\<open>(uint32_t * ) ctx->in\<close>).\<close>

fun le_words :: "bytes \<Rightarrow> u32 list" where
  "le_words (a # b # c # d # r) = un32 d c b a # le_words r"
| "le_words _ = []"

lemma rot_word_rotl: "0 < s \<Longrightarrow> s < 32 \<Longrightarrow> push_bit s (w::u32) OR drop_bit (32 - s) w = word_rotl s w"
proof (rule bit_word_eqI)
  fix n assume s: "0 < s" "s < 32" and "n < LENGTH(32)"
  then have n: "n < 32" by simp
  have r: "bit (word_rotl s w) n = bit w ((n + (32 - s)) mod 32)"
    using bit_word_rotl_iff [of s w n] n s by simp
  show "bit (push_bit s w OR drop_bit (32 - s) w) n \<longleftrightarrow> bit (word_rotl s w) n"
  proof (cases "s \<le> n")
    case True
    then have "(n + (32 - s)) mod 32 = n - s" "\<not> bit w (32 - s + n)"
      using s n by (auto simp: mod_if dest: bit_imp_le_length)
    with r True n show ?thesis by (simp add: bit_or_iff bit_push_bit_iff bit_drop_bit_eq)
  next
    case False
    then have "(n + (32 - s)) mod 32 = 32 - s + n" using s n by simp
    with r False n show ?thesis by (simp add: bit_or_iff bit_push_bit_iff bit_drop_bit_eq)
  qed
qed

section \<open>Iterating a compression function\<close>

function absorb :: "('s \<Rightarrow> bytes \<Rightarrow> 's) \<Rightarrow> 's \<Rightarrow> bytes \<Rightarrow> 's" where
  "absorb f s m = (if length m < 64 then s else absorb f (f s (take 64 m)) (drop 64 m))"
  by pat_completeness auto
termination by (relation "measure (\<lambda>(f, s, m). length m)") auto

declare absorb.simps [simp del]

definition leftover :: "bytes \<Rightarrow> bytes" where
  "leftover m = drop (64 * (length m div 64)) m"

lemma absorb_short [simp]: "length m < 64 \<Longrightarrow> absorb f s m = s"
  by (simp add: absorb.simps)

lemma absorb_block: "length b = 64 \<Longrightarrow> absorb f s (b @ m) = absorb f (f s b) m"
  by (subst absorb.simps) simp

lemma length_leftover: "length (leftover m) = length m mod 64"
  by (simp add: leftover_def minus_mult_div_eq_mod)

lemma leftover_short [simp]: "length m < 64 \<Longrightarrow> leftover m = m"
  by (simp add: leftover_def)

lemma leftover_block: "length b = 64 \<Longrightarrow> leftover (b @ m) = leftover m"
  by (simp add: leftover_def div_add_self1)

lemma absorb_leftover_append:
  "absorb f s (a @ b) = absorb f (absorb f s a) (leftover a @ b) \<and>
   leftover (a @ b) = leftover (leftover a @ b)"
proof (induction f s a rule: absorb.induct)
  case (1 f s m)
  show ?case
  proof (cases "length m < 64")
    case False
    then have l: "length (take 64 m) = 64" by simp
    have m: "take 64 m @ drop 64 m = m" by simp
    have "absorb f s (take 64 m @ drop 64 m @ b) =
        absorb f (absorb f s (take 64 m @ drop 64 m)) (leftover (take 64 m @ drop 64 m) @ b) \<and>
        leftover (take 64 m @ drop 64 m @ b) = leftover (leftover (take 64 m @ drop 64 m) @ b)"
      using "1.IH" [OF False] by (simp only: absorb_block [OF l] leftover_block [OF l])
    then show ?thesis by (metis m append_assoc)
  qed simp
qed

lemma absorb_append: "absorb f s (a @ b) = absorb f (absorb f s a) (leftover a @ b)"
  by (rule absorb_leftover_append [THEN conjunct1])

lemma leftover_append: "leftover (a @ b) = leftover (leftover a @ b)"
  by (rule absorb_leftover_append [where f = "\<lambda>s b. s" and s = "()", THEN conjunct2])

section \<open>The message length in bits\<close>

text \<open>
  Both update routines add \<open>len << 3\<close> to the low word, carry into the high word and add
  \<open>len >> 29\<close> to it, on a length cut to 32 bits.
\<close>

definition add_bits :: "u32 \<times> u32 \<Rightarrow> nat \<Rightarrow> u32 \<times> u32" where
  "add_bits bits len =
     (let lo = fst bits + push_bit 3 (of_nat len);
          hi = (if lo < fst bits then snd bits + 1 else snd bits)
      in (lo, hi + drop_bit 29 (of_nat len)))"

definition bits_nat :: "u32 \<times> u32 \<Rightarrow> nat" where
  "bits_nat bits = unat (snd bits) * 2 ^ 32 + unat (fst bits)"

lemma bits_nat_less: "bits_nat b < 2 ^ 64"
proof -
  have "unat (snd b) < 2 ^ 32" "unat (fst b) < 2 ^ 32"
    using unsigned_less [of "snd b"] unsigned_less [of "fst b"] by simp_all
  then show ?thesis by (simp add: bits_nat_def)
qed

text \<open>The pair is the 64-bit count of bits for pieces shorter than \<open>2 ^ 32\<close> bytes ...\<close>

lemma mod_two_digits:
  assumes "r < B"
  shows "(x * B + r) mod (B * B) = (x mod B) * B + (r::nat)"
  using assms by (simp add: mod_mult2_eq)

lemma add_bits_nat:
  assumes "len < 2 ^ 32"
  shows "bits_nat (add_bits b len) = (bits_nat b + 8 * len) mod 2 ^ 64"
proof -
  let ?B = "2 ^ 32 :: nat"
  let ?lo = "unat (fst b)" and ?hi = "unat (snd b)"
  let ?p = "8 * len mod ?B" and ?q = "len div 2 ^ 29"
  have lo: "?lo < ?B" using unsigned_less [of "fst b"] by simp
  have p: "unat (push_bit 3 (of_nat len :: u32)) = ?p"
  proof -
    have "unat (push_bit 3 (of_nat len :: u32)) = take_bit 32 (push_bit 3 (take_bit 32 len))"
      by (simp only: unsigned_push_bit_eq unsigned_of_nat) simp
    also have "\<dots> = ?p"
      using assms by (simp add: take_bit_eq_mod push_bit_eq_mult mult.commute)
    finally show ?thesis .
  qed
  have q: "unat (drop_bit 29 (of_nat len :: u32)) = ?q"
  proof -
    have "unat (drop_bit 29 (of_nat len :: u32)) = drop_bit 29 (take_bit 32 (take_bit 32 len))"
      by (simp only: unsigned_drop_bit_eq unsigned_of_nat) simp
    also have "\<dots> = ?q"
      using assms by (simp add: take_bit_eq_mod drop_bit_eq_div)
    finally show ?thesis .
  qed
  have split: "8 * len = ?q * ?B + ?p"
  proof -
    have "8 * len div ?B = ?q" using div_mult_mult1 [of 8 len "2 ^ 29"] by simp
    then show ?thesis by (metis div_mod_decomp)
  qed
  let ?s = "?lo + ?p"
  have lo': "unat (fst b + push_bit 3 (of_nat len)) = ?s mod ?B"
    by (simp only: unat_word_ariths p) simp
  have carry: "fst b + push_bit 3 (of_nat len) < fst b \<longleftrightarrow> ?B \<le> ?s"
  proof -
    have "?p < ?B" by simp
    have "fst b + push_bit 3 (of_nat len) < fst b \<longleftrightarrow> ?s mod ?B < ?lo"
      by (simp only: word_less_nat_alt lo')
    also have "\<dots> \<longleftrightarrow> ?B \<le> ?s"
    proof (cases "?B \<le> ?s")
      case True
      have "?s mod ?B = (?s - ?B) mod ?B" using True by (rule le_mod_geq)
      also have "\<dots> \<le> ?s - ?B" by (rule mod_less_eq_dividend)
      also have "\<dots> < ?lo" using True lo \<open>?p < ?B\<close> by linarith
      finally show ?thesis using True by simp
    qed simp
    finally show ?thesis .
  qed
  have hi': "unat (snd (add_bits b len)) = (?hi + ?s div ?B + ?q) mod ?B"
  proof (cases "?B \<le> ?s")
    case True
    have "?p < ?B" by simp
    with True lo have "?s div ?B = 1" by (simp add: div_if)
    with True carry show ?thesis
      by (simp only: add_bits_def Let_def snd_conv if_True unat_word_ariths q) (simp add: mod_simps)
  next
    case False
    with carry show ?thesis
      by (simp only: add_bits_def Let_def snd_conv if_False unat_word_ariths q) (simp add: mod_simps)
  qed
  have "bits_nat (add_bits b len) = ((?hi + ?s div ?B + ?q) mod ?B) * ?B + ?s mod ?B"
    using hi' lo' by (simp add: bits_nat_def add_bits_def Let_def)
  also have "\<dots> = ((?hi + ?s div ?B + ?q) * ?B + ?s mod ?B) mod (?B * ?B)"
    by (rule mod_two_digits [symmetric]) simp
  also have "(?hi + ?s div ?B + ?q) * ?B + ?s mod ?B = ?hi * ?B + ?q * ?B + ?s"
    using div_mod_decomp [of ?s ?B] by (simp only: add_mult_distrib)
  also have "\<dots> = bits_nat b + 8 * len"
    using split by (simp add: bits_nat_def)
  finally show ?thesis by simp
qed

text \<open>... and a multiple of \<open>2 ^ 32\<close> bytes is not counted at all.\<close>

lemma add_bits_4GiB: "add_bits b (2 ^ 32 * k) = b"
proof -
  have "(of_nat (2 ^ 32 * k) :: u32) = 0"
    by (subst word_of_nat_eq_0_iff) simp
  then show ?thesis by (simp add: add_bits_def)
qed

text \<open>The offset in the buffer the update routines compute from the low word.\<close>

lemma bits_offset: "unat (drop_bit 3 (fst bits) AND 0x3f) = bits_nat bits div 8 mod 64"
proof -
  have lo: "unat (fst bits) < 2 ^ 32" using unsigned_less [of "fst bits"] by simp
  have "unat (drop_bit 3 (fst bits) AND 63) = unat (fst bits) div 8 mod 64"
    unfolding and_masks
    using lo
    by (simp only: unsigned_take_bit_eq unsigned_drop_bit_eq) (simp add: take_bit_eq_mod drop_bit_eq_div)
  moreover have "bits_nat bits div 8 = unat (snd bits) * 2 ^ 29 + unat (fst bits) div 8"
    unfolding bits_nat_def by simp
  moreover have "(unat (snd bits) * 2 ^ 29 + x) mod 64 = x mod 64" for x :: nat
  proof -
    have "unat (snd bits) * 2 ^ 29 = 64 * (unat (snd bits) * 2 ^ 23)" by simp
    then show ?thesis by (metis mod_mult_self4)
  qed
  ultimately show ?thesis by simp
qed

lemma bits_words:
  assumes "bits_nat b = n mod 2 ^ 64"
  shows "n mod 2 ^ 32 = unat (fst b)" and "n div 2 ^ 32 mod 2 ^ 32 = unat (snd b)"
proof -
  have lo: "unat (fst b) < 2 ^ 32" using unsigned_less [of "fst b"] by simp
  then have "bits_nat b mod 2 ^ 32 = unat (fst b)" "bits_nat b div 2 ^ 32 = unat (snd b)"
    by (simp_all add: bits_nat_def)
  moreover have "n mod 2 ^ 64 mod 2 ^ 32 = n mod 2 ^ 32" by (rule mod_mod_cancel) simp
  moreover have "n mod 2 ^ 64 div 2 ^ 32 = n div 2 ^ 32 mod 2 ^ 32"
    by (simp add: mod_mult2_eq [of n "2 ^ 32" "2 ^ 32", simplified])
  ultimately show "n mod 2 ^ 32 = unat (fst b)" and "n div 2 ^ 32 mod 2 ^ 32 = unat (snd b)"
    using assms by simp_all
qed

section \<open>The contract of a streaming hash context\<close>

text \<open>A context stands for the message it has been fed.\<close>

definition streams ::
  "('c \<Rightarrow> 's) \<Rightarrow> ('c \<Rightarrow> bytes) \<Rightarrow> ('c \<Rightarrow> u32 \<times> u32) \<Rightarrow> ('s \<Rightarrow> bytes \<Rightarrow> 's) \<Rightarrow> 's \<Rightarrow> 'c \<Rightarrow> bytes \<Rightarrow> bool"
where
  "streams st buf bits f iv c m \<longleftrightarrow>
     st c = absorb f iv m \<and> length (buf c) = 64 \<and>
     take (length m mod 64) (buf c) = leftover m \<and>
     bits_nat (bits c) = 8 * length m mod 2 ^ 64"

text \<open>Feeding a list of pieces, stopping where an update is undefined.\<close>

fun hash_feed :: "('c \<Rightarrow> bytes \<Rightarrow> 'c option) \<Rightarrow> 'c \<Rightarrow> bytes list \<Rightarrow> 'c option" where
  "hash_feed upd c [] = Some c"
| "hash_feed upd c (d # ds) = (case upd c d of None \<Rightarrow> None | Some c' \<Rightarrow> hash_feed upd c' ds)"

lemma hash_feed_total: "hash_feed (\<lambda>c d. Some (u c d)) c ds = Some (fold (\<lambda>d c. u c d) ds c)"
  by (induction ds arbitrary: c) auto

lemma pad_mod:
  "k < 56 \<Longrightarrow> (119 - k) mod 64 = 55 - k" "56 \<le> k \<Longrightarrow> k < 64 \<Longrightarrow> (119 - k) mod 64 = (63 - k) + (56::nat)"
proof -
  assume "k < 56"
  then have "119 - k = 64 + (55 - k)" by linarith
  then show "(119 - k) mod 64 = 55 - k" by (simp only: mod_add_self1) simp
next
  assume "56 \<le> k" "k < 64"
  then have "119 - k = (63 - k) + 56" "(63 - k) + 56 < 64" by linarith+
  then show "(119 - k) mod 64 = (63 - k) + 56" by (simp only: mod_less)
qed

lemma pad_total: "(n + 1 + (119 - n mod 64) mod 64) mod 64 = (56::nat)"
proof -
  define k where "k = n mod 64"
  have e: "(n + 1 + (119 - n mod 64) mod 64) mod 64 = (k + (1 + (119 - k) mod 64)) mod 64"
    unfolding k_def by (simp only: mod_add_left_eq add.assoc)
  have "k < 64" by (simp add: k_def)
  show ?thesis
  proof (cases "k < 56")
    case True
    then have "k + (1 + (119 - k) mod 64) = 56" by (simp only: pad_mod(1))
    then show ?thesis unfolding e by simp
  next
    case False
    then have "k + (1 + (119 - k) mod 64) = 64 + 56"
      using \<open>k < 64\<close> by (simp only: pad_mod(2) not_less)
    then show ?thesis unfolding e by simp
  qed
qed

lemma bits_in_block: "(8 * n mod 2 ^ 64) div 8 mod 64 = (n::nat) mod 64"
proof -
  have "8 * n mod 2 ^ 64 = 8 * (n mod 2 ^ 61)"
    using mult_mod_right [of 8 n "2 ^ 61"] by simp
  then have "(8 * n mod 2 ^ 64) div 8 = n mod 2 ^ 61" by simp
  moreover have "n mod 2 ^ 61 mod 64 = n mod 64" by (rule mod_mod_cancel) simp
  ultimately show ?thesis by simp
qed

locale hash_stream =
  fixes st :: "'c \<Rightarrow> 's" and buf :: "'c \<Rightarrow> bytes" and bits :: "'c \<Rightarrow> u32 \<times> u32"
    and f :: "'s \<Rightarrow> bytes \<Rightarrow> 's" and update :: "'c \<Rightarrow> bytes \<Rightarrow> 'c option" and limit :: nat
  assumes update_spec:
    "length (buf c) = 64 \<Longrightarrow> k = bits_nat (bits c) div 8 mod 64 \<Longrightarrow> length d < limit \<Longrightarrow>
     \<exists>c'. update c d = Some c' \<and> st c' = absorb f (st c) (take k (buf c) @ d) \<and>
       length (buf c') = 64 \<and>
       take ((k + length d) mod 64) (buf c') = leftover (take k (buf c) @ d) \<and>
       bits_nat (bits c') = (bits_nat (bits c) + 8 * length d) mod 2 ^ 64"
begin

lemma streams_update:
  assumes "streams st buf bits f iv c m" and "length d < limit"
  shows "\<exists>c'. update c d = Some c' \<and> streams st buf bits f iv c' (m @ d)"
proof -
  from assms(1) have k: "length m mod 64 = bits_nat (bits c) div 8 mod 64"
    and b: "length (buf c) = 64" and t: "take (length m mod 64) (buf c) = leftover m"
    by (simp_all only: streams_def bits_in_block)
  from update_spec [OF b k assms(2)] obtain c' where u: "update c d = Some c'"
    and s: "st c' = absorb f (st c) (leftover m @ d)" and l: "length (buf c') = 64"
    and r: "take ((length m mod 64 + length d) mod 64) (buf c') = leftover (leftover m @ d)"
    and n: "bits_nat (bits c') = (bits_nat (bits c) + 8 * length d) mod 2 ^ 64"
    unfolding t by blast
  have "st c' = absorb f iv (m @ d)"
    using s assms(1) by (simp only: absorb_append [of f iv m d] streams_def)
  moreover have "take (length (m @ d) mod 64) (buf c') = leftover (m @ d)"
    using r by (simp only: leftover_append [of m d] length_append mod_add_left_eq)
  moreover have "bits_nat (bits c') = 8 * length (m @ d) mod 2 ^ 64"
    using n assms(1) by (simp only: streams_def length_append mod_add_left_eq distrib_left)
  ultimately show ?thesis using u l by (simp add: streams_def)
qed

lemma streams_feed:
  "streams st buf bits f iv c m \<Longrightarrow> \<forall>d \<in> set ds. length d < limit \<Longrightarrow>
     \<exists>c'. hash_feed update c ds = Some c' \<and> streams st buf bits f iv c' (m @ concat ds)"
proof (induction ds arbitrary: c m)
  case (Cons d ds)
  from Cons.prems(2) have "length d < limit" by simp
  from streams_update [OF Cons.prems(1) this] obtain c1 where "update c d = Some c1"
    and "streams st buf bits f iv c1 (m @ d)" by blast
  with Cons.IH [of c1 "m @ d"] Cons.prems(2) show ?case by simp
qed simp

end

end
