(* ===== verification/Str.thy ===== *)
theory Str
  imports Prelude "HOL-Library.List_Lexorder"
begin

text \<open>
  \<open>common/mg_str.c\<close> and \<open>common/str_util.c\<close>: counted strings and their comparisons, the
  built-in \<open>snprintf\<close>, hexadecimal and decimal conversions, and substring search.

  A counted string \<open>struct mg_str\<close> is a pointer into a memory object and a length: the
  record keeps the object, so that a read past the length but inside the object is seen
  for what it is.  A \<open>const char *\<close> is the list of the bytes before its NUL, or, where
  the code may run past it, the memory from the pointer on.
\<close>

section \<open>C integers and characters\<close>

text \<open>Conversion to \<open>int\<close>; plain \<open>char\<close> is signed, as on the default platforms.\<close>

definition c_int :: "int \<Rightarrow> int" where
  "c_int = signed_take_bit 31"

definition schar :: "u8 \<Rightarrow> int" where
  "schar c = sint c"

definition is_digit :: "u8 \<Rightarrow> bool" where
  "is_digit c \<longleftrightarrow> ch (CHR ''0'') \<le> c \<and> c \<le> ch (CHR ''9'')"

definition is_space :: "u8 \<Rightarrow> bool" where
  "is_space c \<longleftrightarrow> c = 0x20 \<or> 9 \<le> c \<and> c \<le> 13"

definition tolower :: "u8 \<Rightarrow> u8" where
  "tolower c = (if ch (CHR ''A'') \<le> c \<and> c \<le> ch (CHR ''Z'') then c + 32 else c)"

section \<open>Counted strings\<close>

record mg_str =
  ms_mem :: bytes
  ms_p :: nat
  ms_len :: nat

definition ms_bytes :: "mg_str \<Rightarrow> bytes" where
  "ms_bytes s = bslice (ms_mem s) (ms_p s) (ms_len s)"

definition ms_at :: "mg_str \<Rightarrow> nat \<Rightarrow> u8 option" where
  "ms_at s i = rd (ms_mem s) (ms_p s + i)"

definition ms_valid :: "mg_str \<Rightarrow> bool" where
  "ms_valid s \<longleftrightarrow> ms_p s + ms_len s \<le> length (ms_mem s)"

definition mg_mk_str :: "bytes \<Rightarrow> mg_str" where
  "mg_mk_str s = \<lparr>ms_mem = s @ [0], ms_p = 0, ms_len = length s\<rparr>"

definition mg_mk_str_n :: "bytes \<Rightarrow> nat \<Rightarrow> mg_str" where
  "mg_mk_str_n mem len = \<lparr>ms_mem = mem, ms_p = 0, ms_len = len\<rparr>"

text \<open>\<open>memcmp\<close> on two memory areas: the sign of the first difference, as unsigned bytes.\<close>

fun c_memcmp :: "bytes \<Rightarrow> bytes \<Rightarrow> nat \<Rightarrow> int option" where
  "c_memcmp m1 m2 0 = Some 0"
| "c_memcmp (a # r1) (b # r2) (Suc n) = (if a = b then c_memcmp r1 r2 n else Some (uint a - uint b))"
| "c_memcmp _ _ (Suc n) = None"

definition mg_vcmp :: "mg_str \<Rightarrow> bytes \<Rightarrow> int option" where
  "mg_vcmp str1 str2 =
     (let n2 = length str2; n1 = ms_len str1 in do {
        r \<leftarrow> c_memcmp (drop (ms_p str1) (ms_mem str1)) (str2 @ [0]) (if n1 < n2 then n1 else n2);
        Some (if r = 0 then c_int (int n1 - int n2) else r) })"

text \<open>The loop of \<open>mg_ncasecmp\<close>: it stops after \<open>len\<close> bytes, at a difference or at a NUL.\<close>

fun mg_ncasecmp :: "bytes \<Rightarrow> bytes \<Rightarrow> nat \<Rightarrow> int option" where
  "mg_ncasecmp (a # r1) (b # r2) len =
     (if len = 0 then Some 0
      else let diff = uint (tolower a) - uint (tolower b) in
           if diff = 0 \<and> a \<noteq> 0 \<and> 0 < len - 1 then mg_ncasecmp r1 r2 (len - 1) else Some diff)"
| "mg_ncasecmp _ _ len = (if len = 0 then Some 0 else None)"

definition mg_casecmp :: "bytes \<Rightarrow> bytes \<Rightarrow> int option" where
  "mg_casecmp s1 s2 = mg_ncasecmp s1 s2 (2 ^ 64 - 1)"

definition mg_vcasecmp :: "mg_str \<Rightarrow> bytes \<Rightarrow> int option" where
  "mg_vcasecmp str1 str2 =
     (let n2 = length str2; n1 = ms_len str1 in do {
        r \<leftarrow> mg_ncasecmp (drop (ms_p str1) (ms_mem str1)) (str2 @ [0]) (if n1 < n2 then n1 else n2);
        Some (if r = 0 then c_int (int n1 - int n2) else r) })"

text \<open>\<open>mg_strdup\<close>: \<open>alloc\<close> tells whether \<open>malloc\<close> of that many bytes succeeds; NULL is \<open>None\<close>.\<close>

definition mg_strdup :: "(nat \<Rightarrow> bool) \<Rightarrow> mg_str \<Rightarrow> mg_str option" where
  "mg_strdup alloc s =
     (if 0 < ms_len s \<and> alloc (ms_len s)
      then Some \<lparr>ms_mem = ms_bytes s, ms_p = 0, ms_len = ms_len s\<rparr> else None)"

function mg_strcmp_loop :: "mg_str \<Rightarrow> mg_str \<Rightarrow> nat \<Rightarrow> int option" where
  "mg_strcmp_loop str1 str2 i =
     (if i < ms_len str1 \<and> i < ms_len str2 then do {
        a \<leftarrow> ms_at str1 i;
        b \<leftarrow> ms_at str2 i;
        if schar a < schar b then Some (-1)
        else if schar a > schar b then Some 1
        else mg_strcmp_loop str1 str2 (i + 1) }
      else if i < ms_len str1 then Some 1
      else if i < ms_len str2 then Some (-1)
      else Some 0)"
  by pat_completeness auto
termination by (relation "measure (\<lambda>(a, b, i). ms_len a - i)") auto

declare mg_strcmp_loop.simps [simp del]

definition mg_strcmp :: "mg_str \<Rightarrow> mg_str \<Rightarrow> int option" where
  "mg_strcmp str1 str2 = mg_strcmp_loop str1 str2 0"

definition mg_strncmp :: "mg_str \<Rightarrow> mg_str \<Rightarrow> nat \<Rightarrow> int option" where
  "mg_strncmp str1 str2 n =
     mg_strcmp (if ms_len str1 > n then str1\<lparr>ms_len := n\<rparr> else str1)
               (if ms_len str2 > n then str2\<lparr>ms_len := n\<rparr> else str2)"

section \<open>Searching\<close>

text \<open>\<open>c_strnlen\<close> on the memory from \<open>s\<close> on.\<close>

fun c_strnlen :: "bytes \<Rightarrow> nat \<Rightarrow> nat option" where
  "c_strnlen s 0 = Some 0"
| "c_strnlen [] (Suc n) = None"
| "c_strnlen (c # s) (Suc n) = (if c \<noteq> 0 then map_option Suc (c_strnlen s n) else Some 0)"

text \<open>\<open>strncmp (&s[i], find, n) == 0\<close>, \<open>find\<close> being \<open>n\<close> bytes before its NUL: a NUL in \<open>s\<close>
  or a difference ends it.\<close>

fun c_strn_eq :: "bytes \<Rightarrow> bytes \<Rightarrow> bool option" where
  "c_strn_eq s [] = Some True"
| "c_strn_eq [] (f # fs) = None"
| "c_strn_eq (c # s) (f # fs) = (if c = f then c_strn_eq s fs else Some False)"

function c_strnstr_loop :: "bytes \<Rightarrow> bytes \<Rightarrow> nat \<Rightarrow> nat \<Rightarrow> nat option option" where
  "c_strnstr_loop s pat slen i =
     (if i < slen then
        if i + length pat > slen then Some None
        else do {
          eq \<leftarrow> c_strn_eq (drop i s) pat;
          if eq then Some (Some i) else c_strnstr_loop s pat slen (i + 1) }
      else Some None)"
  by pat_completeness auto
termination by (relation "measure (\<lambda>(s, f, n, i). n - i)") auto

declare c_strnstr_loop.simps [simp del]

text \<open>The index of the first occurrence, \<open>Some None\<close> for NULL.\<close>

definition c_strnstr :: "bytes \<Rightarrow> bytes \<Rightarrow> nat \<Rightarrow> nat option option" where
  "c_strnstr s pat slen = c_strnstr_loop s pat slen 0"

section \<open>Hexadecimal and decimal\<close>

definition hex_digits :: bytes where
  "hex_digits = str ''0123456789abcdef''"

text \<open>What \<open>cs_to_hex\<close> writes, the NUL included.\<close>

fun cs_to_hex :: "bytes \<Rightarrow> bytes" where
  "cs_to_hex [] = [0]"
| "cs_to_hex (p # ps) =
     hex_digits ! unat (drop_bit 4 p) # hex_digits ! unat (p AND 0x0f) # cs_to_hex ps"

definition fourbit :: "int \<Rightarrow> int" where
  "fourbit c =
     (if 48 \<le> c \<and> c \<le> 57 then c - 48
      else if 97 \<le> c \<and> c \<le> 102 then c - 97 + 10
      else if 65 \<le> c \<and> c \<le> 70 then c - 65 + 10
      else 0)"

text \<open>\<open>cs_from_hex\<close> on the memory from \<open>p\<close> on and a length; an odd length reads one more byte.\<close>

fun cs_from_hex :: "bytes \<Rightarrow> nat \<Rightarrow> bytes option" where
  "cs_from_hex p len =
     (if len = 0 then Some [0]
      else case p of
        a # b # r \<Rightarrow> map_option ((#) (of_int (fourbit (schar a) * 16 + fourbit (schar b))))
                       (cs_from_hex r (len - 2))
      | _ \<Rightarrow> None)"

declare cs_from_hex.simps [simp del]

text \<open>\<open>cs_to64\<close>: the digit loop in \<open>int64_t\<close>, \<open>None\<close> where it overflows.\<close>

definition int64_ok :: "int \<Rightarrow> bool" where
  "int64_ok n \<longleftrightarrow> - (2 ^ 63) \<le> n \<and> n < 2 ^ 63"

fun to64_digits :: "bytes \<Rightarrow> int \<Rightarrow> int option" where
  "to64_digits (c # s) result =
     (if is_digit c then
        if int64_ok (result * 10) \<and> int64_ok (result * 10 + (schar c - 48))
        then to64_digits s (result * 10 + (schar c - 48)) else None
      else Some result)"
| "to64_digits [] result = None"

definition cs_to64 :: "bytes \<Rightarrow> int option" where
  "cs_to64 s =
     (case dropWhile (\<lambda>c. c \<noteq> 0 \<and> is_space c) s of
        [] \<Rightarrow> None
      | c # r \<Rightarrow> if c = ch (CHR ''-'') then map_option (\<lambda>n. n * (-1)) (to64_digits r 0)
                 else to64_digits (c # r) 0)"

section \<open>The built-in snprintf\<close>

text \<open>
  \<open>C_SNPRINTF_APPEND_CHAR\<close> on a buffer that starts at \<open>base\<close>: a byte is stored while
  \<open>i < (int) buf_size\<close>, and \<open>i\<close> counts on regardless.  \<open>None\<close> is a store outside the memory.
\<close>

type_synonym out_state = "bytes \<times> nat"

fun snprintf_append :: "nat \<Rightarrow> int \<Rightarrow> u8 \<Rightarrow> out_state \<Rightarrow> out_state option" where
  "snprintf_append base bsz c (buf, i) =
     (if int i < c_int bsz then
        if base + i < length buf then Some (buf[base + i := c], i + 1) else None
      else Some (buf, i + 1))"

fun snprintf_append_all :: "nat \<Rightarrow> int \<Rightarrow> bytes \<Rightarrow> out_state \<Rightarrow> out_state option" where
  "snprintf_append_all base bsz [] st = Some st"
| "snprintf_append_all base bsz (c # cs) st =
     Option.bind (snprintf_append base bsz c st) (snprintf_append_all base bsz cs)"

text \<open>The digits in reverse order; \<open>base\<close> is 10 or 16.\<close>

definition itoa_digit :: "nat \<Rightarrow> u8" where
  "itoa_digit rem = (if rem < 10 then 48 + of_nat rem else 97 + (of_nat rem - 10))"

function itoa_digits :: "nat \<Rightarrow> nat \<Rightarrow> bytes" where
  "itoa_digits num base =
     itoa_digit (num mod base) #
       (if 1 < base \<and> 0 < num div base then itoa_digits (num div base) base else [])"
  by pat_completeness auto
termination by (relation "measure fst") (auto intro!: div_less_dividend gr0I)

declare itoa_digits.simps [simp del]

text \<open>The contents of \<open>tmp\<close> when it is about to be output, last byte first; \<open>-num\<close> overflows for
  the smallest \<open>int64_t\<close>.\<close>

definition itoa_tmp :: "int \<Rightarrow> nat \<Rightarrow> bool \<Rightarrow> int \<Rightarrow> bytes option" where
  "itoa_tmp num base flags field_width =
     (if num = - (2 ^ 63) then None
      else let tmp = itoa_digits (nat \<bar>num\<bar>) base;
               tmp1 = (if flags then tmp @ replicate (nat (min field_width 39) - length tmp) (ch (CHR ''0''))
                       else tmp);
               tmp2 = (if num < 0 then tmp1 @ [ch (CHR ''-'')] else tmp1)
           in if length tmp2 \<le> 40 then Some tmp2 else None)"

text \<open>\<open>c_itoa (buf + off, size, ...)\<close>: the new memory and the count it returns.\<close>

definition c_itoa :: "bytes \<Rightarrow> nat \<Rightarrow> int \<Rightarrow> int \<Rightarrow> nat \<Rightarrow> bool \<Rightarrow> int \<Rightarrow> out_state option" where
  "c_itoa buf off bsz num base flags field_width = do {
     tmp \<leftarrow> itoa_tmp num base flags field_width;
     snprintf_append_all off bsz (rev tmp) (buf, 0) }"

text \<open>
  Variable arguments: an integer by its value, a string by the memory its pointer gives
  (\<open>None\<close> for NULL), a pointer by its address.
\<close>

datatype c_arg = ArgInt int | ArgStr "bytes option" | ArgPtr nat

record fmt_spec =
  fs_zero :: bool
  fs_width :: int
  fs_prec :: int
  fs_mod :: u8

text \<open>The digits of a width or precision; \<open>None\<close> is an overflow of the \<open>int\<close> they are read into.\<close>

fun fmt_digits :: "int \<Rightarrow> bytes \<Rightarrow> (int \<times> bytes) option" where
  "fmt_digits acc (c # r) =
     (if is_digit c then
        if acc * 10 + (schar c - 48) \<le> int INT_MAX then fmt_digits (acc * 10 + (schar c - 48)) r else None
      else Some (acc, c # r))"
| "fmt_digits acc [] = Some (acc, [])"

definition fmt_head :: "bytes \<Rightarrow> u8" where
  "fmt_head fmt = (case fmt of [] \<Rightarrow> 0 | c # r \<Rightarrow> c)"

text \<open>A \<open>*\<close> takes the next argument.\<close>

definition fmt_star :: "int \<Rightarrow> bytes \<Rightarrow> c_arg list \<Rightarrow> (int \<times> bytes \<times> c_arg list) option" where
  "fmt_star dflt fmt args =
     (if fmt_head fmt = ch (CHR ''*'') then
        (case args of ArgInt v # as \<Rightarrow> Some (c_int v, tl fmt, as) | _ \<Rightarrow> None)
      else Some (dflt, fmt, args))"

definition fmt_precision :: "bytes \<Rightarrow> c_arg list \<Rightarrow> (int \<times> bytes \<times> c_arg list) option" where
  "fmt_precision fmt args =
     (if fmt_head fmt = ch (CHR ''.'') then
        let fmt1 = tl fmt in
        if fmt_head fmt1 = ch (CHR ''*'') then fmt_star 0 fmt1 args
        else map_option (\<lambda>(p, fmt2). (p, fmt2, args)) (fmt_digits 0 fmt1)
      else Some (0, fmt, args))"

definition fmt_len_mod :: "bytes \<Rightarrow> u8 \<times> bytes" where
  "fmt_len_mod fmt =
     (if fmt_head fmt \<in> set (str ''hlLIqjzt'') then
        let m0 = fmt_head fmt; f0 = tl fmt;
            (m1, f1) = (if fmt_head f0 = ch (CHR ''h'') then (ch (CHR ''H''), tl f0) else (m0, f0))
        in if fmt_head f1 = ch (CHR ''l'') then (ch (CHR ''q''), tl f1) else (m1, f1)
      else (0, fmt))"

text \<open>Everything between \<open>%\<close> and the conversion character.\<close>

definition fmt_parse :: "bytes \<Rightarrow> c_arg list \<Rightarrow> (fmt_spec \<times> bytes \<times> c_arg list) option" where
  "fmt_parse fmt args =
     (let zero = fmt_head fmt = ch (CHR ''0'') in do {
        (w0, f0) \<leftarrow> fmt_digits 0 fmt;
        (w, f1, a1) \<leftarrow> fmt_star w0 f0 args;
        (p, f2, a2) \<leftarrow> fmt_precision f1 a1;
        let (m, f3) = fmt_len_mod f2;
        Some (\<lparr>fs_zero = zero, fs_width = w, fs_prec = p, fs_mod = m\<rparr>, f3, a2) })"

text \<open>The bytes a string argument gives: up to a positive precision or its NUL.\<close>

fun fmt_str :: "bytes \<Rightarrow> int \<Rightarrow> nat \<Rightarrow> bytes option" where
  "fmt_str s precision j =
     (if precision \<le> 0 \<or> int j < precision then
        (case s of [] \<Rightarrow> None
         | c # r \<Rightarrow> if c \<noteq> 0 then map_option ((#) c) (fmt_str r precision (j + 1)) else Some [])
      else Some [])"

declare fmt_str.simps [simp del]

definition fmt_string_arg :: "fmt_spec \<Rightarrow> bytes option \<Rightarrow> bytes option" where
  "fmt_string_arg sp s = do {
     n \<leftarrow> (if fs_prec sp \<ge> 0 then
              (case s of None \<Rightarrow> (if fs_prec sp = 0 then Some 0 else None)
               | Some m \<Rightarrow> c_strnlen m (nat (fs_prec sp)))
            else Some 0);
     let pad = nat (c_int (fs_width sp - int n));
     body \<leftarrow> (case s of None \<Rightarrow> Some [] | Some m \<Rightarrow> fmt_str m (fs_prec sp) 0);
     Some (replicate pad (ch (CHR '' '')) @ body) }"

text \<open>The integer a \<open>d\<close>, \<open>u\<close> or \<open>x\<close> conversion hands to \<open>c_itoa\<close>, and the base.\<close>

definition fmt_int_arg :: "u8 \<Rightarrow> u8 \<Rightarrow> int \<Rightarrow> (int \<times> nat) option" where
  "fmt_int_arg c m v =
     (let unsigned_conv = (c = ch (CHR ''x'') \<or> c = ch (CHR ''u''));
          base = (if c = ch (CHR ''x'') then 16 else 10) in
      if c = ch (CHR ''d'') \<and> m = 0 then Some (c_int v, 10)
      else if c = ch (CHR ''d'') \<and> (m = ch (CHR ''l'') \<or> m = ch (CHR ''z'') \<or> m = ch (CHR ''q''))
        then Some (signed_take_bit 63 v, 10)
      else if unsigned_conv \<and> m = 0 then Some (take_bit 32 v, base)
      else if unsigned_conv \<and> (m = ch (CHR ''l'') \<or> m = ch (CHR ''z''))
        then Some (signed_take_bit 63 v, base)
      else None)"

text \<open>
  One conversion on the output state, with the arguments left; \<open>None\<close> where the code aborts
  on a conversion it does not know or the arguments do not fit it.
\<close>

definition fmt_convert ::
  "nat \<Rightarrow> fmt_spec \<Rightarrow> u8 \<Rightarrow> c_arg list \<Rightarrow> out_state \<Rightarrow> (c_arg list \<times> out_state) option"
where
  "fmt_convert buf_size sp c args st =
     (case args of
        [] \<Rightarrow> None
      | a # as \<Rightarrow>
          map_option (Pair as)
           (case a of
              ArgStr s \<Rightarrow>
                if c = ch (CHR ''s'') then
                  Option.bind (fmt_string_arg sp s) (\<lambda>out. snprintf_append_all 0 (int buf_size) out st)
                else None
            | ArgInt v \<Rightarrow>
                if c = ch (CHR ''c'') then snprintf_append 0 (int buf_size) (of_int v) st
                else (case fmt_int_arg c (fs_mod sp) v of None \<Rightarrow> None
                  | Some (num, base) \<Rightarrow>
                      map_option (\<lambda>(buf, k). (buf, snd st + k))
                        (c_itoa (fst st) (snd st) (int buf_size - int (snd st)) num base (fs_zero sp) (fs_width sp)))
            | ArgPtr p \<Rightarrow>
                if c = ch (CHR ''p'') then do {
                  st1 \<leftarrow> snprintf_append_all 0 (int buf_size) (str ''0x'') st;
                  (buf, k) \<leftarrow> c_itoa (fst st1) (snd st1) (int buf_size - int (snd st1))
                                (signed_take_bit 63 (int p)) 16 (fs_zero sp) 0;
                  Some (buf, snd st1 + k) }
                else None))"

text \<open>The format string is consumed from the left; \<open>fmt_parse\<close> never lengthens it.\<close>

lemma fmt_digits_length: "fmt_digits acc fmt = Some (n, f) \<Longrightarrow> length f \<le> length fmt"
  by (induction acc fmt rule: fmt_digits.induct) (auto split: if_splits)

lemma fmt_star_length: "fmt_star d fmt args = Some (v, f, a) \<Longrightarrow> length f \<le> length fmt"
  by (auto simp: fmt_star_def split: if_splits list.splits c_arg.splits)

lemma fmt_precision_length: "fmt_precision fmt args = Some (v, f, a) \<Longrightarrow> length f \<le> length fmt"
  by (auto simp: fmt_precision_def Let_def split: if_splits dest!: fmt_star_length fmt_digits_length)

lemma fmt_len_mod_length: "length (snd (fmt_len_mod fmt)) \<le> length fmt"
  by (auto simp: fmt_len_mod_def Let_def split: prod.splits if_splits)

lemma fmt_parse_length:
  assumes "fmt_parse fmt args = Some (sp, f, a)"
  shows "length f \<le> length fmt"
proof -
  from assms obtain w0 f0 w f1 a1 p f2 where d: "fmt_digits 0 fmt = Some (w0, f0)" and s: "fmt_star w0 f0 args = Some (w, f1, a1)"
    and p: "fmt_precision f1 a1 = Some (p, f2, a)" and f: "f = snd (fmt_len_mod f2)"
    by (auto simp: fmt_parse_def Let_def split: prod.splits Option.bind_splits)
  have "length f0 \<le> length fmt" using d by (rule fmt_digits_length)
  moreover have "length f1 \<le> length f0" using s by (rule fmt_star_length)
  moreover have "length f2 \<le> length f1" using p by (rule fmt_precision_length)
  moreover have "length f \<le> length f2" using fmt_len_mod_length f by simp
  ultimately show ?thesis by simp
qed

function vsnprintf_loop :: "nat \<Rightarrow> bytes \<Rightarrow> c_arg list \<Rightarrow> out_state \<Rightarrow> out_state option" where
  "vsnprintf_loop buf_size [] args st = Some st"
| "vsnprintf_loop buf_size (c # fmt) args st =
     (if c \<noteq> ch (CHR ''%'') then
        Option.bind (snprintf_append 0 (int buf_size) c st) (vsnprintf_loop buf_size fmt args)
      else (case fmt_parse fmt args of
              Some (sp, conv # rest, args1) \<Rightarrow>
                (case fmt_convert buf_size sp conv args1 st of
                   Some (args2, st2) \<Rightarrow> vsnprintf_loop buf_size rest args2 st2
                 | None \<Rightarrow> None)
            | _ \<Rightarrow> None))"
  by pat_completeness auto
termination
  by (relation "measure (\<lambda>(n, f, a, s). length f)") (auto dest!: fmt_parse_length)

text \<open>\<open>c_vsnprintf\<close>: the buffer and the number of bytes the full output has.\<close>

definition c_vsnprintf :: "bytes \<Rightarrow> nat \<Rightarrow> bytes \<Rightarrow> c_arg list \<Rightarrow> out_state option" where
  "c_vsnprintf buf buf_size fmt args = do {
     (buf1, i) \<leftarrow> vsnprintf_loop buf_size fmt args (buf, 0);
     if buf_size > 0 then
       let k = (if int i < c_int (int buf_size) then int i else c_int (int buf_size) - 1) in
       if 0 \<le> k \<and> nat k < length buf1 then Some (buf1[nat k := 0], i) else None
     else Some (buf1, i) }"

definition c_snprintf :: "bytes \<Rightarrow> nat \<Rightarrow> bytes \<Rightarrow> c_arg list \<Rightarrow> out_state option" where
  "c_snprintf = c_vsnprintf"

section \<open>Hexadecimal\<close>

lemma fourbit_digit: "n < 16 \<Longrightarrow> fourbit (schar (hex_digits ! n)) = int n"
proof -
  have "list_all (\<lambda>n. fourbit (schar (hex_digits ! n)) = int n) [0..<16]"
    by (simp add: upt_rec hex_digits_def ch_def fourbit_def schar_def)
  then show "n < 16 \<Longrightarrow> ?thesis" by (simp add: list_all_iff)
qed

lemma nibbles: "drop_bit 4 p * 16 + (p AND 0x0f) = (p :: u8)"
  using bits_ident [of 4 p] by (simp only: and_masks push_bit_eq_mult) simp

lemma nibbles_less: "unat (drop_bit 4 p) < 16" "unat (p AND 0x0f) < 16" for p :: u8
proof -
  have "drop_bit 4 p = take_bit 4 (drop_bit 4 p)"
    by (rule u8_eqI) (simp_all add: bit_simps u8_high_bit)
  from u8_take_less [OF this] show "unat (drop_bit 4 p) < 16" by simp
  have "p AND 0x0f = take_bit 4 (p AND 0x0f)"
    by (rule u8_eqI) (simp_all add: bit_simps and_masks)
  from u8_take_less [OF this] show "unat (p AND 0x0f) < 16" by simp
qed

lemma hex_roundtrip: "cs_from_hex (cs_to_hex d @ r) (2 * length d) = Some (d @ [0])"
proof (induction d)
  case Nil
  show ?case by (simp add: cs_from_hex.simps)
next
  case (Cons p ps)
  then show ?case
    using nibbles_less [of p] by (simp add: cs_from_hex.simps [of "_ # _"] fourbit_digit nibbles)
qed

section \<open>Decimal\<close>

lemma itoa_digit_10: "r < 10 \<Longrightarrow> is_digit (itoa_digit r) \<and> schar (itoa_digit r) = 48 + int r"
proof -
  have "list_all (\<lambda>r. is_digit (itoa_digit r) \<and> schar (itoa_digit r) = 48 + int r) [0..<10]"
    by (simp add: upt_rec itoa_digit_def is_digit_def ch_def schar_def)
  then show "r < 10 \<Longrightarrow> ?thesis" by (simp add: list_all_iff)
qed

fun digits_value :: "int \<Rightarrow> bytes \<Rightarrow> int" where
  "digits_value acc [] = acc"
| "digits_value acc (c # cs) = digits_value (acc * 10 + (schar c - 48)) cs"

lemma digits_value_append: "digits_value acc (xs @ ys) = digits_value (digits_value acc xs) ys"
  by (induction xs arbitrary: acc) auto

lemma itoa_digits_value: "digits_value 0 (rev (itoa_digits num 10)) = int num"
proof (induction num "10::nat" rule: itoa_digits.induct)
  case (1 num)
  have d: "schar (itoa_digit (num mod 10)) = 48 + int (num mod 10)" by (simp add: itoa_digit_10)
  show ?case
  proof (cases "0 < num div 10")
    case True
    with 1 have "digits_value 0 (rev (itoa_digits (num div 10) 10)) = int (num div 10)" by simp
    with True d show ?thesis
      by (subst itoa_digits.simps) (simp add: digits_value_append zmod_int zdiv_int)
  next
    case False
    with d show ?thesis by (subst itoa_digits.simps) simp
  qed
qed

lemma itoa_digits_set: "\<forall>c \<in> set (itoa_digits num 10). is_digit c"
proof (induction num "10::nat" rule: itoa_digits.induct)
  case (1 num)
  then show ?case by (subst itoa_digits.simps) (simp add: itoa_digit_10)
qed

lemma digit_value: "is_digit c \<Longrightarrow> 0 \<le> schar c - 48 \<and> schar c - 48 \<le> 9"
proof -
  assume "is_digit c"
  then have "48 \<le> c" "c \<le> 57" by (simp_all add: is_digit_def ch_def)
  then have "uint (48 :: u8) \<le> uint c" "uint c \<le> uint (57 :: u8)" by (simp_all only: word_le_def)
  then have "48 \<le> uint c" "uint c \<le> 57" by simp_all
  then have "schar c = uint c"
  proof -
    have "schar c = signed_take_bit (LENGTH(8) - Suc 0) (uint c)" unfolding schar_def by (rule sint_uint)
    also have "\<dots> = uint c" using \<open>48 \<le> uint c\<close> \<open>uint c \<le> 57\<close> by (intro signed_take_bit_int_eq_self) simp_all
    finally show ?thesis .
  qed
  with \<open>48 \<le> uint c\<close> \<open>uint c \<le> 57\<close> show ?thesis by simp
qed

lemma digits_value_mono: "\<forall>c \<in> set ds. is_digit c \<Longrightarrow> 0 \<le> acc \<Longrightarrow> acc \<le> digits_value acc ds"
proof (induction ds arbitrary: acc)
  case (Cons c ds)
  from Cons.prems have "0 \<le> schar c - 48" using digit_value by simp
  with Cons.prems have "0 \<le> acc * 10 + (schar c - 48)" "acc \<le> acc * 10 + (schar c - 48)" by linarith+
  moreover from this Cons have "acc * 10 + (schar c - 48) \<le> digits_value (acc * 10 + (schar c - 48)) ds" by simp
  ultimately show ?case by simp
qed simp

lemma to64_digits_value:
  assumes "\<forall>c \<in> set ds. is_digit c" and "\<not> is_digit t" and "0 \<le> acc" and "digits_value acc ds < 2 ^ 63"
  shows "to64_digits (ds @ t # r) acc = Some (digits_value acc ds)"
  using assms
proof (induction ds arbitrary: acc)
  case (Cons c ds)
  have d: "0 \<le> schar c - 48" using Cons.prems(1) digit_value by simp
  let ?acc = "acc * 10 + (schar c - 48)"
  have pos: "0 \<le> ?acc" using d Cons.prems(3) by linarith
  have "?acc \<le> digits_value ?acc ds" using Cons.prems(1) pos by (intro digits_value_mono) simp_all
  with Cons.prems(4) have "?acc < 2 ^ 63" by (simp only: digits_value.simps)
  then have "int64_ok ?acc" "int64_ok (acc * 10)"
    using pos d Cons.prems(3) unfolding int64_ok_def by linarith+
  with Cons pos show ?case by simp
qed simp

lemma to64_itoa:
  assumes "- (2 ^ 63) < v" and "v < 2 ^ 63" and "\<not> is_digit t"
  shows "cs_to64 (rev (if v < 0 then itoa_digits (nat \<bar>v\<bar>) 10 @ [ch (CHR ''-'')] else itoa_digits (nat \<bar>v\<bar>) 10) @ t # r)
    = Some v"
proof -
  let ?ds = "rev (itoa_digits (nat \<bar>v\<bar>) 10)"
  have dig: "\<forall>c \<in> set ?ds. is_digit c" using itoa_digits_set by simp
  have val: "digits_value 0 ?ds = \<bar>v\<bar>" using itoa_digits_value [of "nat \<bar>v\<bar>"] by simp
  have parse: "to64_digits (?ds @ t # r) 0 = Some \<bar>v\<bar>"
    using to64_digits_value [OF dig assms(3), of 0] assms(1,2) by (simp only: val)
  obtain c cs where ds: "?ds = c # cs" by (cases ?ds) (simp_all add: itoa_digits.simps [of "nat \<bar>v\<bar>"])
  have "is_digit c" using dig ds by simp
  then have c: "48 \<le> c" "c \<le> 57" by (simp_all add: is_digit_def ch_def)
  then have "\<not> is_space c" "c \<noteq> ch (CHR ''-'')"
    by (auto simp: is_space_def ch_def word_le_nat_alt)
  show ?thesis
  proof (cases "v < 0")
    case True
    have sp: "\<not> is_space (ch (CHR ''-''))" by (simp add: is_space_def ch_def)
    from True parse sp show ?thesis by (simp add: cs_to64_def)
  next
    case False
    with parse ds \<open>\<not> is_space c\<close> \<open>c \<noteq> ch (CHR ''-'')\<close> show ?thesis by (simp add: cs_to64_def)
  qed
qed

section \<open>What snprintf leaves in the buffer\<close>

text \<open>The output of one conversion, and of a whole format, without a buffer.\<close>

definition conv_out :: "fmt_spec \<Rightarrow> u8 \<Rightarrow> c_arg \<Rightarrow> bytes option" where
  "conv_out sp c a =
     (case a of
        ArgStr s \<Rightarrow> if c = ch (CHR ''s'') then fmt_string_arg sp s else None
      | ArgInt v \<Rightarrow>
          if c = ch (CHR ''c'') then Some [of_int v]
          else (case fmt_int_arg c (fs_mod sp) v of None \<Rightarrow> None
            | Some (num, base) \<Rightarrow> map_option rev (itoa_tmp num base (fs_zero sp) (fs_width sp)))
      | ArgPtr p \<Rightarrow>
          if c = ch (CHR ''p'')
          then map_option (\<lambda>t. str ''0x'' @ rev t) (itoa_tmp (signed_take_bit 63 (int p)) 16 (fs_zero sp) 0)
          else None)"

function fmt_render :: "bytes \<Rightarrow> c_arg list \<Rightarrow> bytes option" where
  "fmt_render [] args = Some []"
| "fmt_render (c # fmt) args =
     (if c \<noteq> ch (CHR ''%'') then map_option ((#) c) (fmt_render fmt args)
      else (case fmt_parse fmt args of
              Some (sp, conv # rest, a # args2) \<Rightarrow>
                (case conv_out sp conv a of
                   Some out \<Rightarrow> map_option ((@) out) (fmt_render rest args2)
                 | None \<Rightarrow> None)
            | _ \<Rightarrow> None))"
  by pat_completeness auto
termination
  by (relation "measure (\<lambda>(f, a). length f)") (auto dest!: fmt_parse_length)

definition out_ok :: "nat \<Rightarrow> bytes \<Rightarrow> bytes \<Rightarrow> out_state \<Rightarrow> bool" where
  "out_ok n buf out st \<longleftrightarrow> st = (take n (out @ drop (length out) buf), length out)"

lemma c_int_small: "- (2 ^ 31) \<le> k \<Longrightarrow> k < 2 ^ 31 \<Longrightarrow> c_int k = k"
  by (simp add: c_int_def signed_take_bit_int_eq_self)

lemma append_all_Nil [simp]: "snprintf_append_all base bsz [] = Some"
  by (rule ext) simp

lemma append_ok:
  assumes "length buf = n" and "n < 2 ^ 31"
  shows "snprintf_append 0 (int n) c (take n (out @ drop (length out) buf), length out) =
    Some (take n ((out @ [c]) @ drop (length (out @ [c])) buf), length (out @ [c]))"
proof -
  have n: "c_int (int n) = int n" using assms(2) by (intro c_int_small) simp_all
  show ?thesis
  proof (cases "length out < n")
    case True
    then obtain b bs where d: "drop (length out) buf = b # bs"
      using assms(1) by (metis Cons_nth_drop_Suc)
    then have "drop (Suc (length out)) buf = bs" by (metis drop_Suc list.sel(3) tl_drop)
    with True d assms(1) n show ?thesis by (simp add: list_update_append take_Cons')
  qed (use n assms(1) in simp)
qed

lemma append_all_ok:
  assumes "length buf = n" and "n < 2 ^ 31" and "out_ok n buf out st"
  shows "\<exists>st'. snprintf_append_all 0 (int n) cs st = Some st' \<and> out_ok n buf (out @ cs) st'"
  using assms(3)
proof (induction cs arbitrary: st out)
  case (Cons c cs)
  from append_ok [OF assms(1,2), of c out] Cons.prems
  have a: "snprintf_append 0 (int n) c st = Some (take n ((out @ [c]) @ drop (length (out @ [c])) buf), length (out @ [c]))"
    by (simp add: out_ok_def)
  have "out_ok n buf (out @ [c]) (take n ((out @ [c]) @ drop (length (out @ [c])) buf), length (out @ [c]))"
    by (simp only: out_ok_def)
  from Cons.IH [OF this] a show ?case by auto
qed simp

lemma append_offset:
  assumes "n < 2 ^ 31" and "off < 2 ^ 31"
  shows "map_option (\<lambda>(b, k). (b, off + k)) (snprintf_append_all off (int n - int off) cs (buf, k)) =
    snprintf_append_all 0 (int n) cs (buf, off + k)"
proof -
  have c: "c_int (int n) = int n" "c_int (int n - int off) = int n - int off"
    using assms by (intro c_int_small; simp)+
  have lt: "int k < int n - int off \<longleftrightarrow> int off + int k < int n" for k by linarith
  show ?thesis
  proof (induction cs arbitrary: buf k)
    case (Cons a cs)
    show ?case
      using Cons.IH [of buf "k + 1"] Cons.IH [of "buf[off + k := a]" "k + 1"] by (auto simp: c lt)
  qed simp
qed

lemma itoa_ok:
  assumes "length buf = n" and "n < 2 ^ 31" and "length out < 2 ^ 31" and "out_ok n buf out st"
    and t: "itoa_tmp num base z w = Some tmp"
  shows "\<exists>b k. c_itoa (fst st) (snd st) (int n - int (snd st)) num base z w = Some (b, k) \<and>
    out_ok n buf (out @ rev tmp) (b, snd st + k)"
proof -
  have s: "snd st = length out" using assms(4) by (simp add: out_ok_def)
  from append_all_ok [OF assms(1,2,4)] obtain st' where
    st': "snprintf_append_all 0 (int n) (rev tmp) st = Some st'" "out_ok n buf (out @ rev tmp) st'" by blast
  have e: "(fst st, length out + 0) = st" using s by (metis add_0_right prod.collapse)
  from append_offset [OF assms(2), of "length out" "rev tmp" "fst st" 0] assms(3) s st'(1)
  have "map_option (\<lambda>(b, k). (b, snd st + k))
      (snprintf_append_all (snd st) (int n - int (snd st)) (rev tmp) (fst st, 0)) = Some st'"
    by (simp only: e)
  then obtain b k where "snprintf_append_all (snd st) (int n - int (snd st)) (rev tmp) (fst st, 0) = Some (b, k)"
    "st' = (b, snd st + k)" by auto
  with st'(2) t show ?thesis by (auto simp: c_itoa_def)
qed

lemma itoa_fail: "itoa_tmp num base z w = None \<Longrightarrow> c_itoa b off s num base z w = None"
  by (simp add: c_itoa_def)

lemma convert_ok:
  assumes n: "length buf = n" "n < 2 ^ 31" and st: "out_ok n buf out st"
    and c: "conv_out sp c a = Some o'" and len: "length (out @ o') < 2 ^ 31"
  shows "\<exists>st'. fmt_convert n sp c (a # as) st = Some (as, st') \<and> out_ok n buf (out @ o') st'"
proof (cases a)
  case (ArgStr s)
  with c append_all_ok [OF n st, of o'] show ?thesis
    by (auto simp: conv_out_def fmt_convert_def split: if_splits)
next
  case (ArgInt v)
  show ?thesis
  proof (cases "c = ch (CHR ''c'')")
    case True
    with c ArgInt append_all_ok [OF n st, of "[of_int v]"] show ?thesis
      by (auto simp: conv_out_def fmt_convert_def)
  next
    case False
    with c ArgInt obtain num base tmp where i: "fmt_int_arg c (fs_mod sp) v = Some (num, base)"
      and t: "itoa_tmp num base (fs_zero sp) (fs_width sp) = Some tmp" and o': "o' = rev tmp"
      by (auto simp: conv_out_def split: option.splits)
    from itoa_ok [OF n _ st t] len obtain b k where
      "c_itoa (fst st) (snd st) (int n - int (snd st)) num base (fs_zero sp) (fs_width sp) = Some (b, k)"
      "out_ok n buf (out @ rev tmp) (b, snd st + k)" by auto
    with False ArgInt i o' show ?thesis by (simp add: fmt_convert_def)
  qed
next
  case (ArgPtr p)
  with c obtain tmp where p: "c = ch (CHR ''p'')" and o': "o' = str ''0x'' @ rev tmp"
    and t: "itoa_tmp (signed_take_bit 63 (int p)) 16 (fs_zero sp) 0 = Some tmp"
    by (auto simp: conv_out_def split: if_splits)
  from append_all_ok [OF n st] obtain st1 where
    s1: "snprintf_append_all 0 (int n) (str ''0x'') st = Some st1" "out_ok n buf (out @ str ''0x'') st1" by blast
  have "length (out @ str ''0x'') < 2 ^ 31" using len o' by simp
  from itoa_ok [OF n this s1(2) t] obtain b k where
    "c_itoa (fst st1) (snd st1) (int n - int (snd st1)) (signed_take_bit 63 (int p)) 16 (fs_zero sp) 0 = Some (b, k)"
    "out_ok n buf ((out @ str ''0x'') @ rev tmp) (b, snd st1 + k)" by blast
  with s1(1) p ArgPtr o' show ?thesis by (simp add: fmt_convert_def del: str_Cons)
qed

lemma loop_ok:
  assumes n: "length buf = n" "n < 2 ^ 31"
  shows "fmt_render fmt args = Some o' \<Longrightarrow> out_ok n buf out st \<Longrightarrow> length (out @ o') < 2 ^ 31 \<Longrightarrow>
    \<exists>st'. vsnprintf_loop n fmt args st = Some st' \<and> out_ok n buf (out @ o') st'"
proof (induction fmt args arbitrary: out st o' rule: fmt_render.induct)
  case (2 c fmt args)
  show ?case
  proof (cases "c = ch (CHR ''%'')")
    case False
    with "2.prems" obtain o1 where o1: "fmt_render fmt args = Some o1" "o' = c # o1" by auto
    from append_all_ok [OF n "2.prems"(2), of "[c]"] obtain st1 where
      s: "snprintf_append 0 (int n) c st = Some st1" "out_ok n buf (out @ [c]) st1" by auto
    from "2.IH"(1) [OF False o1(1) s(2)] "2.prems"(3) o1(2) False s(1) show ?thesis by auto
  next
    case True
    with "2.prems"(1) obtain sp conv rest a args2 o1 o2 where
      f: "fmt_parse fmt args = Some (sp, conv # rest, a # args2)" and c: "conv_out sp conv a = Some o1"
      and r: "fmt_render rest args2 = Some o2" and o': "o' = o1 @ o2"
      by (auto split: option.splits list.splits prod.splits)
    have "length (out @ o1) < 2 ^ 31" using "2.prems"(3) o' by simp
    from convert_ok [OF n "2.prems"(2) c this, of args2] obtain st1 where
      s: "fmt_convert n sp conv (a # args2) st = Some (args2, st1)" "out_ok n buf (out @ o1) st1" by blast
    from "2.IH"(2) [OF _ f refl refl refl refl c r s(2)] "2.prems"(3) o' True f s(1) show ?thesis by auto
  qed
qed simp

lemma vsnprintf_spec:
  assumes n: "length buf = n" "n < 2 ^ 31" and r: "fmt_render fmt args = Some out" and l: "length out < 2 ^ 31"
  shows "c_vsnprintf buf n fmt args = Some
    (if n = 0 then [] else if length out < n then out @ 0 # drop (length out + 1) buf else take (n - 1) out @ [0], length out)"
proof -
  have "out_ok n buf [] (buf, 0)" using n(1) by (simp add: out_ok_def)
  from loop_ok [OF n r this] l have
    v: "vsnprintf_loop n fmt args (buf, 0) = Some (take n (out @ drop (length out) buf), length out)"
    by (auto simp: out_ok_def)
  have ci: "c_int (int n) = int n" using n(2) by (intro c_int_small) simp_all
  consider "n = 0" | "0 < n" "length out < n" | "0 < n" "n \<le> length out" by linarith
  then show ?thesis
  proof cases
    case 2
    then obtain b bs where d: "drop (length out) buf = b # bs"
      using n(1) by (metis Cons_nth_drop_Suc)
    then have "drop (length out + 1) buf = bs" by (metis Suc_eq_plus1 drop_Suc list.sel(3) tl_drop)
    moreover have "take (n - length out) (b # bs) = b # bs" using d n(1) by (metis length_drop order_refl take_all)
    ultimately show ?thesis
      using 2 d n(1) v ci by (simp add: c_vsnprintf_def Let_def list_update_append)
  next
    case 3
    then have t: "take n out = take (n - 1) out @ [out ! (n - 1)]"
      by (metis Suc_diff_1 diff_Suc_1' less_eq_Suc_le take_Suc_conv_app_nth)
    from 3 v ci show ?thesis by (simp add: c_vsnprintf_def Let_def t list_update_append nat_diff_distrib)
  qed (use v n in \<open>simp add: c_vsnprintf_def\<close>)
qed

section \<open>Searching and comparing\<close>

lemma strn_eq_take: "length pat \<le> length s \<Longrightarrow> c_strn_eq s pat = Some (take (length pat) s = pat)"
  by (induction s pat rule: c_strn_eq.induct) auto

lemma strnstr_loop_find:
  "slen \<le> length s \<Longrightarrow> c_strnstr_loop s pat slen i =
     Some (List.find (\<lambda>k. bslice (take slen s) k (length pat) = pat) [i..<slen])"
proof (induction s pat slen i rule: c_strnstr_loop.induct)
  case (1 s pat slen i)
  let ?P = "\<lambda>k. bslice (take slen s) k (length pat) = pat"
  show ?case
  proof (cases "i < slen")
    case True
    then have u: "[i..<slen] = i # [i + 1..<slen]" by (simp add: upt_conv_Cons)
    show ?thesis
    proof (cases "i + length pat > slen")
      case big: True
      have "\<not> ?P k" if "k \<in> set [i..<slen]" for k
      proof
        assume "?P k"
        then have "length pat = length (bslice (take slen s) k (length pat))" by simp
        also have "\<dots> \<le> slen - k" by (simp add: bslice_def)
        finally have "length pat \<le> slen - k" .
        moreover from that have "i \<le> k" "k < slen" by simp_all
        ultimately show False using big by linarith
      qed
      then have "List.find ?P [i..<slen] = None" by (simp only: find_None_iff not_False_eq_True simp_thms) blast
      with True big show ?thesis by (subst c_strnstr_loop.simps) simp
    next
      case False
      have eq: "c_strn_eq (drop i s) pat = Some (?P i)"
        using False True "1.prems" by (simp add: strn_eq_take bslice_def drop_take min_def)
      show ?thesis
      proof (cases "?P i")
        case p: True
        then have "List.find ?P [i..<slen] = Some i" unfolding u by simp
        with True False eq p show ?thesis by (subst c_strnstr_loop.simps) simp
      next
        case p: False
        then have "List.find ?P [i..<slen] = List.find ?P [i + 1..<slen]" unfolding u by simp
        moreover have "c_strnstr_loop s pat slen i = c_strnstr_loop s pat slen (i + 1)"
          using True False eq p by (subst c_strnstr_loop.simps) simp
        ultimately show ?thesis using "1.IH" [OF True False eq p] "1.prems" by simp
      qed
    qed
  qed (simp add: c_strnstr_loop.simps)
qed

lemma ms_at_valid: "ms_valid s \<Longrightarrow> i < ms_len s \<Longrightarrow> ms_at s i = Some (ms_bytes s ! i)"
  by (simp add: ms_valid_def ms_at_def ms_bytes_def rd_def bslice_def)

lemma length_ms_bytes: "ms_valid s \<Longrightarrow> length (ms_bytes s) = ms_len s"
  by (simp add: ms_valid_def ms_bytes_def bslice_def)

fun three_way :: "int list \<Rightarrow> int list \<Rightarrow> int" where
  "three_way (a # as) (b # bs) = (if a < b then -1 else if a > b then 1 else three_way as bs)"
| "three_way (a # as) [] = 1"
| "three_way [] (b # bs) = -1"
| "three_way [] [] = 0"

lemma three_way_order: "three_way xs ys = (if xs < ys then -1 else if xs = ys then 0 else 1)"
  by (induction xs ys rule: three_way.induct) auto

lemma strcmp_loop_three_way:
  assumes "ms_valid s1" and "ms_valid s2"
  shows "mg_strcmp_loop s1 s2 i =
    Some (three_way (map schar (drop i (ms_bytes s1))) (map schar (drop i (ms_bytes s2))))"
  using assms
proof (induction s1 s2 i rule: mg_strcmp_loop.induct)
  case (1 s1 s2 i)
  note l = length_ms_bytes [OF "1.prems"(1)] length_ms_bytes [OF "1.prems"(2)]
  show ?case
  proof (cases "i < ms_len s1 \<and> i < ms_len s2")
    case True
    then have d: "drop i (ms_bytes s1) = ms_bytes s1 ! i # drop (i + 1) (ms_bytes s1)"
      "drop i (ms_bytes s2) = ms_bytes s2 ! i # drop (i + 1) (ms_bytes s2)"
      using l by (simp_all add: Cons_nth_drop_Suc)
    have a: "ms_at s1 i = Some (ms_bytes s1 ! i)" "ms_at s2 i = Some (ms_bytes s2 ! i)"
      using True "1.prems" by (simp_all add: ms_at_valid)
    show ?thesis
      unfolding mg_strcmp_loop.simps [of s1 s2 i] d
      using True a "1.IH" [OF True a] "1.prems" by simp
  next
    case False
    then have "drop i (ms_bytes s1) = [] \<or> drop i (ms_bytes s2) = []" using l by auto
    moreover have "drop i (ms_bytes s1) = [] \<longleftrightarrow> ms_len s1 \<le> i" "drop i (ms_bytes s2) = [] \<longleftrightarrow> ms_len s2 \<le> i"
      using l by simp_all
    ultimately show ?thesis
      unfolding mg_strcmp_loop.simps [of s1 s2 i] using False
      by (cases "drop i (ms_bytes s1)"; cases "drop i (ms_bytes s2)") auto
  qed
qed

lemma strcmp_order:
  assumes "ms_valid s1" and "ms_valid s2"
  shows "mg_strcmp s1 s2 = Some (let x = map schar (ms_bytes s1); y = map schar (ms_bytes s2) in
    if x < y then -1 else if x = y then 0 else 1)"
  unfolding mg_strcmp_def strcmp_loop_three_way [OF assms] by (simp add: three_way_order Let_def)

lemma schar_inj: "schar a = schar b \<longleftrightarrow> a = b"
  by (auto simp: schar_def intro: signed_word_eqI)

lemma map_schar_inj: "map schar xs = map schar ys \<longleftrightarrow> xs = ys"
  by (metis inj_map_eq_map inj_def schar_inj)

text \<open>Case-insensitive comparison against a C string.\<close>

lemma tolower_0: "tolower a = tolower 0 \<Longrightarrow> a = 0"
proof -
  assume h: "tolower a = tolower 0"
  have "a + 32 \<noteq> 0" if "65 \<le> a" "a \<le> 90"
  proof
    assume "a + 32 = 0"
    then have "a = - 32" by (simp only: add_eq_0_iff2)
    with that show False by simp
  qed
  with h show "a = 0" by (auto simp: tolower_def ch_def split: if_splits)
qed

lemma ncasecmp_eq:
  assumes "n \<le> length s1" and "n \<le> length s2" and "0 \<notin> set s2"
  shows "\<exists>r. mg_ncasecmp s1 (s2 @ t) n = Some r \<and> (r = 0 \<longleftrightarrow> map tolower (take n s1) = map tolower (take n s2))"
  using assms
proof (induction n arbitrary: s1 s2)
  case (Suc n)
  then obtain a r1 b r2 where s: "s1 = a # r1" "s2 = b # r2" by (metis Suc_le_length_iff)
  let ?d = "uint (tolower a) - uint (tolower b)"
  show ?case
  proof (cases "?d = 0 \<and> a \<noteq> 0 \<and> 0 < n")
    case True
    then have "tolower a = tolower b" by (metis eq_iff_diff_eq_0 word_eq_iff_unsigned)
    with Suc.IH [of r1 r2] Suc.prems True show ?thesis unfolding s by simp
  next
    case False
    have "tolower a = tolower b \<longleftrightarrow> ?d = 0" by (simp add: word_eq_iff_unsigned)
    moreover have "a = 0 \<Longrightarrow> tolower a \<noteq> tolower b" using tolower_0 [of b] Suc.prems(3) s by auto
    ultimately show ?thesis using False unfolding s by (auto simp: Let_def)
  qed
next
  case 0
  then show ?case by (cases s1; cases "s2 @ t") simp_all
qed

lemma vcasecmp_eq:
  assumes v: "ms_valid s1" and z: "0 \<notin> set s2" and l1: "ms_len s1 < 2 ^ 31" and l2: "length s2 < 2 ^ 31"
  shows "\<exists>r. mg_vcasecmp s1 s2 = Some r \<and> (r = 0 \<longleftrightarrow> map tolower (ms_bytes s1) = map tolower s2)"
proof -
  let ?n = "min (ms_len s1) (length s2)"
  let ?m = "drop (ms_p s1) (ms_mem s1)"
  have n: "(if ms_len s1 < length s2 then ms_len s1 else length s2) = ?n" by simp
  have "?n \<le> length ?m" using v by (simp add: ms_valid_def)
  with ncasecmp_eq [of ?n ?m s2 "[0]"] z obtain r where
    r: "mg_ncasecmp ?m (s2 @ [0]) ?n = Some r"
       "r = 0 \<longleftrightarrow> map tolower (take ?n ?m) = map tolower (take ?n s2)" by auto
  have d: "c_int (int (ms_len s1) - int (length s2)) = int (ms_len s1) - int (length s2)"
    using l1 l2 by (intro c_int_small) simp_all
  have t: "take ?n ?m = take ?n (ms_bytes s1)" by (simp add: ms_bytes_def bslice_def)
  have eq: "map tolower (ms_bytes s1) = map tolower s2 \<longleftrightarrow>
      ms_len s1 = length s2 \<and> map tolower (take ?n ?m) = map tolower (take ?n s2)"
  proof
    assume e: "map tolower (ms_bytes s1) = map tolower s2"
    then have "length (ms_bytes s1) = length s2" by (metis length_map)
    with e show "ms_len s1 = length s2 \<and> map tolower (take ?n ?m) = map tolower (take ?n s2)"
      unfolding t length_ms_bytes [OF v] by (metis take_map)
  next
    assume "ms_len s1 = length s2 \<and> map tolower (take ?n ?m) = map tolower (take ?n s2)"
    then show "map tolower (ms_bytes s1) = map tolower s2"
      unfolding t using length_ms_bytes [OF v]
      by (metis min.idem order_refl take_all)
  qed
  have "mg_vcasecmp s1 s2 = Some (if r = 0 then int (ms_len s1) - int (length s2) else r)"
    by (simp only: mg_vcasecmp_def Let_def n r(1) bind.bind_lunit d)
  then show ?thesis using r(2) eq by (auto split: if_splits)
qed

lemma itoa_digits_length: "num < 10 ^ k \<Longrightarrow> 0 < k \<Longrightarrow> length (itoa_digits num 10) \<le> k"
proof (induction k arbitrary: num)
  case (Suc k)
  show ?case
  proof (cases "0 < num div 10")
    case True
    have "num div 10 < 10 ^ k" using Suc.prems(1) by (simp add: less_mult_imp_div_less mult.commute)
    moreover from this True have "0 < k" by (cases k) simp_all
    ultimately show ?thesis using Suc.IH [of "num div 10"] True by (subst itoa_digits.simps) simp
  next
    case False
    then show ?thesis by (subst itoa_digits.simps) simp
  qed
qed simp

section \<open>Properties\<close>

text \<open>C14. The built-in \<open>snprintf\<close> never writes past its buffer: for every format and arguments it
  understands, with widths and precisions that fit an \<open>int\<close>, the buffer receives the full output and a NUL when they fit, its first
  \<open>buf_size - 1\<close> bytes and a NUL when they do not, and the length of the full output is
  returned either way.\<close>

theorem c_vsnprintf_truncates:
  assumes "length buf = n" and "n < 2 ^ 31" and "fmt_render fmt args = Some out" and "length out < 2 ^ 31"
  shows "c_vsnprintf buf n fmt args = Some
    (if n = 0 then [] else if length out < n then out @ 0 # drop (length out + 1) buf else take (n - 1) out @ [0],
     length out)"
  using assms by (rule vsnprintf_spec)

theorem c_vsnprintf_truncates_witness:
  "c_vsnprintf (replicate 5 1) 5 (str ''a%s%c'') [ArgStr (Some (str ''bcd'' @ [0])), ArgInt 101] = Some (str ''abcd'' @ [0], 5)"
proof -
  have r: "fmt_render (str ''a%s%c'') [ArgStr (Some (str ''bcd'' @ [0])), ArgInt 101] = Some (str ''abcde'')"
    by (simp add: ch_def fmt_parse_def fmt_star_def fmt_precision_def fmt_len_mod_def fmt_head_def is_digit_def
        conv_out_def fmt_string_arg_def fmt_str.simps [of "_ # _"] c_int_def)
  show ?thesis using c_vsnprintf_truncates [OF _ _ r, of "replicate 5 1" 5] by simp
qed

text \<open>C15. Printing an \<open>int64_t\<close> other than the smallest with the built-in \<open>snprintf\<close> into a buffer of at least 21 bytes and reading it
  back with \<open>cs_to64\<close> gives the number.  (For the smallest, the code negates it, which overflows.)\<close>

theorem snprintf_to64:
  assumes "- (2 ^ 63) < v" and "v < 2 ^ 63" and "length buf = n" and "21 \<le> n" and "n < 2 ^ 31"
  shows "\<exists>out k. c_vsnprintf buf n (str ''%lld'') [ArgInt v] = Some (out, k) \<and> k < n \<and> out ! k = 0 \<and> cs_to64 out = Some v"
proof -
  let ?tmp = "if v < 0 then itoa_digits (nat \<bar>v\<bar>) 10 @ [ch (CHR ''-'')] else itoa_digits (nat \<bar>v\<bar>) 10"
  have "length (itoa_digits (nat \<bar>v\<bar>) 10) \<le> 19"
  proof (rule itoa_digits_length)
    have "\<bar>v\<bar> < 2 ^ 63" using assms(1,2) by linarith
    also have "(2 ^ 63 :: int) < 10 ^ 19" by simp
    finally have "int (nat \<bar>v\<bar>) < int (10 ^ 19)" by simp
    then show "nat \<bar>v\<bar> < 10 ^ 19" by (simp only: of_nat_less_iff)
  qed simp
  then have len: "length ?tmp \<le> 20" by (cases "v < 0") simp_all
  then have t: "itoa_tmp v 10 False 0 = Some ?tmp"
    using assms(1) by (simp only: itoa_tmp_def Let_def if_True if_False) simp
  have "signed_take_bit 63 v = v" using assms(1,2) by (simp add: signed_take_bit_int_eq_self)
  then have "fmt_render (str ''%lld'') [ArgInt v] = Some (rev ?tmp)"
    using t by (simp add: ch_def fmt_parse_def fmt_star_def fmt_precision_def fmt_len_mod_def fmt_head_def is_digit_def
      conv_out_def fmt_int_arg_def)
  then have p: "c_vsnprintf buf n (str ''%lld'') [ArgInt v] = Some (rev ?tmp @ 0 # drop (length (rev ?tmp) + 1) buf, length (rev ?tmp))"
    using vsnprintf_spec [of buf n "str ''%lld''" "[ArgInt v]" "rev ?tmp"] assms(3-5) len by simp
  have "\<not> is_digit 0" by (simp add: is_digit_def ch_def)
  from to64_itoa [OF assms(1,2) this, of "drop (length (rev ?tmp) + 1) buf"]
  have "cs_to64 (rev ?tmp @ 0 # drop (length (rev ?tmp) + 1) buf) = Some v" by simp
  moreover have "(rev ?tmp @ 0 # drop (length (rev ?tmp) + 1) buf) ! length (rev ?tmp) = 0" by (rule nth_append_length)
  ultimately show ?thesis using p len assms(4) by (intro exI conjI) (assumption, simp, assumption, assumption)
qed

theorem snprintf_to64_witness:
  "\<exists>out k. c_vsnprintf (replicate 32 7) 32 (str ''%lld'') [ArgInt (-42)] = Some (out, k) \<and> k < 32 \<and> out ! k = 0 \<and>
    cs_to64 out = Some (-42)"
  by (rule snprintf_to64) simp_all

text \<open>\<open>cs_from_hex\<close> undoes \<open>cs_to_hex\<close>.\<close>

theorem cs_hex_roundtrip: "cs_from_hex (cs_to_hex d) (2 * length d) = Some (d @ [0])"
  using hex_roundtrip [of d "[]"] by simp

text \<open>C16. \<open>c_strnstr\<close> returns the first position at which the pattern occurs within the first
  \<open>slen\<close> bytes, and NULL when there is none; it reads nothing past them.\<close>

theorem c_strnstr_first:
  assumes "slen \<le> length s"
  shows "c_strnstr s pat slen = Some (List.find (\<lambda>k. bslice (take slen s) k (length pat) = pat) [0..<slen])"
  using assms unfolding c_strnstr_def by (rule strnstr_loop_find)

theorem c_strnstr_first_witness:
  "c_strnstr (str ''abcbc'') (str ''bc'') 5 = Some (Some 1)"
  using c_strnstr_first [of 5 "str ''abcbc''" "str ''bc''"] by (simp add: upt_rec bslice_def ch_def)

text \<open>C17. \<open>mg_strcmp\<close> is the three-way comparison of a linear order: the lexicographic order on
  the bytes read as signed characters, 0 exactly on equal strings.\<close>

theorem mg_strcmp_linear_order:
  assumes "ms_valid s1" and "ms_valid s2"
  shows "mg_strcmp s1 s2 = Some (let x = map schar (ms_bytes s1); y = map schar (ms_bytes s2) in
    if x < y then -1 else if x = y then 0 else 1)"
  using assms by (rule strcmp_order)

theorem mg_strcmp_linear_order_witness:
  "mg_strcmp \<lparr>ms_mem = [0x80, 1], ms_p = 0, ms_len = 2\<rparr> \<lparr>ms_mem = [1], ms_p = 0, ms_len = 1\<rparr> = Some (-1)"
  using mg_strcmp_linear_order [of "\<lparr>ms_mem = [0x80, 1], ms_p = 0, ms_len = 2\<rparr>" "\<lparr>ms_mem = [1], ms_p = 0, ms_len = 1\<rparr>"]
  by (simp add: ms_valid_def ms_bytes_def bslice_def schar_def Let_def)

end
