(* ===== verification/Md5.thy ===== *)
theory Md5
  imports BlockHash Str
begin

text \<open>
  \<open>common/md5.c\<close> and \<open>cs_md5\<close>: the MD5 context, its compression function (the 64 macro steps as a table
  of the macro's arguments) and the update and final routines, against RFC 1321.  The host is
  little-endian, so \<open>byteReverse\<close> does nothing and a block is read as little-endian words.
\<close>

section \<open>The compression function\<close>

datatype md5_reg = RA | RB | RC | RD

type_synonym md5_regs = "md5_reg \<Rightarrow> u32"
type_synonym md5_fun = "u32 \<Rightarrow> u32 \<Rightarrow> u32 \<Rightarrow> u32"

definition F1f :: md5_fun where "F1f x y z = z XOR (x AND (y XOR z))"
definition F2f :: md5_fun where "F2f x y z = F1f z x y"
definition F3f :: md5_fun where "F3f x y z = x XOR y XOR z"
definition F4f :: md5_fun where "F4f x y z = y XOR (x OR NOT z)"

definition MD5STEP :: "md5_fun \<Rightarrow> u32 \<Rightarrow> u32 \<Rightarrow> u32 \<Rightarrow> u32 \<Rightarrow> u32 \<Rightarrow> nat \<Rightarrow> u32" where
  "MD5STEP f w x y z data s =
     (let w1 = w + (f x y z + data); w2 = push_bit s w1 OR drop_bit (32 - s) w1 in w2 + x)"

type_synonym md5_row = "md5_fun \<times> md5_reg \<times> md5_reg \<times> md5_reg \<times> md5_reg \<times> nat \<times> u32 \<times> nat"

definition md5_rows :: "md5_row list" where
  "md5_rows =
    [
     (F1f, RA, RB, RC, RD, 0, 0xd76aa478, 7),
     (F1f, RD, RA, RB, RC, 1, 0xe8c7b756, 12),
     (F1f, RC, RD, RA, RB, 2, 0x242070db, 17),
     (F1f, RB, RC, RD, RA, 3, 0xc1bdceee, 22),
     (F1f, RA, RB, RC, RD, 4, 0xf57c0faf, 7),
     (F1f, RD, RA, RB, RC, 5, 0x4787c62a, 12),
     (F1f, RC, RD, RA, RB, 6, 0xa8304613, 17),
     (F1f, RB, RC, RD, RA, 7, 0xfd469501, 22),
     (F1f, RA, RB, RC, RD, 8, 0x698098d8, 7),
     (F1f, RD, RA, RB, RC, 9, 0x8b44f7af, 12),
     (F1f, RC, RD, RA, RB, 10, 0xffff5bb1, 17),
     (F1f, RB, RC, RD, RA, 11, 0x895cd7be, 22),
     (F1f, RA, RB, RC, RD, 12, 0x6b901122, 7),
     (F1f, RD, RA, RB, RC, 13, 0xfd987193, 12),
     (F1f, RC, RD, RA, RB, 14, 0xa679438e, 17),
     (F1f, RB, RC, RD, RA, 15, 0x49b40821, 22),
     (F2f, RA, RB, RC, RD, 1, 0xf61e2562, 5),
     (F2f, RD, RA, RB, RC, 6, 0xc040b340, 9),
     (F2f, RC, RD, RA, RB, 11, 0x265e5a51, 14),
     (F2f, RB, RC, RD, RA, 0, 0xe9b6c7aa, 20),
     (F2f, RA, RB, RC, RD, 5, 0xd62f105d, 5),
     (F2f, RD, RA, RB, RC, 10, 0x02441453, 9),
     (F2f, RC, RD, RA, RB, 15, 0xd8a1e681, 14),
     (F2f, RB, RC, RD, RA, 4, 0xe7d3fbc8, 20),
     (F2f, RA, RB, RC, RD, 9, 0x21e1cde6, 5),
     (F2f, RD, RA, RB, RC, 14, 0xc33707d6, 9),
     (F2f, RC, RD, RA, RB, 3, 0xf4d50d87, 14),
     (F2f, RB, RC, RD, RA, 8, 0x455a14ed, 20),
     (F2f, RA, RB, RC, RD, 13, 0xa9e3e905, 5),
     (F2f, RD, RA, RB, RC, 2, 0xfcefa3f8, 9),
     (F2f, RC, RD, RA, RB, 7, 0x676f02d9, 14),
     (F2f, RB, RC, RD, RA, 12, 0x8d2a4c8a, 20),
     (F3f, RA, RB, RC, RD, 5, 0xfffa3942, 4),
     (F3f, RD, RA, RB, RC, 8, 0x8771f681, 11),
     (F3f, RC, RD, RA, RB, 11, 0x6d9d6122, 16),
     (F3f, RB, RC, RD, RA, 14, 0xfde5380c, 23),
     (F3f, RA, RB, RC, RD, 1, 0xa4beea44, 4),
     (F3f, RD, RA, RB, RC, 4, 0x4bdecfa9, 11),
     (F3f, RC, RD, RA, RB, 7, 0xf6bb4b60, 16),
     (F3f, RB, RC, RD, RA, 10, 0xbebfbc70, 23),
     (F3f, RA, RB, RC, RD, 13, 0x289b7ec6, 4),
     (F3f, RD, RA, RB, RC, 0, 0xeaa127fa, 11),
     (F3f, RC, RD, RA, RB, 3, 0xd4ef3085, 16),
     (F3f, RB, RC, RD, RA, 6, 0x04881d05, 23),
     (F3f, RA, RB, RC, RD, 9, 0xd9d4d039, 4),
     (F3f, RD, RA, RB, RC, 12, 0xe6db99e5, 11),
     (F3f, RC, RD, RA, RB, 15, 0x1fa27cf8, 16),
     (F3f, RB, RC, RD, RA, 2, 0xc4ac5665, 23),
     (F4f, RA, RB, RC, RD, 0, 0xf4292244, 6),
     (F4f, RD, RA, RB, RC, 7, 0x432aff97, 10),
     (F4f, RC, RD, RA, RB, 14, 0xab9423a7, 15),
     (F4f, RB, RC, RD, RA, 5, 0xfc93a039, 21),
     (F4f, RA, RB, RC, RD, 12, 0x655b59c3, 6),
     (F4f, RD, RA, RB, RC, 3, 0x8f0ccc92, 10),
     (F4f, RC, RD, RA, RB, 10, 0xffeff47d, 15),
     (F4f, RB, RC, RD, RA, 1, 0x85845dd1, 21),
     (F4f, RA, RB, RC, RD, 8, 0x6fa87e4f, 6),
     (F4f, RD, RA, RB, RC, 15, 0xfe2ce6e0, 10),
     (F4f, RC, RD, RA, RB, 6, 0xa3014314, 15),
     (F4f, RB, RC, RD, RA, 13, 0x4e0811a1, 21),
     (F4f, RA, RB, RC, RD, 4, 0xf7537e82, 6),
     (F4f, RD, RA, RB, RC, 11, 0xbd3af235, 10),
     (F4f, RC, RD, RA, RB, 2, 0x2ad7d2bb, 15),
     (F4f, RB, RC, RD, RA, 9, 0xeb86d391, 21)]"

definition md5_step :: "u32 list \<Rightarrow> md5_row \<Rightarrow> md5_regs \<Rightarrow> md5_regs" where
  "md5_step inw row r =
     (case row of (f, w, x, y, z, i, k, s) \<Rightarrow>
        r(w := MD5STEP f (r w) (r x) (r y) (r z) (inw ! i + k) s))"

type_synonym md5_state = "u32 \<times> u32 \<times> u32 \<times> u32"

definition md5_regs :: "md5_state \<Rightarrow> md5_regs" where
  "md5_regs buf =
     (case buf of (a, b, c, d) \<Rightarrow> (\<lambda>r. case r of RA \<Rightarrow> a | RB \<Rightarrow> b | RC \<Rightarrow> c | RD \<Rightarrow> d))"

definition MD5Transform :: "md5_state \<Rightarrow> u32 list \<Rightarrow> md5_state" where
  "MD5Transform buf inw =
     (let r = fold (md5_step inw) md5_rows (md5_regs buf) in
      case buf of (a, b, c, d) \<Rightarrow> (a + r RA, b + r RB, c + r RC, d + r RD))"

section \<open>The context\<close>

record md5_ctx =
  md5_buf :: md5_state
  md5_bits :: "u32 \<times> u32"
  md5_in :: bytes

definition MD5_Init :: "md5_ctx \<Rightarrow> md5_ctx" where
  "MD5_Init ctx =
     ctx\<lparr>md5_buf := (0x67452301, 0xefcdab89, 0x98badcfe, 0x10325476), md5_bits := (0, 0)\<rparr>"

definition md5_transform_in :: "md5_ctx \<Rightarrow> md5_ctx" where
  "md5_transform_in ctx = ctx\<lparr>md5_buf := MD5Transform (md5_buf ctx) (le_words (md5_in ctx))\<rparr>"

function md5_blocks :: "md5_ctx \<Rightarrow> bytes \<Rightarrow> md5_ctx \<times> bytes" where
  "md5_blocks ctx buf =
     (if length buf \<ge> 64
      then md5_blocks (md5_transform_in (ctx\<lparr>md5_in := overlay (md5_in ctx) 0 (take 64 buf)\<rparr>)) (drop 64 buf)
      else (ctx, buf))"
  by pat_completeness auto
termination by (relation "measure (\<lambda>(c, b). length b)") auto

declare md5_blocks.simps [simp del]

definition md5_rest :: "md5_ctx \<Rightarrow> bytes \<Rightarrow> md5_ctx" where
  "md5_rest ctx buf =
     (case md5_blocks ctx buf of (ctx1, rest) \<Rightarrow> ctx1\<lparr>md5_in := overlay (md5_in ctx1) 0 rest\<rparr>)"

definition MD5_Update :: "md5_ctx \<Rightarrow> bytes \<Rightarrow> md5_ctx" where
  "MD5_Update ctx buf =
     (let t = fst (md5_bits ctx);
          ctx1 = ctx\<lparr>md5_bits := add_bits (md5_bits ctx) (length buf)\<rparr>;
          t1 = unat (drop_bit 3 t AND 0x3f)
      in if t1 \<noteq> 0 then
           let t2 = 64 - t1 in
           if length buf < t2 then ctx1\<lparr>md5_in := overlay (md5_in ctx1) t1 buf\<rparr>
           else md5_rest (md5_transform_in (ctx1\<lparr>md5_in := overlay (md5_in ctx1) t1 (take t2 buf)\<rparr>))
                  (drop t2 buf)
         else md5_rest ctx1 buf)"

text \<open>
  \<open>MD5_Final\<close> gives the digest; the context is wiped.  \<open>a[14]\<close> and \<open>a[15]\<close> are the
  last two words of \<open>in\<close>.
\<close>

definition MD5_Final :: "md5_ctx \<Rightarrow> bytes" where
  "MD5_Final ctx =
     (let count = unat (drop_bit 3 (fst (md5_bits ctx)) AND 0x3F);
          ctx1 = ctx\<lparr>md5_in := overlay (md5_in ctx) count [0x80]\<rparr>;
          p = count + 1;
          count1 = 64 - 1 - count;
          ctx2 = (if count1 < 8 then
                    let c = md5_transform_in (ctx1\<lparr>md5_in := overlay (md5_in ctx1) p (replicate count1 0)\<rparr>)
                    in c\<lparr>md5_in := overlay (md5_in c) 0 (replicate 56 0)\<rparr>
                  else ctx1\<lparr>md5_in := overlay (md5_in ctx1) p (replicate (count1 - 8) 0)\<rparr>);
          ctx3 = ctx2\<lparr>md5_in := overlay (overlay (md5_in ctx2) 56 (le32 (fst (md5_bits ctx2))))
                                   60 (le32 (snd (md5_bits ctx2)))\<rparr>
      in case md5_buf (md5_transform_in ctx3) of
           (a, b, c, d) \<Rightarrow> le32 a @ le32 b @ le32 c @ le32 d)"

text \<open>The hash that \<open>cs_md5\<close> forms of its (pointer, length) arguments, in order.\<close>

definition md5_hash_v :: "md5_ctx \<Rightarrow> bytes list \<Rightarrow> bytes" where
  "md5_hash_v ctx ds = MD5_Final (fold (\<lambda>d c. MD5_Update c d) ds (MD5_Init ctx))"

text \<open>\<open>cs_md5\<close>: what is in \<open>buf\<close> afterwards.\<close>

definition cs_md5 :: "md5_ctx \<Rightarrow> bytes list \<Rightarrow> bytes" where
  "cs_md5 ctx ds = cs_to_hex (md5_hash_v ctx ds)"

section \<open>RFC 1321\<close>

definition rfc1321_K :: "u32 list" where
  "rfc1321_K =
     [0xd76aa478, 0xe8c7b756, 0x242070db, 0xc1bdceee,
      0xf57c0faf, 0x4787c62a, 0xa8304613, 0xfd469501,
      0x698098d8, 0x8b44f7af, 0xffff5bb1, 0x895cd7be,
      0x6b901122, 0xfd987193, 0xa679438e, 0x49b40821,
      0xf61e2562, 0xc040b340, 0x265e5a51, 0xe9b6c7aa,
      0xd62f105d, 0x02441453, 0xd8a1e681, 0xe7d3fbc8,
      0x21e1cde6, 0xc33707d6, 0xf4d50d87, 0x455a14ed,
      0xa9e3e905, 0xfcefa3f8, 0x676f02d9, 0x8d2a4c8a,
      0xfffa3942, 0x8771f681, 0x6d9d6122, 0xfde5380c,
      0xa4beea44, 0x4bdecfa9, 0xf6bb4b60, 0xbebfbc70,
      0x289b7ec6, 0xeaa127fa, 0xd4ef3085, 0x04881d05,
      0xd9d4d039, 0xe6db99e5, 0x1fa27cf8, 0xc4ac5665,
      0xf4292244, 0x432aff97, 0xab9423a7, 0xfc93a039,
      0x655b59c3, 0x8f0ccc92, 0xffeff47d, 0x85845dd1,
      0x6fa87e4f, 0xfe2ce6e0, 0xa3014314, 0x4e0811a1,
      0xf7537e82, 0xbd3af235, 0x2ad7d2bb, 0xeb86d391]"

definition rfc1321_shift :: "nat \<Rightarrow> nat" where
  "rfc1321_shift i =
     ([[7, 12, 17, 22], [5, 9, 14, 20], [4, 11, 16, 23], [6, 10, 15, 21]] ! (i div 16)) ! (i mod 4)"

definition rfc1321_index :: "nat \<Rightarrow> nat" where
  "rfc1321_index i = ([i, 5 * i + 1, 3 * i + 5, 7 * i] ! (i div 16)) mod 16"

definition rfc1321_fun :: "nat \<Rightarrow> md5_fun" where
  "rfc1321_fun i x y z =
     [(x AND y) OR (NOT x AND z), (x AND z) OR (y AND NOT z), x XOR y XOR z, y XOR (x OR NOT z)]
       ! (i div 16)"

definition rfc1321_step :: "u32 list \<Rightarrow> nat \<Rightarrow> md5_state \<Rightarrow> md5_state" where
  "rfc1321_step X i s =
     (case s of (a, b, c, d) \<Rightarrow>
        (d, b + word_rotl (rfc1321_shift i)
                 (a + rfc1321_fun i b c d + X ! rfc1321_index i + rfc1321_K ! i), b, c))"

definition rfc1321_block :: "md5_state \<Rightarrow> bytes \<Rightarrow> md5_state" where
  "rfc1321_block s blk =
     (case (s, fold (rfc1321_step (le_words blk)) [0..<64] s) of
        ((a, b, c, d), (a', b', c', d')) \<Rightarrow> (a + a', b + b', c + c', d + d'))"

definition le64_bytes :: "nat \<Rightarrow> bytes" where
  "le64_bytes n = le32 (of_nat (n mod 2 ^ 32)) @ le32 (of_nat (n div 2 ^ 32 mod 2 ^ 32))"

definition rfc1321_pad :: "bytes \<Rightarrow> bytes" where
  "rfc1321_pad m =
     m @ 0x80 # replicate ((119 - length m mod 64) mod 64) 0 @ le64_bytes (8 * length m)"

definition rfc1321_iv :: md5_state where
  "rfc1321_iv = (0x67452301, 0xefcdab89, 0x98badcfe, 0x10325476)"

definition rfc1321_md5 :: "bytes \<Rightarrow> bytes" where
  "rfc1321_md5 m =
     (case absorb rfc1321_block rfc1321_iv (rfc1321_pad m) of
        (a, b, c, d) \<Rightarrow> le32 a @ le32 b @ le32 c @ le32 d)"

section \<open>The compression function is the one of RFC 1321\<close>

lemma F1f_rfc: "F1f x y z = (x AND y) OR (NOT x AND z)"
  by (rule bit_word_eqI) (auto simp: F1f_def bit_simps)
lemma F2f_rfc: "F2f x y z = (x AND z) OR (y AND NOT z)"
  by (rule bit_word_eqI) (auto simp: F2f_def F1f_def bit_simps)

lemma MD5STEP_rotl: "0 < s \<Longrightarrow> s < 32 \<Longrightarrow>
  MD5STEP f w x y z data s = x + word_rotl s (w + (f x y z + data))"
  by (simp add: MD5STEP_def rot_word_rotl add.commute)

definition reg_at :: "nat \<Rightarrow> md5_reg" where
  "reg_at i = [RA, RB, RC, RD] ! (i mod 4)"

definition row_ok :: "nat \<Rightarrow> md5_row \<Rightarrow> bool" where
  "row_ok i row \<longleftrightarrow> (case row of (f, w, x, y, z, k, c, s) \<Rightarrow>
     f = rfc1321_fun i \<and> w = reg_at (3 * i) \<and> x = reg_at (3 * i + 1) \<and> y = reg_at (3 * i + 2) \<and>
     z = reg_at (3 * i + 3) \<and> k = rfc1321_index i \<and> c = rfc1321_K ! i \<and> s = rfc1321_shift i)"

lemma rfc1321_fun_rows:
  "i < 16 \<Longrightarrow> rfc1321_fun i = F1f" "16 \<le> i \<Longrightarrow> i < 32 \<Longrightarrow> rfc1321_fun i = F2f"
  "32 \<le> i \<Longrightarrow> i < 48 \<Longrightarrow> rfc1321_fun i = F3f" "48 \<le> i \<Longrightarrow> i < 64 \<Longrightarrow> rfc1321_fun i = F4f"
proof -
  have d: "i < 16 \<Longrightarrow> i div 16 = 0" "16 \<le> i \<Longrightarrow> i < 32 \<Longrightarrow> i div 16 = 1"
    "32 \<le> i \<Longrightarrow> i < 48 \<Longrightarrow> i div 16 = 2" "48 \<le> i \<Longrightarrow> i < 64 \<Longrightarrow> i div 16 = 3" by linarith+
  show "i < 16 \<Longrightarrow> rfc1321_fun i = F1f" "16 \<le> i \<Longrightarrow> i < 32 \<Longrightarrow> rfc1321_fun i = F2f"
  "32 \<le> i \<Longrightarrow> i < 48 \<Longrightarrow> rfc1321_fun i = F3f" "48 \<le> i \<Longrightarrow> i < 64 \<Longrightarrow> rfc1321_fun i = F4f"
    by (simp_all add: fun_eq_iff rfc1321_fun_def d F1f_rfc F2f_rfc F3f_def F4f_def numeral_3_eq_3 numeral_2_eq_2)
qed

lemma rows_ok: "list_all2 row_ok [0..<64] md5_rows"
  by (simp add: upt_rec md5_rows_def row_ok_def rfc1321_fun_rows reg_at_def rfc1321_index_def rfc1321_K_def rfc1321_shift_def)

lemma mod_4_shift:
  "(n + 1) mod 4 \<noteq> (n::nat) mod 4" "(n + 2) mod 4 \<noteq> n mod 4" "(n + 3) mod 4 \<noteq> n mod 4"
  by presburger+

lemma reg_at_neq:
  "reg_at (n + 1) \<noteq> reg_at n" "reg_at (n + 2) \<noteq> reg_at n" "reg_at (n + 3) \<noteq> reg_at n"
proof -
  have d: "distinct [RA, RB, RC, RD]" by simp
  show "reg_at (n + 1) \<noteq> reg_at n" "reg_at (n + 2) \<noteq> reg_at n" "reg_at (n + 3) \<noteq> reg_at n"
    unfolding reg_at_def using mod_4_shift [of n] by (simp_all add: nth_eq_iff_index_eq [OF d])
qed

definition md5_aligned :: "nat \<Rightarrow> md5_regs \<Rightarrow> md5_state \<Rightarrow> bool" where
  "md5_aligned i r s \<longleftrightarrow>
     s = (r (reg_at (3 * i)), r (reg_at (3 * i + 1)), r (reg_at (3 * i + 2)), r (reg_at (3 * i + 3)))"

lemma rfc1321_shift_range: "i < 64 \<Longrightarrow> 0 < rfc1321_shift i \<and> rfc1321_shift i < 32"
proof -
  have "list_all (\<lambda>i. 0 < rfc1321_shift i \<and> rfc1321_shift i < 32) [0..<64]"
    by (simp add: upt_rec rfc1321_shift_def)
  then show "i < 64 \<Longrightarrow> ?thesis" by (simp add: list_all_iff)
qed

lemma reg_at_4: "reg_at (4 + n) = reg_at n"
  by (simp add: reg_at_def)

lemma md5_aligned_step:
  assumes "row_ok i row" and "i < 64" and "md5_aligned i r s"
  shows "md5_aligned (Suc i) (md5_step X row r) (rfc1321_step X i s)"
proof -
  let ?a = "reg_at (3 * i)"
  have ne: "reg_at (3 * i + 1) \<noteq> ?a" "reg_at (3 * i + 2) \<noteq> ?a" "reg_at (3 * i + 3) \<noteq> ?a"
    by (rule reg_at_neq)+
  have suc: "reg_at (3 * Suc i) = reg_at (3 * i + 3)" "reg_at (3 * Suc i + 1) = ?a"
    "reg_at (3 * Suc i + 2) = reg_at (3 * i + 1)" "reg_at (3 * Suc i + 3) = reg_at (3 * i + 2)"
    using reg_at_4 [of "3 * i"] reg_at_4 [of "3 * i + 1"] reg_at_4 [of "3 * i + 2"]
    by (simp_all add: ac_simps)
  have row: "row = (rfc1321_fun i, ?a, reg_at (3 * i + 1), reg_at (3 * i + 2), reg_at (3 * i + 3),
      rfc1321_index i, rfc1321_K ! i, rfc1321_shift i)"
    using assms(1) by (auto simp: row_ok_def split: prod.splits)
  have s: "s = (r ?a, r (reg_at (3 * i + 1)), r (reg_at (3 * i + 2)), r (reg_at (3 * i + 3)))"
    using assms(3) by (simp only: md5_aligned_def)
  show ?thesis
    unfolding md5_aligned_def suc row s md5_step_def rfc1321_step_def prod.case
    using ne rfc1321_shift_range [OF assms(2)]
    by (simp add: MD5STEP_rotl ac_simps)
qed

lemma md5_aligned_fold:
  assumes "list_all2 row_ok [i..<i + length rows] rows" and "i + length rows \<le> 64"
    and "md5_aligned i r s"
  shows "md5_aligned (i + length rows) (fold (md5_step X) rows r) (fold (rfc1321_step X) [i..<i + length rows] s)"
  using assms
proof (induction rows arbitrary: i r s rule: list.induct)
  case (Cons row rows)
  have u: "[i..<i + length (row # rows)] = i # [Suc i..<Suc i + length rows]"
    using upt_conv_Cons [of i "i + length (row # rows)"] by simp
  from Cons.prems have "row_ok i row" "list_all2 row_ok [Suc i..<Suc i + length rows] rows" "i < 64"
    unfolding u by simp_all
  with Cons.IH [of "Suc i" "md5_step X row r" "rfc1321_step X i s"] Cons.prems
  show ?case unfolding u by (simp add: md5_aligned_step)
qed simp

lemma transform_is_block: "MD5Transform s (le_words blk) = rfc1321_block s blk"
proof -
  obtain a b c d where s: "s = (a, b, c, d)" by (cases s)
  have l: "length md5_rows = 64" using rows_ok by (auto dest: list_all2_lengthD)
  have "md5_aligned 0 (md5_regs s) s"
    by (simp add: s md5_aligned_def md5_regs_def reg_at_def)
  with md5_aligned_fold [of 0 md5_rows "md5_regs s" s "le_words blk"] rows_ok l
  have "md5_aligned 64 (fold (md5_step (le_words blk)) md5_rows (md5_regs s))
      (fold (rfc1321_step (le_words blk)) [0..<64] s)" by simp
  moreover have "reg_at 192 = RA" "reg_at 193 = RB" "reg_at 194 = RC" "reg_at 195 = RD"
    by (simp_all add: reg_at_def)
  ultimately show ?thesis
    by (simp add: md5_aligned_def MD5Transform_def rfc1321_block_def Let_def s)
qed

section \<open>Updates and padding\<close>

definition md5_f :: "md5_state \<Rightarrow> bytes \<Rightarrow> md5_state" where
  "md5_f s blk = MD5Transform s (le_words blk)"

lemma transform_in_simps [simp]:
  "md5_buf (md5_transform_in c) = md5_f (md5_buf c) (md5_in c)"
  "md5_in (md5_transform_in c) = md5_in c" "md5_bits (md5_transform_in c) = md5_bits c"
  by (simp_all add: md5_transform_in_def md5_f_def)

lemma md5_blocks_spec:
  "length (md5_in c) = 64 \<Longrightarrow> md5_blocks c b = (c1, rest) \<Longrightarrow>
     md5_buf c1 = absorb md5_f (md5_buf c) b \<and> rest = leftover b \<and> length (md5_in c1) = 64 \<and>
     md5_bits c1 = md5_bits c"
proof (induction c b rule: md5_blocks.induct)
  case (1 c b)
  show ?case
  proof (cases "64 \<le> length b")
    case False
    with "1.prems" show ?thesis by (simp add: md5_blocks.simps [of c b])
  next
    case True
    let ?c = "md5_transform_in (c\<lparr>md5_in := overlay (md5_in c) 0 (take 64 b)\<rparr>)"
    have o: "overlay (md5_in c) 0 (take 64 b) = take 64 b"
      using True "1.prems"(1) by (intro overlay_all) simp
    have l: "length (take 64 b) = 64" using True by simp
    from "1.prems"(2) True have "md5_blocks ?c (drop 64 b) = (c1, rest)"
      by (subst (asm) md5_blocks.simps) simp
    from "1.IH" [OF True _ this] o l
    have "md5_buf c1 = absorb md5_f (md5_f (md5_buf c) (take 64 b)) (drop 64 b) \<and>
        rest = leftover (drop 64 b) \<and> length (md5_in c1) = 64 \<and> md5_bits c1 = md5_bits c" by simp
    with absorb_block [OF l, of md5_f "md5_buf c" "drop 64 b"] leftover_block [OF l, of "drop 64 b"]
    show ?thesis by simp
  qed
qed

lemma md5_rest_spec:
  assumes "length (md5_in c) = 64"
  shows "md5_buf (md5_rest c b) = absorb md5_f (md5_buf c) b"
    and "length (md5_in (md5_rest c b)) = 64" and "md5_bits (md5_rest c b) = md5_bits c"
    and "take (length b mod 64) (md5_in (md5_rest c b)) = leftover b"
proof -
  obtain c1 rest where b: "md5_blocks c b = (c1, rest)" by fastforce
  note s = md5_blocks_spec [OF assms b]
  have l: "length rest = length b mod 64" using s by (simp add: length_leftover)
  have "length b mod 64 < 64" by simp
  with s l have "length (overlay (md5_in c1) 0 rest) = 64"
    by (subst length_overlay) simp_all
  moreover have "take (length b mod 64) (overlay (md5_in c1) 0 rest) = rest"
    using l by (simp add: overlay_def)
  ultimately show "md5_buf (md5_rest c b) = absorb md5_f (md5_buf c) b"
    and "length (md5_in (md5_rest c b)) = 64" and "md5_bits (md5_rest c b) = md5_bits c"
    and "take (length b mod 64) (md5_in (md5_rest c b)) = leftover b"
    using b s by (simp_all add: md5_rest_def)
qed

lemma md5_update_spec:
  assumes len: "length (md5_in c) = 64" and k: "k = bits_nat (md5_bits c) div 8 mod 64"
    and lim: "length d < 2 ^ 32"
  shows "\<exists>c'. Some (MD5_Update c d) = Some c' \<and>
       md5_buf c' = absorb md5_f (md5_buf c) (take k (md5_in c) @ d) \<and> length (md5_in c') = 64 \<and>
       take ((k + length d) mod 64) (md5_in c') = leftover (take k (md5_in c) @ d) \<and>
       bits_nat (md5_bits c') = (bits_nat (md5_bits c) + 8 * length d) mod 2 ^ 64"
proof -
  let ?c = "c\<lparr>md5_bits := add_bits (md5_bits c) (length d)\<rparr>"
  have bits: "bits_nat (md5_bits ?c) = (bits_nat (md5_bits c) + 8 * length d) mod 2 ^ 64"
    using add_bits_nat [OF lim] by simp
  have k64: "k < 64" using k by simp
  have t: "unat (drop_bit 3 (fst (md5_bits c)) AND 0x3f) = k" using k by (simp only: bits_offset)
  consider "k = 0" | "k \<noteq> 0" "length d < 64 - k" | "k \<noteq> 0" "64 - k \<le> length d" by linarith
  then show ?thesis
  proof cases
    case 1
    then have "MD5_Update c d = md5_rest ?c d" by (simp add: MD5_Update_def Let_def t del: One_nat_def)
    with 1 bits md5_rest_spec [of ?c d] len show ?thesis by simp
  next
    case 2
    then have u: "MD5_Update c d = ?c\<lparr>md5_in := overlay (md5_in c) k d\<rparr>"
      by (simp add: MD5_Update_def Let_def t)
    have s: "length (take k (md5_in c) @ d) < 64" "length (take k (md5_in c) @ d) = k + length d"
      using 2 len by simp_all
    have "take (k + length d) (overlay (md5_in c) k d) = take k (md5_in c) @ d"
      using len k64 by (intro take_overlay_prefix) simp
    moreover have "length (overlay (md5_in c) k d) = 64"
      using len 2 by (subst length_overlay) simp_all
    moreover have "(k + length d) mod 64 = k + length d" using 2 by simp
    ultimately show ?thesis using s bits by (simp add: u)
  next
    case 3
    let ?b = "take k (md5_in c) @ take (64 - k) d"
    have lb: "length ?b = 64" using 3 len k64 by simp
    have "md5_in c = take k (md5_in c) @ drop k (md5_in c)" by simp
    then have o: "overlay (md5_in c) k (take (64 - k) d) = ?b"
      using overlay_append [of "take k (md5_in c)" k "drop k (md5_in c)" "take (64 - k) d"] 3 len k64
      by simp
    let ?c1 = "md5_transform_in (?c\<lparr>md5_in := ?b\<rparr>)"
    have u: "MD5_Update c d = md5_rest ?c1 (drop (64 - k) d)"
      using 3 o by (simp add: MD5_Update_def Let_def t)
    have "take k (md5_in c) @ d = ?b @ drop (64 - k) d" by simp
    then have a: "absorb md5_f s (take k (md5_in c) @ d) = absorb md5_f (md5_f s ?b) (drop (64 - k) d)"
        "leftover (take k (md5_in c) @ d) = leftover (drop (64 - k) d)" for s
      using absorb_block [OF lb] leftover_block [OF lb] by metis+
    have "k + length d = 64 + (length d - (64 - k))" using 3 k64 by linarith
    then have "(k + length d) mod 64 = length (drop (64 - k) d) mod 64"
      by (simp only: mod_add_self1 length_drop)
    moreover have lc: "length (md5_in ?c1) = 64" using lb by (simp only: transform_in_simps) simp
    moreover have "md5_buf ?c1 = md5_f (md5_buf c) ?b" "bits_nat (md5_bits ?c1) = bits_nat (md5_bits ?c)"
      by simp_all
    ultimately show ?thesis
      using md5_rest_spec [OF lc, of "drop (64 - k) d"] bits a by (simp only: u) simp
  qed
qed

interpretation md5s: hash_stream md5_buf md5_in md5_bits md5_f "\<lambda>c d. Some (MD5_Update c d)" "2 ^ 32"
  by unfold_locales (rule md5_update_spec)

lemma md5_stream_init:
  "length (md5_in c) = 64 \<Longrightarrow> streams md5_buf md5_in md5_bits md5_f rfc1321_iv (MD5_Init c) []"
  by (simp add: streams_def MD5_Init_def rfc1321_iv_def bits_nat_def)

lemma le64_of_bits:
  assumes "bits_nat b = n mod 2 ^ 64"
  shows "le64_bytes n = le32 (fst b) @ le32 (snd b)"
  using bits_words [OF assms] by (simp only: le64_bytes_def) simp

lemma md5_in_update:
  "md5_in (c\<lparr>md5_in := x\<rparr>) = x" "md5_buf (c\<lparr>md5_in := x\<rparr>) = md5_buf c"
  "md5_bits (c\<lparr>md5_in := x\<rparr>) = md5_bits c"
  by simp_all

lemma md5_final_spec:
  assumes s: "streams md5_buf md5_in md5_bits md5_f rfc1321_iv c m"
  shows "MD5_Final c = (case absorb md5_f rfc1321_iv (rfc1321_pad m) of
           (a, b, c, d) \<Rightarrow> le32 a @ le32 b @ le32 c @ le32 d)"
proof -
  define k where "k = length m mod 64"
  let ?L = "le64_bytes (8 * length m)"
  let ?P = "take k (md5_in c)"
  have len: "length (md5_in c) = 64" and P: "?P = leftover m"
    and b: "bits_nat (md5_bits c) = 8 * length m mod 2 ^ 64"
    and st: "md5_buf c = absorb md5_f rfc1321_iv m"
    using s by (simp_all add: streams_def k_def)
  have L: "?L = le32 (fst (md5_bits c)) @ le32 (snd (md5_bits c))" by (rule le64_of_bits [OF b])
  have t: "unat (drop_bit 3 (fst (md5_bits c)) AND 0x3F) = k"
    by (simp only: bits_offset b bits_in_block k_def)
  have k: "k < 64" by (simp add: k_def)
  have lP: "length ?P = k" using len k by simp
  have split: "md5_in c = ?P @ drop k (md5_in c)" by simp
  have in1: "overlay (md5_in c) k [0x80] = (?P @ [0x80]) @ drop (k + 1) (md5_in c)"
    by (subst split, subst overlay_append [OF lP]) simp
  have pad: "absorb md5_f rfc1321_iv (rfc1321_pad m) =
      absorb md5_f (md5_buf c) (?P @ 0x80 # replicate ((119 - k) mod 64) 0 @ ?L)"
    unfolding rfc1321_pad_def absorb_append [of md5_f rfc1321_iv m] st P by (simp only: k_def)
  have last8: "overlay (overlay (x @ y) 56 (le32 u)) 60 (le32 v) = x @ le32 u @ le32 v"
    if "length x = 56" "length y = 8" for x y u v
    using that overlay_append [of "x @ le32 u" 60 "drop 4 y" "le32 v"]
    by (simp add: overlay_append)
  show ?thesis
  proof (cases "k < 56")
    case True
    let ?B = "?P @ 0x80 # replicate (55 - k) 0 @ ?L"
    have z: "(119 - k) mod 64 = 55 - k" using True by (rule pad_mod)
    have lB: "length ?B = 64" using True lP by (simp add: le64_bytes_def)
    have in2: "overlay (overlay (md5_in c) k [0x80]) (k + 1) (replicate (63 - k - 8) 0) =
        (?P @ 0x80 # replicate (55 - k) 0) @ drop 56 (md5_in c)"
      unfolding in1 using overlay_append [of "?P @ [0x80]" "k + 1" "drop (k + 1) (md5_in c)"] True len lP
      by simp
    have "length (?P @ 0x80 # replicate (55 - k) 0) = 56" "length (drop 56 (md5_in c)) = 8"
      using True lP len by simp_all
    from last8 [OF this, of "fst (md5_bits c)" "snd (md5_bits c)"]
    have "overlay (overlay (overlay (overlay (md5_in c) k [0x80]) (k + 1) (replicate (63 - k - 8) 0))
        56 (le32 (fst (md5_bits c)))) 60 (le32 (snd (md5_bits c))) = ?B"
      unfolding in2 L by simp
    then have "MD5_Final c = (case md5_f (md5_buf c) ?B of (a, b, c, d) \<Rightarrow> le32 a @ le32 b @ le32 c @ le32 d)"
    proof -
      assume eq: "overlay (overlay (overlay (overlay (md5_in c) k [0x80]) (k + 1) (replicate (63 - k - 8) 0))
        56 (le32 (fst (md5_bits c)))) 60 (le32 (snd (md5_bits c))) = ?B"
      have "\<not> 64 - 1 - k < 8" "64 - 1 - k = 63 - k" using True by linarith+
      then show ?thesis
        unfolding MD5_Final_def Let_def t by (simp only: if_False) (simp only: eq transform_in_simps md5_in_update)
    qed
    then show ?thesis
      unfolding pad z using absorb_block [OF lB, of md5_f "md5_buf c" "[]"] by simp
  next
    case False
    let ?B1 = "?P @ 0x80 # replicate (63 - k) 0"
    let ?B2 = "replicate 56 0 @ ?L"
    have z: "(119 - k) mod 64 = (63 - k) + 56" using False k by (intro pad_mod) simp_all
    have l1: "length ?B1 = 64" and l2: "length ?B2 = 64" using False k lP by (simp_all add: le64_bytes_def)
    have in2: "overlay (overlay (md5_in c) k [0x80]) (k + 1) (replicate (63 - k) 0) = ?B1"
      unfolding in1 using overlay_append [of "?P @ [0x80]" "k + 1" "drop (k + 1) (md5_in c)"] False k len lP
      by simp
    have "overlay ?B1 0 (replicate 56 0) = replicate 56 0 @ drop 56 ?B1"
      by (simp add: overlay_def)
    then have "overlay (overlay (overlay ?B1 0 (replicate 56 0)) 56 (le32 (fst (md5_bits c)))) 60
        (le32 (snd (md5_bits c))) = ?B2"
      using last8 [of "replicate 56 0" "drop 56 ?B1" "fst (md5_bits c)" "snd (md5_bits c)"] l1
      by (simp only: L length_replicate length_drop)
    then have "MD5_Final c = (case md5_f (md5_f (md5_buf c) ?B1) ?B2 of
        (a, b, c, d) \<Rightarrow> le32 a @ le32 b @ le32 c @ le32 d)"
    proof -
      assume eq: "overlay (overlay (overlay ?B1 0 (replicate 56 0)) 56 (le32 (fst (md5_bits c)))) 60
        (le32 (snd (md5_bits c))) = ?B2"
      have "64 - 1 - k < 8" "64 - 1 - k = 63 - k" using False k by linarith+
      then show ?thesis
        unfolding MD5_Final_def Let_def t
        by (simp only: if_True eq in2 transform_in_simps md5_in_update)
    qed
    moreover have "?P @ 0x80 # replicate ((63 - k) + 56) 0 @ ?L = ?B1 @ ?B2 @ []"
      by (simp add: replicate_add)
    ultimately show ?thesis
      unfolding pad z using absorb_block [OF l1, of md5_f "md5_buf c" "?B2 @ []"]
        absorb_block [OF l2, of md5_f "md5_f (md5_buf c) ?B1" "[]"] by simp
  qed
qed

lemma md5_f_block: "md5_f = rfc1321_block"
  by (intro ext) (simp add: md5_f_def transform_is_block)

lemma md5_final_rfc:
  "streams md5_buf md5_in md5_bits md5_f rfc1321_iv c m \<Longrightarrow> MD5_Final c = rfc1321_md5 m"
  using md5_final_spec [of c m] by (simp add: md5_f_block rfc1321_md5_def)

lemma md5_hash_v_spec:
  assumes "length (md5_in ctx) = 64" and "\<forall>d \<in> set ds. length d < 2 ^ 32"
  shows "md5_hash_v ctx ds = rfc1321_md5 (concat ds)"
proof -
  from md5s.streams_feed [OF md5_stream_init [OF assms(1)] assms(2)]
  show ?thesis by (simp add: hash_feed_total md5_hash_v_def md5_final_rfc)
qed

section \<open>Properties\<close>

text \<open>C9. The unrolled compression function of the source, 64 macro rows over four registers that
  change roles, is the loop of RFC 1321 over its table of constants, shifts and message word
  indices, on every state and every 64-byte block.\<close>

theorem MD5Transform_rfc1321: "MD5Transform s (le_words blk) = rfc1321_block s blk"
  by (rule transform_is_block)

text \<open>Two lower-case hexadecimal digits for each byte.\<close>

definition lower_hex :: "bytes \<Rightarrow> bytes" where
  "lower_hex bs = concat (map (\<lambda>b. [hex_digits ! (unat b div 16), hex_digits ! (unat b mod 16)]) bs)"

lemma cs_to_hex_lower: "cs_to_hex bs = lower_hex bs @ [0]"
proof (induction bs)
  case (Cons b bs)
  have "unat (drop_bit 4 b) = unat b div 16" "unat (b AND 0x0f) = unat b mod 16"
    by (simp_all add: unat_drop_bit_eq drop_bit_eq_div and_masks unsigned_take_bit_eq take_bit_eq_mod unat_div unat_mod)
  then show ?case using Cons by (simp add: lower_hex_def)
qed (simp add: lower_hex_def)

text \<open>C10. However the message is cut into (pointer, length) pieces, each shorter than 4 GiB,
  \<open>cs_md5\<close> writes the MD5 digest of RFC 1321 of their concatenation in lower-case hexadecimal digits, with a NUL: buffering, bit count
  and padding over the block boundary are right.\<close>

theorem cs_md5_rfc1321:
  assumes "length (md5_in ctx) = 64" and "\<forall>d \<in> set ds. length d < 2 ^ 32"
  shows "cs_md5 ctx ds = lower_hex (rfc1321_md5 (concat ds)) @ [0]"
  unfolding cs_md5_def cs_to_hex_lower md5_hash_v_spec [OF assms] ..

theorem cs_md5_rfc1321_witness:
  "cs_md5 \<lparr>md5_buf = (0, 0, 0, 0), md5_bits = (0, 0), md5_in = replicate 64 0\<rparr> [str ''ab'', [], str ''c'']
     = lower_hex (rfc1321_md5 (str ''abc'')) @ [0]"
  using cs_md5_rfc1321 [of "\<lparr>md5_buf = (0, 0, 0, 0), md5_bits = (0, 0), md5_in = replicate 64 0\<rparr>"
      "[str ''ab'', [], str ''c'']"]
  by simp

end
