(* ===== verification/Sha1.thy ===== *)
theory Sha1
  imports BlockHash
begin

text \<open>
  \<open>common/sha1.c\<close>: the SHA-1 context, its compression function (80 macro rows as a table of
  the macros' arguments, the message schedule kept in place in sixteen words), update, final
  and HMAC-SHA1, against FIPS 180 and RFC 2104.  \<open>cs_sha1_update\<close> works in \<open>uint32_t\<close>
  arithmetic and is \<open>None\<close> where it reads past the data or writes past the 64-byte buffer.
\<close>

section \<open>The compression function\<close>

datatype sha1_reg = SA | SB | SC | SD | SE
datatype sha1_op = R0 | R1 | R2 | R3 | R4

type_synonym sha1_regs = "sha1_reg \<Rightarrow> u32"
type_synonym sha1_state = "u32 \<times> u32 \<times> u32 \<times> u32 \<times> u32"

definition rol :: "u32 \<Rightarrow> nat \<Rightarrow> u32" where
  "rol value bits = push_bit bits value OR drop_bit (32 - bits) value"

text \<open>\<open>blk0\<close> swaps word \<open>i\<close> to big-endian in place, \<open>blk\<close> extends the schedule in place;
  both give the word and the block.\<close>

definition blk0 :: "u32 list \<Rightarrow> nat \<Rightarrow> u32 \<times> u32 list" where
  "blk0 l i =
     (let w = (rol (l ! i) 24 AND 0xFF00FF00) OR (rol (l ! i) 8 AND 0x00FF00FF) in (w, l[i := w]))"

definition blk :: "u32 list \<Rightarrow> nat \<Rightarrow> u32 \<times> u32 list" where
  "blk l i =
     (let w = rol (l ! ((i + 13) mod 16) XOR l ! ((i + 8) mod 16) XOR l ! ((i + 2) mod 16)
                   XOR l ! (i mod 16)) 1
      in (w, l[i mod 16 := w]))"

text \<open>The macros \<open>R0\<close> to \<open>R4\<close>: the boolean function, the constant, and which of \<open>blk0\<close>
  and \<open>blk\<close> is used; then \<open>z += ...; w = rol(w, 30)\<close>.\<close>

fun sha1_f :: "sha1_op \<Rightarrow> u32 \<Rightarrow> u32 \<Rightarrow> u32 \<Rightarrow> u32" where
  "sha1_f R0 w x y = (w AND (x XOR y)) XOR y"
| "sha1_f R1 w x y = (w AND (x XOR y)) XOR y"
| "sha1_f R2 w x y = w XOR x XOR y"
| "sha1_f R3 w x y = ((w OR x) AND y) OR (w AND x)"
| "sha1_f R4 w x y = w XOR x XOR y"

fun sha1_k :: "sha1_op \<Rightarrow> u32" where
  "sha1_k R0 = 0x5A827999"
| "sha1_k R1 = 0x5A827999"
| "sha1_k R2 = 0x6ED9EBA1"
| "sha1_k R3 = 0x8F1BBCDC"
| "sha1_k R4 = 0xCA62C1D6"

type_synonym sha1_row =
  "sha1_op \<times> sha1_reg \<times> sha1_reg \<times> sha1_reg \<times> sha1_reg \<times> sha1_reg \<times> nat"

definition sha1_step :: "sha1_row \<Rightarrow> sha1_regs \<times> u32 list \<Rightarrow> sha1_regs \<times> u32 list" where
  "sha1_step row s =
     (case (row, s) of ((op, v, w, x, y, z, i), (r, l)) \<Rightarrow>
        let (b, l') = (if op = R0 then blk0 l i else blk l i);
            r1 = r(z := r z + (sha1_f op (r w) (r x) (r y) + b + sha1_k op + rol (r v) 5))
        in (r1(w := rol (r1 w) 30), l'))"

definition sha1_rows :: "sha1_row list" where
  "sha1_rows =
    [(R0, SA, SB, SC, SD, SE, 0),
     (R0, SE, SA, SB, SC, SD, 1),
     (R0, SD, SE, SA, SB, SC, 2),
     (R0, SC, SD, SE, SA, SB, 3),
     (R0, SB, SC, SD, SE, SA, 4),
     (R0, SA, SB, SC, SD, SE, 5),
     (R0, SE, SA, SB, SC, SD, 6),
     (R0, SD, SE, SA, SB, SC, 7),
     (R0, SC, SD, SE, SA, SB, 8),
     (R0, SB, SC, SD, SE, SA, 9),
     (R0, SA, SB, SC, SD, SE, 10),
     (R0, SE, SA, SB, SC, SD, 11),
     (R0, SD, SE, SA, SB, SC, 12),
     (R0, SC, SD, SE, SA, SB, 13),
     (R0, SB, SC, SD, SE, SA, 14),
     (R0, SA, SB, SC, SD, SE, 15),
     (R1, SE, SA, SB, SC, SD, 16),
     (R1, SD, SE, SA, SB, SC, 17),
     (R1, SC, SD, SE, SA, SB, 18),
     (R1, SB, SC, SD, SE, SA, 19),
     (R2, SA, SB, SC, SD, SE, 20),
     (R2, SE, SA, SB, SC, SD, 21),
     (R2, SD, SE, SA, SB, SC, 22),
     (R2, SC, SD, SE, SA, SB, 23),
     (R2, SB, SC, SD, SE, SA, 24),
     (R2, SA, SB, SC, SD, SE, 25),
     (R2, SE, SA, SB, SC, SD, 26),
     (R2, SD, SE, SA, SB, SC, 27),
     (R2, SC, SD, SE, SA, SB, 28),
     (R2, SB, SC, SD, SE, SA, 29),
     (R2, SA, SB, SC, SD, SE, 30),
     (R2, SE, SA, SB, SC, SD, 31),
     (R2, SD, SE, SA, SB, SC, 32),
     (R2, SC, SD, SE, SA, SB, 33),
     (R2, SB, SC, SD, SE, SA, 34),
     (R2, SA, SB, SC, SD, SE, 35),
     (R2, SE, SA, SB, SC, SD, 36),
     (R2, SD, SE, SA, SB, SC, 37),
     (R2, SC, SD, SE, SA, SB, 38),
     (R2, SB, SC, SD, SE, SA, 39),
     (R3, SA, SB, SC, SD, SE, 40),
     (R3, SE, SA, SB, SC, SD, 41),
     (R3, SD, SE, SA, SB, SC, 42),
     (R3, SC, SD, SE, SA, SB, 43),
     (R3, SB, SC, SD, SE, SA, 44),
     (R3, SA, SB, SC, SD, SE, 45),
     (R3, SE, SA, SB, SC, SD, 46),
     (R3, SD, SE, SA, SB, SC, 47),
     (R3, SC, SD, SE, SA, SB, 48),
     (R3, SB, SC, SD, SE, SA, 49),
     (R3, SA, SB, SC, SD, SE, 50),
     (R3, SE, SA, SB, SC, SD, 51),
     (R3, SD, SE, SA, SB, SC, 52),
     (R3, SC, SD, SE, SA, SB, 53),
     (R3, SB, SC, SD, SE, SA, 54),
     (R3, SA, SB, SC, SD, SE, 55),
     (R3, SE, SA, SB, SC, SD, 56),
     (R3, SD, SE, SA, SB, SC, 57),
     (R3, SC, SD, SE, SA, SB, 58),
     (R3, SB, SC, SD, SE, SA, 59),
     (R4, SA, SB, SC, SD, SE, 60),
     (R4, SE, SA, SB, SC, SD, 61),
     (R4, SD, SE, SA, SB, SC, 62),
     (R4, SC, SD, SE, SA, SB, 63),
     (R4, SB, SC, SD, SE, SA, 64),
     (R4, SA, SB, SC, SD, SE, 65),
     (R4, SE, SA, SB, SC, SD, 66),
     (R4, SD, SE, SA, SB, SC, 67),
     (R4, SC, SD, SE, SA, SB, 68),
     (R4, SB, SC, SD, SE, SA, 69),
     (R4, SA, SB, SC, SD, SE, 70),
     (R4, SE, SA, SB, SC, SD, 71),
     (R4, SD, SE, SA, SB, SC, 72),
     (R4, SC, SD, SE, SA, SB, 73),
     (R4, SB, SC, SD, SE, SA, 74),
     (R4, SA, SB, SC, SD, SE, 75),
     (R4, SE, SA, SB, SC, SD, 76),
     (R4, SD, SE, SA, SB, SC, 77),
     (R4, SC, SD, SE, SA, SB, 78),
     (R4, SB, SC, SD, SE, SA, 79)]"

definition sha1_regs :: "sha1_state \<Rightarrow> sha1_regs" where
  "sha1_regs st = (case st of (a, b, c, d, e) \<Rightarrow>
     (\<lambda>r. case r of SA \<Rightarrow> a | SB \<Rightarrow> b | SC \<Rightarrow> c | SD \<Rightarrow> d | SE \<Rightarrow> e))"

definition cs_sha1_transform :: "sha1_state \<Rightarrow> bytes \<Rightarrow> sha1_state" where
  "cs_sha1_transform state buffer =
     (let (r, l) = fold sha1_step sha1_rows (sha1_regs state, le_words buffer) in
      case state of (a, b, c, d, e) \<Rightarrow> (a + r SA, b + r SB, c + r SC, d + r SD, e + r SE))"

section \<open>The context\<close>

record cs_sha1_ctx =
  sha1_state :: sha1_state
  sha1_count :: "u32 \<times> u32"
  sha1_buffer :: bytes

definition cs_sha1_init :: "cs_sha1_ctx \<Rightarrow> cs_sha1_ctx" where
  "cs_sha1_init ctx =
     ctx\<lparr>sha1_state := (0x67452301, 0xEFCDAB89, 0x98BADCFE, 0x10325476, 0xC3D2E1F0),
         sha1_count := (0, 0)\<rparr>"

text \<open>
  The block loop of \<open>cs_sha1_update\<close>, \<open>i\<close> and \<open>i + 63 < len\<close> in \<open>uint32_t\<close>; the data is the
  \<open>len\<close> bytes the caller owns.
\<close>

function sha1_blocks :: "sha1_state \<Rightarrow> bytes \<Rightarrow> nat \<Rightarrow> (sha1_state \<times> nat) option" where
  "sha1_blocks st data i =
     (if (i + 63) mod 2 ^ 32 < length data then
        if length data < i + 64 then None
        else sha1_blocks (cs_sha1_transform st (bslice data i 64)) data (i + 64)
      else Some (st, i))"
  by pat_completeness auto
termination by (relation "measure (\<lambda>(s, d, i). length d - i)") auto

declare sha1_blocks.simps [simp del]

definition cs_sha1_update :: "cs_sha1_ctx \<Rightarrow> bytes \<Rightarrow> u32 \<Rightarrow> cs_sha1_ctx option" where
  "cs_sha1_update context data len =
     (let j0 = fst (sha1_count context);
          context1 = context\<lparr>sha1_count := add_bits (sha1_count context) (unat len)\<rparr>;
          j = drop_bit 3 j0 AND 63;
          d = take (unat len) data
      in if length data < unat len then None
         else if j + len > 63 then
           let i = 64 - unat j;
               buf = overlay (sha1_buffer context1) (unat j) (take i d)
           in (case sha1_blocks (cs_sha1_transform (sha1_state context1) buf) d i of
                 None \<Rightarrow> None
               | Some (st, i') \<Rightarrow>
                   Some (context1\<lparr>sha1_state := st, sha1_buffer := overlay buf 0 (drop i' d)\<rparr>))
         else if unat j + length d \<le> 64 then
           Some (context1\<lparr>sha1_buffer := overlay (sha1_buffer context1) (unat j) d\<rparr>)
         else None)"

text \<open>
  The padding loop of \<open>cs_sha1_final\<close>: zero bytes until the count is 56 modulo 64.
\<close>

partial_function (option) sha1_pad_loop :: "cs_sha1_ctx \<Rightarrow> cs_sha1_ctx option" where
  "sha1_pad_loop context =
     (if fst (sha1_count context) AND 504 \<noteq> 448
      then Option.bind (cs_sha1_update context [0] 1) sha1_pad_loop
      else Some context)"

definition sha1_digest :: "sha1_state \<Rightarrow> bytes" where
  "sha1_digest st = (case st of (a, b, c, d, e) \<Rightarrow> be32 a @ be32 b @ be32 c @ be32 d @ be32 e)"

definition cs_sha1_final :: "cs_sha1_ctx \<Rightarrow> bytes option" where
  "cs_sha1_final context =
     (let finalcount = be32 (snd (sha1_count context)) @ be32 (fst (sha1_count context)) in do {
        c1 \<leftarrow> cs_sha1_update context [0x80] 1;
        c2 \<leftarrow> sha1_pad_loop c1;
        c3 \<leftarrow> cs_sha1_update c2 finalcount 8;
        Some (sha1_digest (sha1_state c3)) })"

text \<open>\<open>cs_hmac_sha1\<close>; \<open>ctx\<close> is the uninitialised context on its stack.  The lengths are
  \<open>size_t\<close> and are cut to \<open>uint32_t\<close> when they are passed on.\<close>

definition cs_hmac_sha1 :: "cs_sha1_ctx \<Rightarrow> bytes \<Rightarrow> bytes \<Rightarrow> bytes option" where
  "cs_hmac_sha1 ctx key data = do {
     key1 \<leftarrow> (if length key > 64
              then Option.bind (cs_sha1_update (cs_sha1_init ctx) key (of_nat (length key))) cs_sha1_final
              else Some key);
     let buf = overlay (replicate 64 0) 0 key1;
     let buf1 = List.map (\<lambda>b. b XOR 0x36) buf;
     let buf2 = List.map (\<lambda>b. b XOR 0x5c) buf;
     c1 \<leftarrow> cs_sha1_update (cs_sha1_init ctx) buf1 64;
     c2 \<leftarrow> cs_sha1_update c1 data (of_nat (length data));
     out \<leftarrow> cs_sha1_final c2;
     c3 \<leftarrow> cs_sha1_update (cs_sha1_init ctx) buf2 64;
     c4 \<leftarrow> cs_sha1_update c3 out 20;
     cs_sha1_final c4 }"

section \<open>FIPS 180 and RFC 2104\<close>

fun be_words :: "bytes \<Rightarrow> u32 list" where
  "be_words (a # b # c # d # r) = un32 a b c d # be_words r"
| "be_words _ = []"

fun fips_W :: "u32 list \<Rightarrow> nat \<Rightarrow> u32" where
  "fips_W M t = (if t < 16 then M ! t
     else word_rotl 1 (fips_W M (t - 3) XOR fips_W M (t - 8) XOR fips_W M (t - 14) XOR fips_W M (t - 16)))"

declare fips_W.simps [simp del]

definition fips_f :: "nat \<Rightarrow> u32 \<Rightarrow> u32 \<Rightarrow> u32 \<Rightarrow> u32" where
  "fips_f t x y z =
     (if t < 20 then (x AND y) XOR (NOT x AND z)
      else if t < 40 then x XOR y XOR z
      else if t < 60 then (x AND y) XOR (x AND z) XOR (y AND z)
      else x XOR y XOR z)"

definition fips_K :: "nat \<Rightarrow> u32" where
  "fips_K t = (if t < 20 then 0x5a827999 else if t < 40 then 0x6ed9eba1
               else if t < 60 then 0x8f1bbcdc else 0xca62c1d6)"

definition fips_step :: "u32 list \<Rightarrow> nat \<Rightarrow> sha1_state \<Rightarrow> sha1_state" where
  "fips_step M t s = (case s of (a, b, c, d, e) \<Rightarrow>
     (word_rotl 5 a + fips_f t b c d + e + fips_K t + fips_W M t, a, word_rotl 30 b, c, d))"

definition fips_block :: "sha1_state \<Rightarrow> bytes \<Rightarrow> sha1_state" where
  "fips_block s blck =
     (case (s, fold (fips_step (be_words blck)) [0..<80] s) of
        ((a, b, c, d, e), (a', b', c', d', e')) \<Rightarrow> (a + a', b + b', c + c', d + d', e + e'))"

definition be64_bytes :: "nat \<Rightarrow> bytes" where
  "be64_bytes n = be32 (of_nat (n div 2 ^ 32 mod 2 ^ 32)) @ be32 (of_nat (n mod 2 ^ 32))"

definition fips_pad :: "bytes \<Rightarrow> bytes" where
  "fips_pad m = m @ 0x80 # replicate ((119 - length m mod 64) mod 64) 0 @ be64_bytes (8 * length m)"

definition fips_iv :: sha1_state where
  "fips_iv = (0x67452301, 0xefcdab89, 0x98badcfe, 0x10325476, 0xc3d2e1f0)"

definition fips_sha1 :: "bytes \<Rightarrow> bytes" where
  "fips_sha1 m = sha1_digest (absorb fips_block fips_iv (fips_pad m))"

definition rfc2104_key :: "bytes \<Rightarrow> bytes" where
  "rfc2104_key k = (let k' = (if length k > 64 then fips_sha1 k else k) in k' @ replicate (64 - length k') 0)"

definition rfc2104_hmac_sha1 :: "bytes \<Rightarrow> bytes \<Rightarrow> bytes" where
  "rfc2104_hmac_sha1 k m =
     fips_sha1 (List.map (\<lambda>b. b XOR 0x5c) (rfc2104_key k) @
       fips_sha1 (List.map (\<lambda>b. b XOR 0x36) (rfc2104_key k) @ m))"

section \<open>The compression function is the one of FIPS 180\<close>

lemma rol_word_rotl: "0 < s \<Longrightarrow> s < 32 \<Longrightarrow> rol w s = word_rotl s w"
  by (simp add: rol_def rot_word_rotl)

lemma swap_word:
  "(rol (un32 d c b a) 24 AND 0xFF00FF00) OR (rol (un32 d c b a) 8 AND 0x00FF00FF) = un32 a b c d"
proof -
  have m: "(0xFF00FF00 :: u32) = push_bit 24 (mask 8) OR push_bit 8 (mask 8)"
    "(0x00FF00FF :: u32) = push_bit 16 (mask 8) OR mask 8"
    by (simp_all add: mask_eq_exp_minus_1)
  have high: "\<not> bit w n" if "8 \<le> n" for n and w :: u8 using that by (rule u8_high_bit)
  show ?thesis
    unfolding m
  proof (rule bit_word_eqI)
    fix n assume "n < LENGTH(32)"
    then have "n < 8 \<or> 8 \<le> n \<and> n < 16 \<or> 16 \<le> n \<and> n < 24 \<or> 24 \<le> n \<and> n < 32" by auto
    then show "bit ((rol (un32 d c b a) 24 AND (push_bit 24 (mask 8) OR push_bit 8 (mask 8))) OR
        (rol (un32 d c b a) 8 AND (push_bit 16 (mask 8) OR mask 8))) n \<longleftrightarrow> bit (un32 a b c d) n"
      by (elim disjE; auto simp: un32_def rol_def bit_simps high)
  qed
qed

lemma fips_f_cases:
  "(w AND (x XOR y)) XOR y = (w AND x) XOR (NOT w AND (y::u32))"
  "((w OR x) AND y) OR (w AND x) = (w AND x) XOR (w AND y) XOR (x AND (y::u32))"
  by (rule bit_word_eqI; auto simp: bit_simps)+

definition sreg :: "nat \<Rightarrow> sha1_reg" where
  "sreg i = [SA, SB, SC, SD, SE] ! (i mod 5)"

definition sha1_op_at :: "nat \<Rightarrow> sha1_op" where
  "sha1_op_at i = (if i < 16 then R0 else if i < 20 then R1 else if i < 40 then R2
     else if i < 60 then R3 else R4)"

definition srow_ok :: "nat \<Rightarrow> sha1_row \<Rightarrow> bool" where
  "srow_ok i row \<longleftrightarrow> row = (sha1_op_at i, sreg (4 * i), sreg (4 * i + 1), sreg (4 * i + 2),
     sreg (4 * i + 3), sreg (4 * i + 4), i)"

lemma srows_ok: "list_all2 srow_ok [0..<80] sha1_rows"
  by (simp add: upt_rec sha1_rows_def srow_ok_def sreg_def sha1_op_at_def)

lemma sha1_f_at: "sha1_f (sha1_op_at i) w x y = fips_f i w x y"
  by (simp add: sha1_op_at_def fips_f_def fips_f_cases)

lemma sha1_k_at: "sha1_k (sha1_op_at i) = fips_K i"
  by (simp add: sha1_op_at_def fips_K_def)

lemma mod_5_shift:
  "(n + 1) mod 5 \<noteq> (n::nat) mod 5"
  "(n + 2) mod 5 \<noteq> (n::nat) mod 5"
  "(n + 2) mod 5 \<noteq> (n + 1) mod 5"
  "(n + 3) mod 5 \<noteq> (n::nat) mod 5"
  "(n + 3) mod 5 \<noteq> (n + 1) mod 5"
  "(n + 3) mod 5 \<noteq> (n + 2) mod 5"
  "(n + 4) mod 5 \<noteq> (n::nat) mod 5"
  "(n + 4) mod 5 \<noteq> (n + 1) mod 5"
  "(n + 4) mod 5 \<noteq> (n + 2) mod 5"
  "(n + 4) mod 5 \<noteq> (n + 3) mod 5"
  by presburger+

lemma sreg_neq:
  "sreg (n + 1) \<noteq> sreg n"
  "sreg (n + 2) \<noteq> sreg n"
  "sreg (n + 2) \<noteq> sreg (n + 1)"
  "sreg (n + 3) \<noteq> sreg n"
  "sreg (n + 3) \<noteq> sreg (n + 1)"
  "sreg (n + 3) \<noteq> sreg (n + 2)"
  "sreg (n + 4) \<noteq> sreg n"
  "sreg (n + 4) \<noteq> sreg (n + 1)"
  "sreg (n + 4) \<noteq> sreg (n + 2)"
  "sreg (n + 4) \<noteq> sreg (n + 3)"
proof -
  have d: "distinct [SA, SB, SC, SD, SE]" by simp
  have eq: "sreg a = sreg b \<longleftrightarrow> a mod 5 = b mod 5" for a b
    unfolding sreg_def by (simp add: nth_eq_iff_index_eq [OF d])
  show "sreg (n + 1) \<noteq> sreg n"
  "sreg (n + 2) \<noteq> sreg n"
  "sreg (n + 2) \<noteq> sreg (n + 1)"
  "sreg (n + 3) \<noteq> sreg n"
  "sreg (n + 3) \<noteq> sreg (n + 1)"
  "sreg (n + 3) \<noteq> sreg (n + 2)"
  "sreg (n + 4) \<noteq> sreg n"
  "sreg (n + 4) \<noteq> sreg (n + 1)"
  "sreg (n + 4) \<noteq> sreg (n + 2)"
  "sreg (n + 4) \<noteq> sreg (n + 3)"
    using mod_5_shift [of n] by (simp_all only: eq not_False_eq_True)
qed

lemma sreg_5: "sreg (5 + n) = sreg n"
  by (simp add: sreg_def)

text \<open>The words of the in-place block before step \<open>i\<close>.\<close>

definition sched :: "bytes \<Rightarrow> nat \<Rightarrow> u32 list \<Rightarrow> bool" where
  "sched m i l \<longleftrightarrow> length l = 16 \<and>
     (if i < 16 then \<forall>j < 16. l ! j = (if j < i then be_words m ! j else le_words m ! j)
      else \<forall>t < i. i \<le> t + 16 \<longrightarrow> l ! (t mod 16) = fips_W (be_words m) t)"

lemma words_nth: "4 * i + 4 \<le> length m \<Longrightarrow>
   le_words m ! i = un32 (m ! (4 * i + 3)) (m ! (4 * i + 2)) (m ! (4 * i + 1)) (m ! (4 * i)) \<and>
   be_words m ! i = un32 (m ! (4 * i)) (m ! (4 * i + 1)) (m ! (4 * i + 2)) (m ! (4 * i + 3))"
proof (induction m arbitrary: i rule: le_words.induct)
  case (1 a b c d r)
  show ?case
  proof (cases i)
    case (Suc k)
    with 1 show ?thesis by (simp add: numeral_eq_Suc)
  qed (simp add: numeral_eq_Suc)
qed (auto)

lemma length_le_words: "length (le_words m) = length m div 4"
  by (induction m rule: le_words.induct) (auto simp: div_add_self1)


lemma sched_0: "length m = 64 \<Longrightarrow> sched m 0 (le_words m)"
  by (simp add: sched_def length_le_words)

lemma blk0_step:
  assumes "length m = 64" "sched m i l" "i < 16"
  shows "fst (blk0 l i) = fips_W (be_words m) i \<and> sched m (Suc i) (snd (blk0 l i))"
proof -
  have l: "length l = 16" "l ! i = le_words m ! i"
    and old: "\<And>j. j < 16 \<Longrightarrow> l ! j = (if j < i then be_words m ! j else le_words m ! j)"
    using assms by (simp_all add: sched_def)
  have w: "fst (blk0 l i) = be_words m ! i" "snd (blk0 l i) = l[i := be_words m ! i]"
    using words_nth [of i m] assms(1,3) l by (simp_all add: blk0_def Let_def swap_word)
  have W: "fips_W (be_words m) t = be_words m ! t" if "t < 16" for t
    using that by (simp add: fips_W.simps)
  have new: "l[i := be_words m ! i] ! j = (if j < Suc i then be_words m ! j else le_words m ! j)"
    if "j < 16" for j
    using that l(1) old [OF that] by (auto simp: nth_list_update less_Suc_eq)
  have "sched m (Suc i) (l[i := be_words m ! i])"
  proof (cases "Suc i < 16")
    case True
    then show ?thesis using new l(1) by (simp add: sched_def)
  next
    case False
    with \<open>i < 16\<close> have "Suc i = 16" by simp
    then show ?thesis using new l(1) by (simp add: sched_def W)
  qed
  then show ?thesis using w W assms(3) by simp
qed

lemma mod_16_eq: "t < i \<Longrightarrow> i < t + 16 \<Longrightarrow> t mod 16 \<noteq> i mod (16::nat)"
  using nat_dvd_not_less [of "i - t" 16] mod_eq_dvd_iff_nat [of t i 16] by auto

lemma blk_step:
  assumes "sched m i l" "16 \<le> i"
  shows "fst (blk l i) = fips_W (be_words m) i \<and> sched m (Suc i) (snd (blk l i))"
proof -
  let ?W = "fips_W (be_words m)"
  have l: "length l = 16" and old: "\<And>t. t < i \<Longrightarrow> i \<le> t + 16 \<Longrightarrow> l ! (t mod 16) = ?W t"
    using assms by (simp_all add: sched_def)
  have ix: "(i + 13) mod 16 = (i - 3) mod 16" "(i + 8) mod 16 = (i - 8) mod 16"
    "(i + 2) mod 16 = (i - 14) mod 16" "i mod 16 = (i - 16) mod 16"
  proof -
    obtain k where i: "i = 16 + k" using assms(2) le_Suc_ex by blast
    have "i + 13 = 16 + (i - 3)" "i + 8 = 16 + (i - 8)" "i + 2 = 16 + (i - 14)" "i = 16 + (i - 16)"
      unfolding i by simp_all
    then show "(i + 13) mod 16 = (i - 3) mod 16" "(i + 8) mod 16 = (i - 8) mod 16"
      "(i + 2) mod 16 = (i - 14) mod 16" "i mod 16 = (i - 16) mod 16"
      by (metis mod_add_self1)+
  qed
  have "fst (blk l i) = word_rotl 1 (?W (i - 3) XOR ?W (i - 8) XOR ?W (i - 14) XOR ?W (i - 16))"
  proof -
    have "l ! ((i - d) mod 16) = ?W (i - d)" if "0 < d" "d \<le> 16" for d
      using assms(2) that by (intro old) linarith+
    then show ?thesis
      unfolding blk_def Let_def fst_conv ix by (simp add: rol_word_rotl)
  qed
  then have w: "fst (blk l i) = ?W i" using assms(2) by (simp only: fips_W.simps [of _ i] not_less [symmetric] if_False)
  have s: "snd (blk l i) = l[i mod 16 := ?W i]" using w by (simp add: blk_def Let_def)
  have "l[i mod 16 := ?W i] ! (t mod 16) = ?W t" if "t < Suc i" "Suc i \<le> t + 16" for t
  proof (cases "t = i")
    case False
    with that have "t mod 16 \<noteq> i mod 16" by (intro mod_16_eq) simp_all
    with False that old [of t] show ?thesis by simp
  qed (use l in simp)
  then have "sched m (Suc i) (snd (blk l i))" using l assms(2) by (simp add: sched_def s)
  with w show ?thesis by simp
qed

definition sha1_aligned :: "bytes \<Rightarrow> nat \<Rightarrow> sha1_regs \<times> u32 list \<Rightarrow> sha1_state \<Rightarrow> bool" where
  "sha1_aligned m i p s \<longleftrightarrow> sched m i (snd p) \<and>
     s = (fst p (sreg (4 * i)), fst p (sreg (4 * i + 1)), fst p (sreg (4 * i + 2)),
          fst p (sreg (4 * i + 3)), fst p (sreg (4 * i + 4)))"

lemma sha1_aligned_step:
  assumes "length m = 64" and "srow_ok i row" and "sha1_aligned m i (r, l) s"
  shows "sha1_aligned m (Suc i) (sha1_step row (r, l)) (fips_step (be_words m) i s)"
proof -
  define n where "n = 4 * i"
  have row: "row = (sha1_op_at i, sreg n, sreg (n + 1), sreg (n + 2), sreg (n + 3), sreg (n + 4), i)"
    using assms(2) by (simp only: srow_ok_def n_def)
  have s: "s = (r (sreg n), r (sreg (n + 1)), r (sreg (n + 2)), r (sreg (n + 3)), r (sreg (n + 4)))"
    and sc: "sched m i l"
    using assms(3) by (simp_all only: sha1_aligned_def n_def fst_conv snd_conv)
  obtain b l' where b: "(if sha1_op_at i = R0 then blk0 l i else blk l i) = (b, l')" by fastforce
  have op: "sha1_op_at i = R0 \<longleftrightarrow> i < 16" by (simp add: sha1_op_at_def)
  have "b = fips_W (be_words m) i \<and> sched m (Suc i) l'"
    using b op blk0_step [OF assms(1) sc] blk_step [OF sc]
    by (cases "i < 16") auto
  then have bW: "b = fips_W (be_words m) i" and sc': "sched m (Suc i) l'" by simp_all
  have n': "4 * Suc i = n + 4" "n + 4 + 1 = 5 + n" "n + 4 + 2 = 5 + (n + 1)" "n + 4 + 3 = 5 + (n + 2)"
    "n + 4 + 4 = 5 + (n + 3)" by (simp_all add: n_def)
  show ?thesis
    unfolding sha1_aligned_def n' sreg_5 row s sha1_step_def fips_step_def prod.case b Let_def
    using sreg_neq [of n] sc' by (simp add: sha1_f_at sha1_k_at bW rol_word_rotl ac_simps)
qed


lemma sha1_aligned_fold:
  assumes "length m = 64" and "list_all2 srow_ok [i..<i + length rows] rows" and "sha1_aligned m i p s"
  shows "sha1_aligned m (i + length rows) (fold sha1_step rows p)
    (fold (fips_step (be_words m)) [i..<i + length rows] s)"
  using assms(2,3)
proof (induction rows arbitrary: i p s rule: list.induct)
  case (Cons row rows)
  have u: "[i..<i + length (row # rows)] = i # [Suc i..<Suc i + length rows]"
    using upt_conv_Cons [of i "i + length (row # rows)"] by simp
  from Cons.prems have "srow_ok i row" "list_all2 srow_ok [Suc i..<Suc i + length rows] rows"
    unfolding u by simp_all
  with Cons.IH [of "Suc i" "sha1_step row p" "fips_step (be_words m) i s"] Cons.prems
  show ?case unfolding u using sha1_aligned_step [OF assms(1), of i row "fst p" "snd p" s] by simp
qed simp

lemma sha1_transform_is_block:
  assumes "length m = 64"
  shows "cs_sha1_transform s m = fips_block s m"
proof -
  obtain a b c d e where s: "s = (a, b, c, d, e)" by (cases s)
  have l: "length sha1_rows = 80" using srows_ok by (auto dest: list_all2_lengthD)
  have "sha1_aligned m 0 (sha1_regs s, le_words m) s"
    using sched_0 [OF assms] by (simp add: s sha1_aligned_def sha1_regs_def sreg_def)
  with sha1_aligned_fold [of m 0 sha1_rows "(sha1_regs s, le_words m)" s] srows_ok l assms
  have "sha1_aligned m 80 (fold sha1_step sha1_rows (sha1_regs s, le_words m))
      (fold (fips_step (be_words m)) [0..<80] s)" by simp
  moreover have "sreg 320 = SA" "sreg 321 = SB" "sreg 322 = SC" "sreg 323 = SD" "sreg 324 = SE"
    by (simp_all add: sreg_def)
  ultimately show ?thesis
    by (simp add: sha1_aligned_def cs_sha1_transform_def fips_block_def Let_def s split: prod.splits)
qed

section \<open>Updates, padding and HMAC\<close>

lemma sha1_blocks_spec:
  assumes "length data < 2 ^ 32 - 63" and "i \<le> length data"
  shows "\<exists>i'. sha1_blocks st data i = Some (absorb cs_sha1_transform st (drop i data), i') \<and>
    drop i' data = leftover (drop i data)"
  using assms
proof (induction st data i rule: sha1_blocks.induct)
  case (1 st data i)
  have m: "(i + 63) mod 2 ^ 32 = i + 63" using "1.prems" by (intro mod_less) linarith
  show ?case
  proof (cases "i + 63 < length data")
    case True
    let ?b = "bslice data i 64"
    have s: "sha1_blocks st data i = sha1_blocks (cs_sha1_transform st ?b) data (i + 64)"
      using True unfolding sha1_blocks.simps [of st data i] m by simp
    have d: "drop i data = ?b @ drop (i + 64) data"
      by (simp add: bslice_def flip: drop_drop) (metis add.commute append_take_drop_id drop_drop)
    have lb: "length ?b = 64" using True by (simp add: bslice_def)
    have "absorb cs_sha1_transform st (drop i data) =
        absorb cs_sha1_transform (cs_sha1_transform st ?b) (drop (i + 64) data)"
      "leftover (drop i data) = leftover (drop (i + 64) data)"
      unfolding d by (rule absorb_block [OF lb], rule leftover_block [OF lb])
    with "1.IH" True "1.prems" show ?thesis unfolding s m by simp
  next
    case False
    then show ?thesis unfolding sha1_blocks.simps [of st data i] m by simp
  qed
qed

lemma sha1_update_spec:
  assumes len: "length (sha1_buffer c) = 64" and k: "k = bits_nat (sha1_count c) div 8 mod 64"
    and d: "length d < 2 ^ 32 - 63"
  shows "\<exists>c'. cs_sha1_update c d (of_nat (length d)) = Some c' \<and>
     sha1_state c' = absorb cs_sha1_transform (sha1_state c) (take k (sha1_buffer c) @ d) \<and>
     length (sha1_buffer c') = 64 \<and>
     take ((k + length d) mod 64) (sha1_buffer c') = leftover (take k (sha1_buffer c) @ d) \<and>
     bits_nat (sha1_count c') = (bits_nat (sha1_count c) + 8 * length d) mod 2 ^ 64"
proof -
  let ?j = "drop_bit 3 (fst (sha1_count c)) AND 63 :: u32"
  let ?P = "take k (sha1_buffer c)"
  have j: "unat ?j = k" by (simp only: bits_offset k)
  have k64: "k < 64" by (simp add: k)
  have ul: "unat (of_nat (length d) :: u32) = length d"
    using d by (simp add: unat_of_nat take_bit_eq_mod)
  have bits: "bits_nat (add_bits (sha1_count c) (length d)) = (bits_nat (sha1_count c) + 8 * length d) mod 2 ^ 64"
    using d by (intro add_bits_nat) simp
  have s: "unat (?j + of_nat (length d)) = k + length d"
    using d k64 by (simp only: unat_word_ariths ul j) simp
  have gt: "?j + of_nat (length d) > 63 \<longleftrightarrow> 64 \<le> k + length d"
    by (simp only: word_less_nat_alt s) auto
  show ?thesis
  proof (cases "64 \<le> k + length d")
    case False
    have sh: "length (?P @ d) < 64" "length (?P @ d) = k + length d" using False len by simp_all
    have "take (k + length d) (overlay (sha1_buffer c) k d) = ?P @ d"
      using len k64 by (intro take_overlay_prefix) simp
    moreover have "length (overlay (sha1_buffer c) k d) = 64"
      using len False by (subst length_overlay) simp_all
    ultimately show ?thesis
      using False gt sh bits by (simp add: cs_sha1_update_def Let_def ul j)
  next
    case True
    let ?b = "?P @ take (64 - k) d"
    have lb: "length ?b = 64" using True len k64 by simp
    have "sha1_buffer c = ?P @ drop k (sha1_buffer c)" by simp
    then have o: "overlay (sha1_buffer c) k (take (64 - k) d) = ?b"
      using overlay_append [of ?P k "drop k (sha1_buffer c)" "take (64 - k) d"] True len k64 by simp
    have i: "64 - k \<le> length d" using True by linarith
    from sha1_blocks_spec [OF d i] obtain i' where
      B: "sha1_blocks (cs_sha1_transform (sha1_state c) ?b) d (64 - k) =
        Some (absorb cs_sha1_transform (cs_sha1_transform (sha1_state c) ?b) (drop (64 - k) d), i')"
      and R: "drop i' d = leftover (drop (64 - k) d)" by blast
    have "?P @ d = ?b @ drop (64 - k) d" by simp
    then have a: "absorb cs_sha1_transform s (?P @ d) = absorb cs_sha1_transform (cs_sha1_transform s ?b) (drop (64 - k) d)"
        "leftover (?P @ d) = leftover (drop (64 - k) d)" for s
      using absorb_block [OF lb] leftover_block [OF lb] by metis+
    let ?r = "leftover (drop (64 - k) d)"
    have "k + length d = 64 + (length d - (64 - k))" using True k64 by linarith
    then have r: "(k + length d) mod 64 = length ?r"
      by (simp only: mod_add_self1 length_drop length_leftover)
    have rl: "length ?r < 64" by (simp add: length_leftover)
    have "take (length ?r) (overlay ?b 0 ?r) = ?r"
      using take_overlay_prefix [of 0 ?b ?r] by simp
    moreover have "length (overlay ?b 0 ?r) = 64"
      using lb rl by (subst length_overlay) simp_all
    moreover have "cs_sha1_update c d (of_nat (length d)) = Some (c\<lparr>sha1_count := add_bits (sha1_count c) (length d),
        sha1_state := absorb cs_sha1_transform (sha1_state c) (?P @ d), sha1_buffer := overlay ?b 0 ?r\<rparr>)"
      using True gt o B R a by (simp add: cs_sha1_update_def Let_def ul j)
    ultimately show ?thesis using a bits r by simp
  qed
qed

interpretation sha1s: hash_stream sha1_state sha1_buffer sha1_count cs_sha1_transform
  "\<lambda>c d. cs_sha1_update c d (of_nat (length d))" "2 ^ 32 - 63"
  by unfold_locales (rule sha1_update_spec)


lemma sha1_stream_init:
  "length (sha1_buffer c) = 64 \<Longrightarrow>
     streams sha1_state sha1_buffer sha1_count cs_sha1_transform fips_iv (cs_sha1_init c) []"
  by (simp add: streams_def cs_sha1_init_def fips_iv_def bits_nat_def)

abbreviation sha1_fed :: "cs_sha1_ctx \<Rightarrow> bytes \<Rightarrow> bool" where
  "sha1_fed \<equiv> streams sha1_state sha1_buffer sha1_count cs_sha1_transform fips_iv"

lemma count_504:
  fixes w :: u32
  shows "w AND 504 = 448 \<longleftrightarrow> unat (drop_bit 3 w AND 0x3F) = 56"
proof -
  have e: "w AND 504 = push_bit 3 (drop_bit 3 w AND 0x3F)"
  proof -
    have m: "(504 :: u32) = push_bit 3 (mask 6)" "(0x3F :: u32) = mask 6"
      by (simp_all add: mask_eq_exp_minus_1)
    show ?thesis unfolding m
      by (rule bit_word_eqI) (auto simp: bit_simps simp del: push_bit_and)
  qed
  have d: "drop_bit 3 w AND 0x3F = drop_bit 3 (w AND 504)"
    unfolding drop_bit_and by simp
  show ?thesis
  proof
    assume "w AND 504 = 448"
    then show "unat (drop_bit 3 w AND 0x3F) = 56" unfolding d by simp
  next
    assume "unat (drop_bit 3 w AND 0x3F) = 56"
    then have "drop_bit 3 w AND 0x3F = 56" using unsigned_word_eqI [of "drop_bit 3 w AND 0x3F" 56] by simp
    then show "w AND 504 = 448" unfolding e by simp
  qed
qed

lemma sha1_fed_update:
  "sha1_fed c m \<Longrightarrow> length d < 2 ^ 32 - 63 \<Longrightarrow>
     \<exists>c'. cs_sha1_update c d (of_nat (length d)) = Some c' \<and> sha1_fed c' (m @ d)"
  by (rule sha1s.streams_update)

lemma sha1_fed_pad:
  assumes "sha1_fed c m" and "(length m + z) mod 64 = 56" and "z < 64"
  shows "\<exists>c'. sha1_pad_loop c = Some c' \<and> sha1_fed c' (m @ replicate z 0)"
  using assms
proof (induction z arbitrary: c m)
  case 0
  then have "fst (sha1_count c) AND 504 = 448"
    by (simp only: count_504 bits_offset streams_def bits_in_block) simp
  with 0 show ?case by (subst sha1_pad_loop.simps) simp
next
  case (Suc z)
  have "length m mod 64 \<noteq> 56"
  proof
    assume "length m mod 64 = 56"
    then have "(length m + Suc z) mod 64 = (56 + Suc z) mod 64" by (metis mod_add_left_eq)
    with Suc.prems show False by presburger
  qed
  with Suc.prems(1) have ne: "fst (sha1_count c) AND 504 \<noteq> 448"
    by (simp only: count_504 bits_offset streams_def bits_in_block) simp
  from sha1_fed_update [OF Suc.prems(1), of "[0]"] obtain c1
    where c1: "cs_sha1_update c [0] 1 = Some c1" "sha1_fed c1 (m @ [0])" by auto
  from Suc.IH [OF c1(2)] Suc.prems obtain c'
    where "sha1_pad_loop c1 = Some c'" "sha1_fed c' ((m @ [0]) @ replicate z 0)" by auto
  with ne c1(1) show ?case by (subst sha1_pad_loop.simps) auto
qed

lemma be64_of_bits:
  assumes "bits_nat b = n mod 2 ^ 64"
  shows "be64_bytes n = be32 (snd b) @ be32 (fst b)"
  using bits_words [OF assms] by (simp only: be64_bytes_def) simp

lemma sha1_final_spec:
  assumes "sha1_fed c m"
  shows "cs_sha1_final c = Some (sha1_digest (absorb cs_sha1_transform fips_iv (fips_pad m)))"
proof -
  let ?z = "(119 - length m mod 64) mod 64"
  from sha1_fed_update [OF assms, of "[0x80]"] obtain c1
    where c1: "cs_sha1_update c [0x80] 1 = Some c1" "sha1_fed c1 (m @ [0x80])" by auto
  have "length m mod 64 < 64" by simp
  then have z: "(length (m @ [0x80]) + ?z) mod 64 = 56" "?z < 64"
    using pad_total [of "length m"] by simp_all
  from sha1_fed_pad [OF c1(2) z] obtain c2 where c2: "sha1_pad_loop c1 = Some c2"
    and f2: "sha1_fed c2 (m @ 0x80 # replicate ?z 0)" by auto
  from assms have "bits_nat (sha1_count c) = (8 * length m) mod 2 ^ 64" by (simp only: streams_def)
  from be64_of_bits [OF this] have fc: "be32 (snd (sha1_count c)) @ be32 (fst (sha1_count c)) = be64_bytes (8 * length m)" by simp
  from sha1_fed_update [OF f2, of "be64_bytes (8 * length m)"] obtain c3
    where c3: "cs_sha1_update c2 (be64_bytes (8 * length m)) 8 = Some c3" "sha1_fed c3 (fips_pad m)"
    by (auto simp: be64_bytes_def fips_pad_def)
  from c3(2) have "sha1_state c3 = absorb cs_sha1_transform fips_iv (fips_pad m)" by (simp only: streams_def)
  with c1 c2 c3 show ?thesis unfolding cs_sha1_final_def Let_def fc by simp
qed

lemma absorb_sha1: "absorb cs_sha1_transform s m = absorb fips_block s m"
proof (induction cs_sha1_transform s m rule: absorb.induct)
  case (1 s m)
  then show ?case
    by (cases "length m < 64") (simp_all add: absorb.simps [of _ s m] sha1_transform_is_block)
qed

lemma sha1_final_fips: "sha1_fed c m \<Longrightarrow> cs_sha1_final c = Some (fips_sha1 m)"
  using sha1_final_spec [of c m] by (simp add: absorb_sha1 fips_sha1_def)

lemma sha1_fed_feed:
  assumes "length (sha1_buffer ctx) = 64" and "\<forall>d \<in> set ds. length d < 2 ^ 32 - 63"
  shows "\<exists>c. hash_feed (\<lambda>c d. cs_sha1_update c d (of_nat (length d))) (cs_sha1_init ctx) ds = Some c \<and>
    sha1_fed c (concat ds)"
  using sha1s.streams_feed [OF sha1_stream_init [OF assms(1)] assms(2)] by simp

lemma length_fips_sha1: "length (fips_sha1 m) = 20"
  by (simp add: fips_sha1_def sha1_digest_def split: prod.splits)

lemma hash_feed_bind:
  "hash_feed u c [d] = u c d" "hash_feed u c [d, d'] = Option.bind (u c d) (\<lambda>c1. u c1 d')"
  by (simp_all split: option.splits Option.bind_splits)

lemma sha1_twice:
  assumes "length (sha1_buffer ctx) = 64" and "length b = 64" and "length d < 2 ^ 32 - 63"
  shows "do { c1 \<leftarrow> cs_sha1_update (cs_sha1_init ctx) b 64;
              c2 \<leftarrow> cs_sha1_update c1 d (of_nat (length d)); cs_sha1_final c2 } = Some (fips_sha1 (b @ d))"
proof -
  obtain c where h: "hash_feed (\<lambda>c d. cs_sha1_update c d (of_nat (length d))) (cs_sha1_init ctx) [b, d] = Some c"
    and f: "sha1_fed c (b @ d)" using sha1_fed_feed [OF assms(1), of "[b, d]"] assms(2,3) by auto
  from h have "Option.bind (cs_sha1_update (cs_sha1_init ctx) b 64)
      (\<lambda>c1. cs_sha1_update c1 d (of_nat (length d))) = Some c"
    by (simp only: hash_feed_bind assms(2)) simp
  then show ?thesis using sha1_final_fips [OF f] by (auto split: Option.bind_splits)
qed

lemma sha1_once:
  assumes "length (sha1_buffer ctx) = 64" and "length d < 2 ^ 32 - 63"
  shows "Option.bind (cs_sha1_update (cs_sha1_init ctx) d (of_nat (length d))) cs_sha1_final = Some (fips_sha1 d)"
proof -
  obtain c where h: "hash_feed (\<lambda>c d. cs_sha1_update c d (of_nat (length d))) (cs_sha1_init ctx) [d] = Some c"
    and f: "sha1_fed c d" using sha1_fed_feed [OF assms(1), of "[d]"] assms(2) by auto
  then show ?thesis using sha1_final_fips [OF f] by (auto split: option.splits)
qed

lemma hmac_spec:
  assumes b: "length (sha1_buffer ctx) = 64" and k: "length key < 2 ^ 32 - 63" and d: "length data < 2 ^ 32 - 63"
  shows "cs_hmac_sha1 ctx key data = Some (rfc2104_hmac_sha1 key data)"
proof -
  let ?k = "if length key > 64 then fips_sha1 key else key"
  have k1: "(if length key > 64
      then Option.bind (cs_sha1_update (cs_sha1_init ctx) key (of_nat (length key))) cs_sha1_final
      else Some key) = Some ?k"
    using sha1_once [OF b k] by simp
  have lk: "length ?k \<le> 64" by (simp add: length_fips_sha1)
  have o: "overlay (replicate 64 0) 0 ?k = rfc2104_key key"
    by (simp add: overlay_def rfc2104_key_def Let_def)
  have l: "length (rfc2104_key key) = 64"
    using lk by (simp add: rfc2104_key_def Let_def length_fips_sha1)
  let ?b1 = "List.map (\<lambda>b. b XOR 0x36) (rfc2104_key key)"
  let ?b2 = "List.map (\<lambda>b. b XOR 0x5c) (rfc2104_key key)"
  have i: "do { c1 \<leftarrow> cs_sha1_update (cs_sha1_init ctx) ?b1 64;
      c2 \<leftarrow> cs_sha1_update c1 data (of_nat (length data)); cs_sha1_final c2 } = Some (fips_sha1 (?b1 @ data))"
    using l by (intro sha1_twice [OF b _ d]) simp
  have "do { c3 \<leftarrow> cs_sha1_update (cs_sha1_init ctx) ?b2 64;
      c4 \<leftarrow> cs_sha1_update c3 (fips_sha1 (?b1 @ data)) 20; cs_sha1_final c4 } = Some (fips_sha1 (?b2 @ fips_sha1 (?b1 @ data)))"
    using sha1_twice [OF b, of ?b2 "fips_sha1 (?b1 @ data)"] l by (simp add: length_fips_sha1)
  then have "cs_hmac_sha1 ctx key data = Some (fips_sha1 (?b2 @ fips_sha1 (?b1 @ data)))"
    unfolding cs_hmac_sha1_def k1 bind.bind_lunit Let_def o
    using i by (auto split: Option.bind_splits)
  then show ?thesis by (simp add: rfc2104_hmac_sha1_def)
qed

section \<open>Properties\<close>

text \<open>C11. The 80 macro rows over five registers that change roles, with the message schedule kept
  in place in sixteen words that are byte-swapped on first use, compute the compression function
  of FIPS 180 on every state and every 64-byte block.\<close>

theorem cs_sha1_transform_fips180:
  assumes "length m = 64"
  shows "cs_sha1_transform s m = fips_block s m"
  using assms by (rule sha1_transform_is_block)

theorem cs_sha1_transform_fips180_witness:
  "cs_sha1_transform fips_iv (replicate 64 0) = fips_block fips_iv (replicate 64 0)"
  by (rule cs_sha1_transform_fips180) simp

text \<open>C12. However a message is cut into pieces shorter than \<open>2 ^ 32 - 63\<close> bytes, init, update and
  final stay within the 64-byte buffer, the padding loop ends, and the digest is the SHA-1 of
  FIPS 180 of the whole message.\<close>

theorem cs_sha1_fips180:
  assumes "length (sha1_buffer ctx) = 64" and "\<forall>d \<in> set ds. length d < 2 ^ 32 - 63"
  shows "Option.bind (hash_feed (\<lambda>c d. cs_sha1_update c d (of_nat (length d))) (cs_sha1_init ctx) ds)
    cs_sha1_final = Some (fips_sha1 (concat ds))"
  using sha1_fed_feed [OF assms] sha1_final_fips by auto

definition sha1_ctx0 :: cs_sha1_ctx where
  "sha1_ctx0 = \<lparr>sha1_state = (0, 0, 0, 0, 0), sha1_count = (0, 0), sha1_buffer = replicate 64 0\<rparr>"

lemma length_sha1_ctx0 [simp]: "length (sha1_buffer sha1_ctx0) = 64"
  by (simp add: sha1_ctx0_def)

theorem cs_sha1_fips180_witness:
  "Option.bind (hash_feed (\<lambda>c d. cs_sha1_update c d (of_nat (length d))) (cs_sha1_init sha1_ctx0)
      [str ''ab'', str ''c'']) cs_sha1_final = Some (fips_sha1 (str ''abc''))"
  using cs_sha1_fips180 [of sha1_ctx0 "[str ''ab'', str ''c'']"] by simp

text \<open>C13. \<open>cs_hmac_sha1\<close> is the HMAC-SHA1 of RFC 2104 for keys and data shorter than
  \<open>2 ^ 32 - 63\<close> bytes, long keys being hashed first.\<close>

theorem cs_hmac_sha1_rfc2104:
  assumes "length (sha1_buffer ctx) = 64" and "length key < 2 ^ 32 - 63" and "length data < 2 ^ 32 - 63"
  shows "cs_hmac_sha1 ctx key data = Some (rfc2104_hmac_sha1 key data)"
  using assms by (rule hmac_spec)

theorem cs_hmac_sha1_rfc2104_witness:
  "cs_hmac_sha1 sha1_ctx0 (str ''key'') (str ''data'') = Some (rfc2104_hmac_sha1 (str ''key'') (str ''data''))"
  by (rule cs_hmac_sha1_rfc2104) simp_all

text \<open>Past the limit the 32-bit length arithmetic wraps: with one byte buffered, an update of
  \<open>2 ^ 32 - 1\<close> bytes is taken for a short one and copied over the end of the buffer.\<close>

lemma cs_sha1_update_wraps:
  assumes "drop_bit 3 (fst (sha1_count c)) AND 63 = 1" and "length d = 2 ^ 32 - 1"
  shows "cs_sha1_update c d (of_nat (length d)) = None"
proof -
  have l: "of_nat (length d) = (- 1 :: u32)" by (simp add: assms(2))
  have u: "unat (- 1 :: u32) = 2 ^ 32 - 1" by (simp add: unsigned_minus_1_eq_mask mask_eq_exp_minus_1)
  show ?thesis by (simp add: cs_sha1_update_def Let_def assms l u)
qed

end
