(* ===== verification/Util.thy ===== *)
theory Util
  imports Base64 Mbuf Str
begin

text \<open>
  \<open>mongoose/src/util.c\<close>: tokenising, comma-separated lists, wildcard patterns, base64 into an
  \<open>mbuf\<close> and the basic authorisation header.
\<close>

section \<open>Scanning\<close>

text \<open>The scanning loops \<open>while (s < end && P( *s)) s++\<close> on the memory \<open>mem\<close>.\<close>

function skip_while :: "(u8 \<Rightarrow> bool) \<Rightarrow> bytes \<Rightarrow> nat \<Rightarrow> nat \<Rightarrow> nat option" where
  "skip_while P mem s e =
     (if s < e then do {
        c \<leftarrow> rd mem s;
        if P c then skip_while P mem (s + 1) e else Some s }
      else Some s)"
  by pat_completeness auto
termination by (relation "measure (\<lambda>(P, m, s, e). e - s)") auto

declare skip_while.simps [simp del]

text \<open>\<open>strchr\<close> finds the terminating NUL of \<open>delims\<close> too.\<close>

definition is_delim :: "bytes \<Rightarrow> u8 \<Rightarrow> bool" where
  "is_delim delims c \<longleftrightarrow> c = 0 \<or> c \<in> set delims"

text \<open>\<open>mg_skip\<close>: the token and the position after the delimiters that follow it.\<close>

definition mg_skip :: "bytes \<Rightarrow> nat \<Rightarrow> nat \<Rightarrow> bytes \<Rightarrow> (mg_str \<times> nat) option" where
  "mg_skip mem s e delims = do {
     s1 \<leftarrow> skip_while (\<lambda>c. \<not> is_delim delims c) mem s e;
     s2 \<leftarrow> skip_while (is_delim delims) mem s1 e;
     Some (\<lparr>ms_mem = mem, ms_p = s, ms_len = s1 - s\<rparr>, s2) }"

lemma skip_while_takeWhile:
  assumes "s \<le> e" and "e \<le> length mem"
  shows "skip_while P mem s e = Some (s + length (takeWhile P (bslice mem s (e - s))))"
  using assms
proof (induction P mem s e rule: skip_while.induct)
  case (1 P mem s e)
  show ?case
  proof (cases "s < e")
    case True
    with "1.prems" have d: "bslice mem s (e - s) = mem ! s # bslice mem (s + 1) (e - (s + 1))"
      unfolding bslice_def by (subst Cons_nth_drop_Suc [symmetric]) (simp_all add: take_Cons')
    have r: "rd mem s = Some (mem ! s)" using True "1.prems" by (simp add: rd_def)
    show ?thesis
      unfolding skip_while.simps [of P mem s e] d
      using True r "1.IH" [OF True r] "1.prems" by simp
  qed (use "1.prems" in \<open>simp add: skip_while.simps bslice_def\<close>)
qed

lemma mg_skip_spec:
  assumes "s \<le> e" and "e \<le> length mem"
  shows "mg_skip mem s e delims =
    (let x = bslice mem s (e - s); t = takeWhile (\<lambda>c. \<not> is_delim delims c) x in
     Some (\<lparr>ms_mem = mem, ms_p = s, ms_len = length t\<rparr>,
           s + length t + length (takeWhile (is_delim delims) (drop (length t) x))))"
proof -
  let ?x = "bslice mem s (e - s)"
  let ?t = "takeWhile (\<lambda>c. \<not> is_delim delims c) ?x"
  have "length ?t \<le> length ?x" by (rule length_takeWhile_le)
  then have l: "s + length ?t \<le> e" using assms by (simp add: bslice_def)
  have "bslice mem (s + length ?t) (e - (s + length ?t)) = drop (length ?t) ?x"
    by (simp add: bslice_def drop_take add.commute)
  then show ?thesis
    unfolding mg_skip_def skip_while_takeWhile [OF assms]
    using skip_while_takeWhile [OF l assms(2), of "is_delim delims"] by (simp add: Let_def)
qed

section \<open>Comma-separated lists\<close>

definition c_memchr :: "u8 \<Rightarrow> bytes \<Rightarrow> nat option" where
  "c_memchr c xs = (if c \<in> set xs then Some (length (takeWhile (\<lambda>x. x \<noteq> c) xs)) else None)"

lemma c_memchr_Some:
  assumes "c_memchr c xs = Some k"
  shows "k < length xs" and "xs ! k = c" and "c \<notin> set (take k xs)"
proof -
  from assms have k: "k = length (takeWhile (\<lambda>x. x \<noteq> c) xs)" and c: "c \<in> set xs"
    by (auto simp: c_memchr_def split: if_splits)
  from c show "k < length xs" unfolding k by (induction xs) auto
  then show "xs ! k = c" unfolding k using nth_length_takeWhile by blast
  have "take k xs = takeWhile (\<lambda>x. x \<noteq> c) xs" unfolding k by (rule takeWhile_eq_take [symmetric])
  then show "c \<notin> set (take k xs)" using set_takeWhileD by fastforce
qed

lemma c_memchr_None: "c_memchr c xs = None \<longleftrightarrow> c \<notin> set xs"
  by (simp add: c_memchr_def)

lemma c_memchr_take: "c_memchr c (take n xs) = Some k \<Longrightarrow> k < n"
  using c_memchr_Some(1) [of c "take n xs" k] by simp

text \<open>
  The list is the characters of a C string and \<open>p\<close> a position in it (its end is the NUL).
  NULL is \<open>None\<close>; \<open>eq_val\<close> is \<open>None\<close> when there is no \<open>=\<close> (its pointer is NULL).
\<close>

definition mg_next_comma_list_entry ::
  "bytes \<Rightarrow> nat \<Rightarrow> (nat \<times> mg_str \<times> mg_str option) option"
where
  "mg_next_comma_list_entry l p =
     (if length l \<le> p then None
      else
        let rest = drop p l;
            (len, next) = (case c_memchr (ch (CHR '','')) rest of
                             Some k \<Rightarrow> (k, p + k + 1)
                           | None \<Rightarrow> (length rest, length l))
        in case c_memchr (ch (CHR ''='')) (take len rest) of
             None \<Rightarrow> Some (next, \<lparr>ms_mem = l @ [0], ms_p = p, ms_len = len\<rparr>, None)
           | Some k \<Rightarrow>
               Some (next, \<lparr>ms_mem = l @ [0], ms_p = p, ms_len = k\<rparr>,
                     Some \<lparr>ms_mem = l @ [0], ms_p = p + k + 1, ms_len = len - (k + 1)\<rparr>))"

text \<open>The loop its callers run over a list.\<close>

lemma next_comma_progress:
  "mg_next_comma_list_entry l p = Some (q, v) \<Longrightarrow> p < length l \<and> p < q"
proof -
  assume e: "mg_next_comma_list_entry l p = Some (q, v)"
  then show ?thesis
    by (auto simp: mg_next_comma_list_entry_def Let_def c_memchr_def split: if_splits option.splits)
qed

function comma_entries :: "bytes \<Rightarrow> nat \<Rightarrow> (bytes \<times> bytes option) list" where
  "comma_entries l p =
     (case mg_next_comma_list_entry l p of
        None \<Rightarrow> []
      | Some (q, v, ev) \<Rightarrow> (ms_bytes v, map_option ms_bytes ev) # comma_entries l q)"
  by pat_completeness auto
termination
  by (relation "measure (\<lambda>(l, p). length l + 1 - p)")
     (auto dest!: next_comma_progress)

declare comma_entries.simps [simp del]

section \<open>Wildcard patterns\<close>

text \<open>The length of the longest piece without a slash, from \<open>j + len\<close> on.\<close>

function star_len :: "mg_str \<Rightarrow> nat \<Rightarrow> nat \<Rightarrow> nat option" where
  "star_len s j len =
     (if j + len \<noteq> ms_len s then
        (if length (ms_mem s) \<le> ms_p s + (j + len) then None
         else if ms_mem s ! (ms_p s + (j + len)) \<noteq> ch (CHR ''/'') then star_len s j (len + 1)
         else Some len)
      else Some len)"
  by pat_completeness auto
termination by (relation "measure (\<lambda>(s, j, len). length (ms_mem s) - (ms_p s + (j + len)))") auto

declare star_len.simps [simp del]

text \<open>
  \<open>mg_match_prefix_n\<close>: alternatives split at \<open>|\<close>, the loop over the pattern, and the
  \<open>do ... while\<close> that tries a wildcard's lengths from the longest down.  \<open>None\<close> is a read
  outside the memory of the pattern or the string, or a wildcard at the end of the pattern
  followed in memory by another \<open>*\<close>, where the remaining length wraps around.  The lengths that are
  returned are converted from \<open>size_t\<close> to \<open>int\<close>.
\<close>

function mg_match_prefix_n :: "mg_str \<Rightarrow> mg_str \<Rightarrow> int option"
  and match_from :: "mg_str \<Rightarrow> mg_str \<Rightarrow> nat \<Rightarrow> nat \<Rightarrow> int option"
  and match_star :: "mg_str \<Rightarrow> mg_str \<Rightarrow> nat \<Rightarrow> nat \<Rightarrow> nat \<Rightarrow> int option"
where
  "mg_match_prefix_n pattern s =
     (case c_memchr (ch (CHR ''|'')) (take (ms_len pattern) (drop (ms_p pattern) (ms_mem pattern))) of
        Some k \<Rightarrow> do {
          res \<leftarrow> mg_match_prefix_n (pattern\<lparr>ms_len := k\<rparr>) s;
          if res > 0 then Some res
          else mg_match_prefix_n
                 (pattern\<lparr>ms_p := ms_p pattern + k + 1, ms_len := ms_len pattern - (k + 1)\<rparr>) s }
      | None \<Rightarrow> match_from pattern s 0 0)"
| "match_from pattern s i j =
     (if i < ms_len pattern then do {
        c \<leftarrow> ms_at pattern i;
        if c = ch (CHR ''?'') \<and> j \<noteq> ms_len s then match_from pattern s (i + 1) (j + 1)
        else if c = ch (CHR ''$'') then Some (if j = ms_len s then c_int (int j) else -1)
        else if c = ch (CHR ''*'') then do {
          c' \<leftarrow> ms_at pattern (i + 1);
          (if c' = ch (CHR ''*'') then
             (if j \<le> ms_len s then
                if i + 2 = ms_len pattern then Some (c_int (int (ms_len s)))
                else match_star pattern s (i + 2) j (ms_len s - j)
              else None)
           else do {
             len \<leftarrow> star_len s j 0;
             if i + 1 = ms_len pattern then Some (c_int (int (j + len)))
             else match_star pattern s (i + 1) j len }) }
        else do {
          d \<leftarrow> ms_at s j;
          if tolower c \<noteq> tolower d then Some (-1) else match_from pattern s (i + 1) (j + 1) } }
      else Some (c_int (int j)))"
| "match_star pattern s i j len =
     (if 0 < i \<and> i \<le> ms_len pattern then do {
        res \<leftarrow> mg_match_prefix_n
                 (pattern\<lparr>ms_p := ms_p pattern + i, ms_len := ms_len pattern - i\<rparr>)
                 (s\<lparr>ms_p := ms_p s + j + len, ms_len := ms_len s - j - len\<rparr>);
        if res = -1 \<and> len > 0 then match_star pattern s i j (len - 1)
        else Some (if res = -1 then -1 else c_int (int j + res + int len)) }
      else None)"
  by pat_completeness auto
termination
  by (relation "measures [\<lambda>x. case x of Inl p \<Rightarrow> ms_len (fst p) | Inr (Inl p) \<Rightarrow> ms_len (fst p) | Inr (Inr p) \<Rightarrow> ms_len (fst p),
      \<lambda>x. case x of Inl p \<Rightarrow> 2 | Inr (Inl p) \<Rightarrow> 1 | Inr (Inr p) \<Rightarrow> 0,
      \<lambda>x. case x of Inl p \<Rightarrow> 0 | Inr (Inl (p, s, i, j)) \<Rightarrow> ms_len p - i | Inr (Inr (p, s, i, j, len)) \<Rightarrow> len]")
     (auto dest!: c_memchr_take)

declare mg_match_prefix_n.simps [simp del] match_from.simps [simp del] match_star.simps [simp del]

definition mg_match_prefix :: "bytes \<Rightarrow> nat \<Rightarrow> bytes \<Rightarrow> int option" where
  "mg_match_prefix pattern pattern_len s =
     mg_match_prefix_n \<lparr>ms_mem = pattern, ms_p = 0, ms_len = pattern_len\<rparr> (mg_mk_str s)"

section \<open>Base64 into a buffer\<close>

text \<open>The callback appends to the \<open>mbuf\<close> its user data points to; \<open>None\<close> is a failed assertion.\<close>

definition mg_mbuf_append_base64_putc :: "realloc \<Rightarrow> u8 \<Rightarrow> mbuf option \<Rightarrow> mbuf option" where
  "mg_mbuf_append_base64_putc ra c m = mbuf_push ra m [c]"

definition b64_ctx0 :: "'u \<Rightarrow> 'u cs_base64_ctx" where
  "b64_ctx0 u = \<lparr>chunk = [0, 0, 0], chunk_size = 0, b64_putc = (\<lambda>c u. u), user_data = u\<rparr>"

definition mg_mbuf_append_base64 :: "realloc \<Rightarrow> mbuf \<Rightarrow> bytes \<Rightarrow> mbuf option" where
  "mg_mbuf_append_base64 ra m d =
     user_data (cs_base64_finish (cs_base64_update
       (cs_base64_init (b64_ctx0 (Some m)) (mg_mbuf_append_base64_putc ra) (Some m)) d))"

text \<open>\<open>mg_basic_auth_header\<close>; \<open>pass\<close> is \<open>None\<close> for NULL.  The context holds the buffer from the
  start in the code; here it is handed over after the prefix has been appended.\<close>

definition mg_basic_auth_header :: "realloc \<Rightarrow> bytes \<Rightarrow> bytes option \<Rightarrow> mbuf \<Rightarrow> mbuf option" where
  "mg_basic_auth_header ra user pass buf =
     (let m1 = mbuf_push ra (Some buf) (str ''Authorization: Basic '');
          c1 = cs_base64_update (cs_base64_init (b64_ctx0 m1) (mg_mbuf_append_base64_putc ra) m1) user;
          c2 = (case pass of None \<Rightarrow> c1
                | Some p \<Rightarrow> cs_base64_update (cs_base64_update c1 [ch (CHR '':'')]) p);
          m2 = user_data (cs_base64_finish c2)
      in mbuf_push ra m2 [13, 10])"

section \<open>What a pattern without alternatives matches\<close>

text \<open>\<open>pm p s n\<close>: pattern \<open>p\<close> matches the first \<open>n\<close> bytes of \<open>s\<close>.\<close>

definition wild :: "u8 set" where
  "wild = {ch (CHR ''?''), ch (CHR ''$''), ch (CHR ''*'')}"

inductive pm :: "bytes \<Rightarrow> bytes \<Rightarrow> nat \<Rightarrow> bool" where
  pm_end: "pm [] s 0"
| pm_any: "pm p s n \<Longrightarrow> pm (ch (CHR ''?'') # p) (c # s) (Suc n)"
| pm_eos: "pm (ch (CHR ''$'') # p) [] 0"
| pm_lit: "c \<notin> wild \<Longrightarrow> tolower c = tolower d \<Longrightarrow> pm p s n \<Longrightarrow> pm (c # p) (d # s) (Suc n)"
| pm_star: "p = [] \<or> hd p \<noteq> ch (CHR ''*'') \<Longrightarrow> ch (CHR ''/'') \<notin> set a \<Longrightarrow> pm p s n \<Longrightarrow>
    pm (ch (CHR ''*'') # p) (a @ s) (length a + n)"
| pm_star2: "pm p s n \<Longrightarrow> pm (ch (CHR ''*'') # ch (CHR ''*'') # p) (a @ s) (length a + n)"

lemma wild_neq:
  "ch (CHR ''?'') \<noteq> ch (CHR ''$'')" "ch (CHR ''?'') \<noteq> ch (CHR ''*'')" "ch (CHR ''$'') \<noteq> ch (CHR ''*'')"
  "ch (CHR ''$'') \<noteq> ch (CHR ''?'')" "ch (CHR ''*'') \<noteq> ch (CHR ''?'')" "ch (CHR ''*'') \<noteq> ch (CHR ''$'')"
  by (simp_all add: ch_def)

inductive_cases pm_NilE: "pm [] s n"
inductive_cases pm_ConsE: "pm (c # p) s n"

lemma pm_Nil [simp]: "pm [] s n \<longleftrightarrow> n = 0"
  by (auto elim: pm_NilE intro: pm_end)

lemma pm_any_iff: "pm (ch (CHR ''?'') # p) s n \<longleftrightarrow> (\<exists>c s' m. s = c # s' \<and> n = Suc m \<and> pm p s' m)"
  by (auto elim!: pm_ConsE intro: pm_any simp: wild_def wild_neq)

lemma pm_eos_iff: "pm (ch (CHR ''$'') # p) s n \<longleftrightarrow> s = [] \<and> n = 0"
  by (auto elim!: pm_ConsE intro: pm_eos simp: wild_def wild_neq)

lemma pm_lit_iff:
  "c \<notin> wild \<Longrightarrow> pm (c # p) s n \<longleftrightarrow> (\<exists>d s' m. s = d # s' \<and> tolower c = tolower d \<and> n = Suc m \<and> pm p s' m)"
  by (auto elim!: pm_ConsE intro: pm_lit simp: wild_def)

lemma takeWhile_prefix:
  "(\<exists>a s'. s = a @ s' \<and> x \<notin> set a \<and> Q (length a) s') \<longleftrightarrow>
   (\<exists>l \<le> length (takeWhile (\<lambda>c. c \<noteq> x) s). Q l (drop l s))"
proof
  assume "\<exists>a s'. s = a @ s' \<and> x \<notin> set a \<and> Q (length a) s'"
  then obtain a s' where s: "s = a @ s'" "x \<notin> set a" "Q (length a) s'" by blast
  then have "length a \<le> length (takeWhile (\<lambda>c. c \<noteq> x) s)"
    by (subst s(1), subst takeWhile_append2) auto
  with s show "\<exists>l \<le> length (takeWhile (\<lambda>c. c \<noteq> x) s). Q l (drop l s)" by (intro exI [of _ "length a"]) simp
next
  assume "\<exists>l \<le> length (takeWhile (\<lambda>c. c \<noteq> x) s). Q l (drop l s)"
  then obtain l where l: "l \<le> length (takeWhile (\<lambda>c. c \<noteq> x) s)" "Q l (drop l s)" by blast
  then have "take l s = take l (takeWhile (\<lambda>c. c \<noteq> x) s)"
    by (metis append_take_drop_id takeWhile_eq_take take_take min.absorb1)
  then have "x \<notin> set (take l s)" by (metis (mono_tags, lifting) in_set_takeD set_takeWhileD)
  moreover have "l \<le> length s" using l(1) length_takeWhile_le order_trans by blast
  ultimately show "\<exists>a s'. s = a @ s' \<and> x \<notin> set a \<and> Q (length a) s'"
    using l(2) by (intro exI [of _ "take l s"] exI [of _ "drop l s"]) simp
qed

lemma pm_star_iff:
  assumes "p = [] \<or> hd p \<noteq> ch (CHR ''*'')"
  shows "pm (ch (CHR ''*'') # p) s n \<longleftrightarrow>
    (\<exists>l \<le> length (takeWhile (\<lambda>c. c \<noteq> ch (CHR ''/'')) s). \<exists>m. n = l + m \<and> pm p (drop l s) m)"
  unfolding takeWhile_prefix [symmetric, where Q = "\<lambda>l s'. \<exists>m. n = l + m \<and> pm p s' m"]
  using assms by (auto elim!: pm_ConsE intro: pm_star simp: wild_def wild_neq)

lemma pm_star2_iff:
  "pm (ch (CHR ''*'') # ch (CHR ''*'') # p) s n \<longleftrightarrow> (\<exists>l \<le> length s. \<exists>m. n = l + m \<and> pm p (drop l s) m)"
proof
  assume "pm (ch (CHR ''*'') # ch (CHR ''*'') # p) s n"
  then obtain a s' m where "s = a @ s'" "n = length a + m" "pm p s' m"
    by (auto elim!: pm_ConsE simp: wild_def wild_neq)
  then show "\<exists>l \<le> length s. \<exists>m. n = l + m \<and> pm p (drop l s) m" by (intro exI [of _ "length a"]) simp
next
  assume "\<exists>l \<le> length s. \<exists>m. n = l + m \<and> pm p (drop l s) m"
  then obtain l m where l: "l \<le> length s" "n = l + m" "pm p (drop l s) m" by blast
  then show "pm (ch (CHR ''*'') # ch (CHR ''*'') # p) s n"
    using pm_star2 [OF l(3), of "take l s"] by simp
qed

lemma pm_bound: "pm p s n \<Longrightarrow> n \<le> length s"
  by (induction rule: pm.induct) auto

text \<open>A match that starts later and exists at all can be had to end no earlier: so trying the longest stretch for a
  star first finds the longest match.\<close>

lemma pm_mono:
  "pm p s m \<Longrightarrow> pm p (drop d s) n \<Longrightarrow> d \<le> length s \<Longrightarrow> \<exists>n'. pm p (drop d s) n' \<and> m \<le> d + n'"
proof (induction arbitrary: d n rule: pm.induct)
  case (pm_any p s m c)
  then obtain c' s' n0 where d: "drop d (c # s) = c' # s'" "pm p s' n0" by (auto simp: pm_any_iff)
  then have "s' = drop d s" by (metis drop_Suc drop_tl list.sel(3))
  moreover from this d have "d \<le> length s" using pm_any.prems(2) by (cases "d = Suc (length s)") auto
  ultimately obtain n' where "pm p (drop d s) n'" "m \<le> d + n'" using pm_any.IH d(2) by blast
  then show ?case using d(1) \<open>s' = drop d s\<close> by (intro exI [of _ "Suc n'"]) (simp add: pm_any_iff)
next
  case (pm_lit c d0 p s m)
  then obtain c' s' n0 where d: "drop d (d0 # s) = c' # s'" "tolower c = tolower c'" "pm p s' n0" by (auto simp: pm_lit_iff)
  then have "s' = drop d s" by (metis drop_Suc drop_tl list.sel(3))
  moreover from this d have "d \<le> length s" using pm_lit.prems(2) by (cases "d = Suc (length s)") auto
  ultimately obtain n' where "pm p (drop d s) n'" "m \<le> d + n'" using pm_lit.IH d(3) by blast
  then show ?case using d(1,2) \<open>s' = drop d s\<close> pm_lit.hyps(1) by (intro exI [of _ "Suc n'"]) (simp add: pm_lit_iff)
next
  case (pm_star p a s m)
  let ?P = "ch (CHR ''*'') # p"
  obtain l n0 where l: "l \<le> length (takeWhile (\<lambda>c. c \<noteq> ch (CHR ''/'')) (drop d (a @ s)))" "pm p (drop l (drop d (a @ s))) n0"
    using pm_star.prems(1) unfolding pm_star_iff [OF pm_star.hyps(1)] by blast
  show ?case
  proof (cases "length a \<le> d + l")
    case True
    let ?k = "d + l - length a"
    have k: "l + (d - length a) - (length a - d) = ?k" using True by linarith
    then have "drop l (drop d (a @ s)) = drop ?k s" using True by (simp add: drop_append)
    moreover have "l \<le> length (drop d (a @ s))" using l(1) length_takeWhile_le order_trans by blast
    then have "?k \<le> length s" using pm_star.prems(2) by simp
    ultimately obtain n' where n: "pm p (drop ?k s) n'" "m \<le> ?k + n'" using pm_star.IH l(2) by metis
    have "pm ?P (drop d (a @ s)) (l + n')"
      unfolding pm_star_iff [OF pm_star.hyps(1)] using l(1) n(1) \<open>drop l (drop d (a @ s)) = drop ?k s\<close> by auto
    then show ?thesis using n(2) True by (intro exI [of _ "l + n'"]) simp
  next
    case False
    have "ch (CHR ''/'') \<notin> set (drop d a)" using pm_star.hyps(2) by (auto dest: in_set_dropD)
    from pm.pm_star [OF pm_star.hyps(1) this pm_star.hyps(3)] False
    show ?thesis by (intro exI [of _ "length (drop d a) + m"]) simp
  qed
next
  case (pm_star2 p s m a)
  let ?P = "ch (CHR ''*'') # ch (CHR ''*'') # p"
  obtain l n0 where l: "l \<le> length (drop d (a @ s))" "pm p (drop l (drop d (a @ s))) n0"
    using pm_star2.prems(1) unfolding pm_star2_iff by blast
  show ?case
  proof (cases "length a \<le> d + l")
    case True
    let ?k = "d + l - length a"
    have "l + (d - length a) - (length a - d) = ?k" using True by linarith
    then have e: "drop l (drop d (a @ s)) = drop ?k s" using True by (simp add: drop_append)
    moreover have "?k \<le> length s" using pm_star2.prems(2) l(1) by simp
    ultimately obtain n' where n: "pm p (drop ?k s) n'" "m \<le> ?k + n'" using pm_star2.IH l(2) by metis
    have "pm ?P (drop d (a @ s)) (l + n')" unfolding pm_star2_iff using l(1) n(1) e by auto
    then show ?thesis using n(2) True by (intro exI [of _ "l + n'"]) simp
  next
    case False
    from pm.pm_star2 [OF pm_star2.hyps, of "drop d a"] False
    show ?thesis by (intro exI [of _ "length (drop d a) + m"]) simp
  qed
qed auto

text \<open>The longest prefix that matches.\<close>

definition longest :: "bytes \<Rightarrow> bytes \<Rightarrow> nat \<Rightarrow> bool" where
  "longest p s n \<longleftrightarrow> pm p s n \<and> (\<forall>m. pm p s m \<longrightarrow> m \<le> n)"

section \<open>The matcher\<close>

text \<open>The byte behind the string is \<open>e\<close>, which is none of the pattern's, in either case.\<close>

definition pat_ok :: "u8 \<Rightarrow> mg_str \<Rightarrow> bool" where
  "pat_ok e p \<longleftrightarrow> ms_p p + ms_len p < length (ms_mem p) \<and> ms_mem p ! (ms_p p + ms_len p) \<noteq> ch (CHR ''*'') \<and>
     ch (CHR ''|'') \<notin> set (ms_bytes p) \<and> (\<forall>c \<in> set (ms_bytes p). tolower c \<noteq> tolower e)"

definition str_ok :: "u8 \<Rightarrow> mg_str \<Rightarrow> bool" where
  "str_ok e s \<longleftrightarrow> ms_len s < 2 ^ 31 \<and> ms_p s + ms_len s < length (ms_mem s) \<and> ms_mem s ! (ms_p s + ms_len s) = e"

definition verdict :: "bytes \<Rightarrow> bytes \<Rightarrow> nat \<Rightarrow> int \<Rightarrow> bool" where
  "verdict p s j r \<longleftrightarrow> (if r = -1 then \<forall>n. \<not> pm p s n else \<exists>n. r = int j + int n \<and> longest p s n)"

lemma c_int_fits: "0 \<le> n \<Longrightarrow> n < 2 ^ 31 \<Longrightarrow> c_int n = n"
  unfolding c_int_def by (rule signed_take_bit_int_eq_self) simp_all

lemma pat_valid: "pat_ok e p \<Longrightarrow> ms_valid p"
  by (simp add: pat_ok_def ms_valid_def)

lemma str_valid: "str_ok e s \<Longrightarrow> ms_valid s"
  by (simp add: str_ok_def ms_valid_def)

lemma ms_suffix:
  assumes "ms_valid p" and "i \<le> ms_len p"
  shows "ms_bytes (p\<lparr>ms_p := ms_p p + i, ms_len := ms_len p - i\<rparr>) = drop i (ms_bytes p)"
  by (simp add: ms_bytes_def bslice_def drop_take add.commute)

lemma pat_ok_suffix: "pat_ok e p \<Longrightarrow> i \<le> ms_len p \<Longrightarrow> pat_ok e (p\<lparr>ms_p := ms_p p + i, ms_len := ms_len p - i\<rparr>)"
  using ms_suffix [OF pat_valid, of e p i] by (auto simp: pat_ok_def dest: in_set_dropD)

lemma str_ok_suffix: "str_ok e s \<Longrightarrow> i \<le> ms_len s \<Longrightarrow> str_ok e (s\<lparr>ms_p := ms_p s + i, ms_len := ms_len s - i\<rparr>)"
  by (auto simp: str_ok_def)

lemma str_ok_c_int: "str_ok e s \<Longrightarrow> k \<le> ms_len s \<Longrightarrow> c_int (int k) = int k"
  by (rule c_int_fits) (simp_all add: str_ok_def)

lemma star_len_spec:
  assumes "str_ok e s"
  shows "j + len \<le> ms_len s \<Longrightarrow> star_len s j len =
    Some (len + length (takeWhile (\<lambda>c. c \<noteq> ch (CHR ''/'')) (drop (j + len) (ms_bytes s))))"
  using assms
proof (induction s j len rule: star_len.induct)
  case (1 s j len)
  note l = length_ms_bytes [OF str_valid [OF "1.prems"(2)]]
  show ?case
  proof (cases "j + len = ms_len s")
    case False
    with "1.prems"(1) have lt: "j + len < ms_len s" by simp
    let ?c = "ms_bytes s ! (j + len)"
    have d: "drop (j + len) (ms_bytes s) = ?c # drop (j + (len + 1)) (ms_bytes s)"
      using lt l by (simp add: Cons_nth_drop_Suc)
    have m: "\<not> length (ms_mem s) \<le> ms_p s + (j + len)" "ms_mem s ! (ms_p s + (j + len)) = ?c"
      using lt "1.prems"(2) by (simp_all add: str_ok_def ms_bytes_def bslice_def)
    show ?thesis
      unfolding star_len.simps [of s j len] d
      using False lt m "1.IH" "1.prems"(2) by auto
  qed (use l in \<open>simp add: star_len.simps\<close>)
qed


lemma wild_cases: "c \<notin> wild \<longleftrightarrow> c \<noteq> ch (CHR ''?'') \<and> c \<noteq> ch (CHR ''$'') \<and> c \<noteq> ch (CHR ''*'')"
  by (simp add: wild_def)

definition star_verdict :: "bytes \<Rightarrow> bytes \<Rightarrow> nat \<Rightarrow> nat \<Rightarrow> int \<Rightarrow> bool" where
  "star_verdict p s j len r \<longleftrightarrow>
     (if r = -1 then \<forall>l \<le> len. \<forall>n. \<not> pm p (drop l s) n
      else \<exists>l \<le> len. \<exists>n. r = int j + int (l + n) \<and> longest p (drop l s) n \<and>
        (\<forall>l' \<le> len. l < l' \<longrightarrow> (\<forall>m. \<not> pm p (drop l' s) m)))"

lemma verdict_shift:
  assumes "\<And>n. pm p s n \<longleftrightarrow> (\<exists>m. n = Suc m \<and> pm p' s' m)"
    and "verdict p' s' (j + 1) r"
  shows "verdict p s j r"
proof (cases "r = -1")
  case False
  with assms(2) obtain n where n: "r = int (j + 1) + int n" "longest p' s' n" by (auto simp: verdict_def)
  then have "longest p s (Suc n)" using assms(1) by (auto simp: longest_def)
  with n(1) have "r = int j + int (Suc n) \<and> longest p s (Suc n)" by simp
  with False show ?thesis unfolding verdict_def by (simp only: if_False) blast
qed (use assms in \<open>auto simp: verdict_def\<close>)

lemma star_to_verdict:
  assumes "\<And>n. pm p s n \<longleftrightarrow> (\<exists>l \<le> len. \<exists>m. n = l + m \<and> pm p' (drop l s) m)"
    and "star_verdict p' s j len r" and "len \<le> length s"
  shows "verdict p s j r"
proof (cases "r = -1")
  case False
  with assms(2) obtain l n where l: "l \<le> len" "r = int j + int (l + n)" "longest p' (drop l s) n"
    "\<forall>l' \<le> len. l < l' \<longrightarrow> (\<forall>m. \<not> pm p' (drop l' s) m)"
    by (auto simp: star_verdict_def)
  then have "pm p s (l + n)" using assms(1) by (auto simp: longest_def)
  moreover have "x \<le> l + n" if "pm p s x" for x
  proof -
    from that assms(1) obtain l' m where m: "l' \<le> len" "x = l' + m" "pm p' (drop l' s) m" by blast
    then have "l' \<le> l" using l(4) by (meson not_le)
    then have "drop (l - l') (drop l' s) = drop l s" "l - l' \<le> length (drop l' s)" using l(1) assms(3) by simp_all
    then obtain n' where "pm p' (drop l s) n'" "m \<le> (l - l') + n'" using pm_mono [OF m(3), of "l - l'" n] l(3) by (auto simp: longest_def)
    then show ?thesis using l(3) m(2) \<open>l' \<le> l\<close> by (fastforce simp: longest_def)
  qed
  ultimately have "longest p s (l + n)" by (simp add: longest_def)
  with False l(2) show ?thesis unfolding verdict_def by (auto intro!: exI [of _ "l + n"])
qed (use assms in \<open>auto simp: verdict_def star_verdict_def\<close>)

lemma match_step:
  fixes s :: mg_str
  assumes p: "pat_ok e p" and s: "str_ok e s" and i: "i \<le> ms_len p" and j: "j \<le> ms_len s"
    and any: "i < ms_len p \<Longrightarrow> j < ms_len s \<Longrightarrow>
      \<exists>r. match_from p s (i + 1) (j + 1) = Some r \<and> verdict (drop (i + 1) (ms_bytes p)) (drop (j + 1) (ms_bytes s)) (j + 1) r"
    and star: "\<And>k len. i < k \<Longrightarrow> k \<le> ms_len p \<Longrightarrow> j + len \<le> ms_len s \<Longrightarrow>
      \<exists>r. match_star p s k j len = Some r \<and> star_verdict (drop k (ms_bytes p)) (drop j (ms_bytes s)) j len r"
  shows "\<exists>r. match_from p s i j = Some r \<and> verdict (drop i (ms_bytes p)) (drop j (ms_bytes s)) j r"
proof (cases "i < ms_len p")
  case False
  with i have "drop i (ms_bytes p) = []" using length_ms_bytes [OF pat_valid [OF p]] by simp
  with False show ?thesis by (simp add: match_from.simps verdict_def longest_def str_ok_c_int [OF s j])
next
  case True
  note ci = str_ok_c_int [OF s]
  let ?P = "ms_bytes p" and ?S = "ms_bytes s"
  note lP = length_ms_bytes [OF pat_valid [OF p]] and lS = length_ms_bytes [OF str_valid [OF s]]
  define c where "c = ?P ! i"
  have at: "ms_at p i = Some c" using True pat_valid [OF p] by (simp add: ms_at_valid c_def)
  have dP: "drop i ?P = c # drop (i + 1) ?P" using True lP by (simp add: c_def Cons_nth_drop_Suc)
  have "c \<in> set ?P" using True lP by (simp add: c_def)
  then have c0: "tolower c \<noteq> tolower e" using p by (auto simp: pat_ok_def)
  have dS: "drop j ?S = ?S ! j # drop (j + 1) ?S" if "j < ms_len s" using that lS by (simp add: Cons_nth_drop_Suc)
  have lenS: "length (drop j ?S) = ms_len s - j" using lS by simp
  have eS: "drop j ?S = []" if "\<not> j < ms_len s" using that j lS by simp
  consider (any) "c = ch (CHR ''?'')" "j < ms_len s" | (eos) "c = ch (CHR ''$'')" | (star) "c = ch (CHR ''*'')"
    | (lit) "c \<noteq> ch (CHR ''$'')" "c \<noteq> ch (CHR ''*'')" "c \<noteq> ch (CHR ''?'') \<or> j = ms_len s"
    using j by fastforce
  then show ?thesis
  proof cases
    case any
    from any(2) assms(5) [OF True] obtain r where
      r: "match_from p s (i + 1) (j + 1) = Some r" "verdict (drop (i + 1) ?P) (drop (j + 1) ?S) (j + 1) r" by blast
    have "verdict (drop i ?P) (drop j ?S) j r"
      unfolding dP dS [OF any(2)] any(1) by (rule verdict_shift [OF _ r(2)]) (simp add: pm_any_iff)
    with any True at r(1) show ?thesis by (simp add: match_from.simps [of p s i j])
  next
    case eos
    then have "match_from p s i j = Some (if j = ms_len s then int j else -1)"
      using True at ci [of "ms_len s"] by (simp add: match_from.simps [of p s i j] wild_neq)
    moreover have "drop j ?S = [] \<longleftrightarrow> j = ms_len s" using lS j by auto
    ultimately show ?thesis unfolding dP eos by (auto simp: verdict_def longest_def pm_eos_iff)
  next
    case star
    let ?c' = "ms_mem p ! (ms_p p + (i + 1))"
    have at': "ms_at p (i + 1) = Some ?c'" using True p by (simp add: ms_at_def rd_def pat_ok_def)
    have c'P: "?c' = ?P ! (i + 1)" if "i + 1 < ms_len p"
      using that at' ms_at_valid [OF pat_valid [OF p] that] by simp
    show ?thesis
    proof (cases "?c' = ch (CHR ''*'')")
      case True2: True
      have i1: "i + 1 < ms_len p"
      proof (rule ccontr)
        assume "\<not> i + 1 < ms_len p"
        with \<open>i < ms_len p\<close> have "i + 1 = ms_len p" by simp
        with True2 have "ms_mem p ! (ms_p p + ms_len p) = ch (CHR ''*'')" by (simp only:)
        with p show False by (simp add: pat_ok_def)
      qed
      have dP2: "drop i ?P = ch (CHR ''*'') # ch (CHR ''*'') # drop (i + 2) ?P"
        unfolding dP star using i1 lP c'P [OF i1] True2 by (simp add: Cons_nth_drop_Suc [symmetric])
      have iff: "pm (drop i ?P) (drop j ?S) n \<longleftrightarrow>
          (\<exists>l \<le> ms_len s - j. \<exists>m. n = l + m \<and> pm (drop (i + 2) ?P) (drop l (drop j ?S)) m)" for n
        unfolding dP2 pm_star2_iff using lS by simp
      have from_eq: "match_from p s i j = (if i + 2 = ms_len p then Some (int (ms_len s))
          else match_star p s (i + 2) j (ms_len s - j))"
        using star True at at' True2 j ci [of "ms_len s"] by (simp add: match_from.simps [of p s i j] wild_neq)
      show ?thesis
      proof (cases "i + 2 = ms_len p")
        case True
        then have "drop (i + 2) ?P = []" using lP by simp
        with True from_eq iff j show ?thesis
          by (intro exI [of _ "int (ms_len s)"]) (auto simp: verdict_def longest_def intro!: exI [of _ "ms_len s - j"])
      next
        case False
        with assms(6) [of "i + 2" "ms_len s - j"] i1 j obtain r where
          "match_star p s (i + 2) j (ms_len s - j) = Some r"
          "star_verdict (drop (i + 2) ?P) (drop j ?S) j (ms_len s - j) r" by auto
        with False from_eq star_to_verdict [OF iff] lS lenS show ?thesis by auto
      qed
    next
      case False
      have hd: "drop (i + 1) ?P = [] \<or> hd (drop (i + 1) ?P) \<noteq> ch (CHR ''*'')"
        using False c'P lP by (cases "i + 1 < ms_len p") (simp_all add: hd_drop_conv_nth)
      define len where "len = length (takeWhile (\<lambda>c. c \<noteq> ch (CHR ''/'')) (drop j ?S))"
      have sl: "star_len s j 0 = Some len" using star_len_spec [OF s, of j 0] j by (simp add: len_def)
      have lenb: "j + len \<le> ms_len s"
      proof -
        have "len \<le> length (drop j ?S)" unfolding len_def by (rule length_takeWhile_le)
        then show ?thesis using lS j by simp
      qed
      have iff: "pm (drop i ?P) (drop j ?S) n \<longleftrightarrow>
          (\<exists>l \<le> len. \<exists>m. n = l + m \<and> pm (drop (i + 1) ?P) (drop l (drop j ?S)) m)" for n
        unfolding dP star pm_star_iff [OF hd] len_def by simp
      have from_eq: "match_from p s i j = (if i + 1 = ms_len p then Some (int (j + len))
          else match_star p s (i + 1) j len)"
        using star True at at' False sl ci [OF lenb] by (simp add: match_from.simps [of p s i j] wild_neq)
      show ?thesis
      proof (cases "i + 1 = ms_len p")
        case True
        then have "drop (i + 1) ?P = []" using lP by simp
        with True from_eq iff show ?thesis
          by (intro exI [of _ "int (j + len)"]) (auto simp: verdict_def longest_def intro!: exI [of _ len])
      next
        case False
        with assms(6) [of "i + 1" len] True lenb obtain r where
          "match_star p s (i + 1) j len = Some r"
          "star_verdict (drop (i + 1) ?P) (drop j ?S) j len r" by auto
        with False from_eq star_to_verdict [OF iff] lS lenS lenb show ?thesis by auto
      qed
    qed
  next
    case lit
    let ?d = "ms_mem s ! (ms_p s + j)"
    have d: "ms_at s j = Some ?d" using j s by (simp add: ms_at_def rd_def str_ok_def)
    have from_eq: "match_from p s i j = (if tolower c \<noteq> tolower ?d then Some (-1) else match_from p s (i + 1) (j + 1))"
      using lit True at d by (auto simp: match_from.simps [of p s i j])
    show ?thesis
    proof (cases "j < ms_len s")
      case False
      with j have je: "j = ms_len s" by simp
      then have "?d = e" using s by (simp add: str_ok_def)
      with c0 have "tolower c \<noteq> tolower ?d" by simp
      moreover have "\<not> pm (c # drop (i + 1) ?P) [] n" for n
        using lit(1,2) by (cases "c = ch (CHR ''?'')") (simp_all add: pm_any_iff pm_lit_iff wild_cases)
      ultimately show ?thesis using from_eq unfolding dP eS [OF False] by (simp add: verdict_def)
    next
      case jl: True
      with lit(3) have "c \<notin> wild" using lit by (simp add: wild_cases)
      note iff = pm_lit_iff [OF this]
      have dd: "?S ! j = ?d" using ms_at_valid [OF str_valid [OF s] jl] d by simp
      show ?thesis
      proof (cases "tolower c = tolower ?d")
        case True
        from assms(5) [OF \<open>i < ms_len p\<close> jl] obtain r where
          r: "match_from p s (i + 1) (j + 1) = Some r" "verdict (drop (i + 1) ?P) (drop (j + 1) ?S) (j + 1) r" by blast
        have "verdict (drop i ?P) (drop j ?S) j r"
          unfolding dP dS [OF jl] by (rule verdict_shift [OF _ r(2)]) (simp add: iff dd True)
        with r(1) True from_eq show ?thesis by simp
      next
        case False
        then show ?thesis using from_eq unfolding dP dS [OF jl] by (simp add: verdict_def iff dd)
      qed
    qed
  qed
qed


lemma match_star_spec:
  assumes IH: "\<And>s. str_ok e s \<Longrightarrow> \<exists>r. mg_match_prefix_n (p\<lparr>ms_p := ms_p p + i, ms_len := ms_len p - i\<rparr>) s = Some r \<and>
      verdict (drop i (ms_bytes p)) (ms_bytes s) 0 r"
    and s: "str_ok e s" and i: "0 < i" "i \<le> ms_len p"
  shows "j + len \<le> ms_len s \<Longrightarrow>
     \<exists>r. match_star p s i j len = Some r \<and> star_verdict (drop i (ms_bytes p)) (drop j (ms_bytes s)) j len r"
proof (induction len rule: less_induct)
  case (less len)
  note b = less.prems
  let ?P = "drop i (ms_bytes p)" and ?S = "drop j (ms_bytes s)"
  let ?s = "s\<lparr>ms_p := ms_p s + (j + len), ms_len := ms_len s - (j + len)\<rparr>"
  have eq: "s\<lparr>ms_p := ms_p s + j + len, ms_len := ms_len s - j - len\<rparr> = ?s" by simp
  from IH [OF str_ok_suffix [OF s b]] obtain res where
    res: "mg_match_prefix_n (p\<lparr>ms_p := ms_p p + i, ms_len := ms_len p - i\<rparr>) ?s = Some res"
    "verdict ?P (drop len ?S) 0 res"
    unfolding ms_suffix [OF str_valid [OF s] b] by (auto simp: add.commute)
  have ci: "res \<noteq> -1 \<Longrightarrow> c_int (int j + res + int len) = int j + res + int len"
  proof -
    assume "res \<noteq> -1"
    with res(2) obtain n where n: "res = int n" "pm ?P (drop len ?S) n" by (auto simp: verdict_def longest_def)
    have "n \<le> ms_len s - j - len" using pm_bound [OF n(2)] length_ms_bytes [OF str_valid [OF s]] by simp
    then have "j + n + len \<le> ms_len s" using b by linarith
    from str_ok_c_int [OF s this] show ?thesis by (simp add: n(1))
  qed
  have step: "match_star p s i j len = (if res = -1 \<and> len > 0 then match_star p s i j (len - 1)
      else Some (if res = -1 then -1 else int j + res + int len))"
    using i res(1) ci by (cases "res = -1"; subst match_star.simps) (simp_all only: eq bind.bind_lunit if_True if_False simp_thms)
  show "\<exists>r. match_star p s i j len = Some r \<and> star_verdict ?P ?S j len r"
  proof (cases "res = -1")
    case False
    with res(2) obtain n where n: "res = int n" "longest ?P (drop len ?S) n" by (auto simp: verdict_def)
    then have "len \<le> len \<and> (\<exists>m. int j + res + int len = int j + int (len + m) \<and> longest ?P (drop len ?S) m \<and>
        (\<forall>l' \<le> len. len < l' \<longrightarrow> (\<forall>m. \<not> pm ?P (drop l' ?S) m)))"
      by (intro conjI exI [of _ n]) simp_all
    then have "star_verdict ?P ?S j len (int j + res + int len)"
      unfolding star_verdict_def using n(1) by (simp only: if_split) fastforce
    with step False show ?thesis by simp
  next
    case True
    then have no: "\<not> pm ?P (drop len ?S) n" for n using res(2) by (simp add: verdict_def)
    show ?thesis
    proof (cases len)
      case 0
      with step True no show ?thesis by (simp add: star_verdict_def)
    next
      case (Suc k)
      from less.IH [of k] Suc b obtain r where r: "match_star p s i j k = Some r" "star_verdict ?P ?S j k r" by auto
      have "star_verdict ?P ?S j len r"
        using r(2) no Suc unfolding star_verdict_def by (auto simp: le_Suc_eq split: if_splits)
      with step True r(1) Suc show ?thesis by simp
    qed
  qed
qed

lemma match_spec:
  "pat_ok e p \<Longrightarrow> str_ok e s \<Longrightarrow>
     \<exists>r. mg_match_prefix_n p s = Some r \<and> verdict (ms_bytes p) (ms_bytes s) 0 r"
proof (induction "ms_len p" arbitrary: p s rule: less_induct)
  case less
  note p = less.prems(1) and s = less.prems(2)
  have star: "\<exists>r. match_star p s k j len = Some r \<and> star_verdict (drop k (ms_bytes p)) (drop j (ms_bytes s)) j len r"
    if "0 < k" "k \<le> ms_len p" "j + len \<le> ms_len s" for k j len
  proof (rule match_star_spec [OF _ s that])
    fix s' :: mg_str
    assume "str_ok e s'"
    with less.hyps [OF _ pat_ok_suffix [OF p that(2)]] that
    show "\<exists>r. mg_match_prefix_n (p\<lparr>ms_p := ms_p p + k, ms_len := ms_len p - k\<rparr>) s' = Some r \<and>
        verdict (drop k (ms_bytes p)) (ms_bytes s') 0 r"
      by (simp add: ms_suffix [OF pat_valid [OF p] that(2)])
  qed
  have from_spec: "i \<le> ms_len p \<Longrightarrow> j \<le> ms_len s \<Longrightarrow>
      \<exists>r. match_from p s i j = Some r \<and> verdict (drop i (ms_bytes p)) (drop j (ms_bytes s)) j r" for i j
  proof (induction "ms_len p - i" arbitrary: i j rule: less_induct)
    case less
    show ?case
    proof (rule match_step [OF p s less.prems])
      assume "i < ms_len p" "j < ms_len s"
      then show "\<exists>r. match_from p s (i + 1) (j + 1) = Some r \<and>
          verdict (drop (i + 1) (ms_bytes p)) (drop (j + 1) (ms_bytes s)) (j + 1) r"
        by (intro less.hyps) simp_all
    qed (rule star; simp)
  qed
  have "c_memchr (ch (CHR ''|'')) (take (ms_len p) (drop (ms_p p) (ms_mem p))) = None"
    using p by (simp add: c_memchr_None pat_ok_def ms_bytes_def bslice_def)
  with from_spec [of 0 0] show ?case by (simp add: mg_match_prefix_n.simps [of p s])
qed

section \<open>Lists\<close>

fun join_comma :: "bytes list \<Rightarrow> bytes" where
  "join_comma [] = []"
| "join_comma [x] = x"
| "join_comma (x # y # r) = x @ ch (CHR '','') # join_comma (y # r)"

definition key_value :: "bytes \<Rightarrow> bytes \<times> bytes option" where
  "key_value x =
     (takeWhile (\<lambda>c. c \<noteq> ch (CHR ''='')) x,
      if ch (CHR ''='') \<in> set x then Some (tl (dropWhile (\<lambda>c. c \<noteq> ch (CHR ''='')) x)) else None)"

lemma memchr_first: "c \<notin> set x \<Longrightarrow> c_memchr c (x @ c # y) = Some (length x)"
  unfolding c_memchr_def by (subst takeWhile_append2) auto

lemma comma_entry:
  assumes l: "l = pre @ x @ suf" and p: "p = length pre" and c: "ch (CHR '','') \<notin> set x"
    and s: "suf = [] \<and> x \<noteq> [] \<and> q = length l \<or> (\<exists>s'. suf = ch (CHR '','') # s') \<and> q = p + length x + 1"
  shows "\<exists>v ev. mg_next_comma_list_entry l p = Some (q, v, ev) \<and> (ms_bytes v, map_option ms_bytes ev) = key_value x"
proof -
  have lt: "\<not> length l \<le> p" using l p s by auto
  have d: "drop p l = x @ suf" using l p by simp
  have nx: "(case c_memchr (ch (CHR '','')) (drop p l) of Some k \<Rightarrow> (k, p + k + 1) | None \<Rightarrow> (length (drop p l), length l))
      = (length x, q)"
  proof (cases "suf = []")
    case True
    with s d c show ?thesis by (simp add: c_memchr_def)
  next
    case False
    with s obtain s' where "suf = ch (CHR '','') # s'" "q = p + length x + 1" by blast
    with c show ?thesis unfolding d by (simp add: memchr_first)
  qed
  have t: "take (length x) (drop p l) = x" using d by simp
  show ?thesis
  proof (cases "c_memchr (ch (CHR ''='')) x")
    case None
    then have ne: "ch (CHR ''='') \<notin> set x" by (simp add: c_memchr_None)
    then have "takeWhile (\<lambda>c. c \<noteq> ch (CHR ''='')) x = x" by (intro takeWhile_eq_all_conv [THEN iffD2]) auto
    with ne have kv: "key_value x = (x, None)" by (simp add: key_value_def)
    have "bslice (l @ [0]) p (length x) = x" using l p by (simp add: bslice_def)
    with None show ?thesis
      unfolding mg_next_comma_list_entry_def Let_def nx kv
      by (simp only: lt t prod.case if_False option.case) (simp add: ms_bytes_def)
  next
    case (Some k)
    note k = c_memchr_Some [OF Some]
    from Some have in_x: "ch (CHR ''='') \<in> set x" and kw: "k = length (takeWhile (\<lambda>c. c \<noteq> ch (CHR ''='')) x)"
      by (auto simp: c_memchr_def split: if_splits)
    have tw: "takeWhile (\<lambda>c. c \<noteq> ch (CHR ''='')) x = take k x" unfolding kw by (rule takeWhile_eq_take)
    have dw: "tl (dropWhile (\<lambda>c. c \<noteq> ch (CHR ''='')) x) = drop (k + 1) x"
      unfolding kw by (simp add: dropWhile_eq_drop drop_Suc tl_drop)
    have "bslice (l @ [0]) (p + k + 1) (length x - (k + 1)) = drop (k + 1) x"
      using l p k(1) by (simp add: bslice_def)
    moreover have "bslice (l @ [0]) p k = take k x" using l p k(1) by (simp add: bslice_def)
    ultimately show ?thesis
      unfolding mg_next_comma_list_entry_def Let_def nx
      using Some in_x by (simp add: lt t key_value_def ms_bytes_def tw dw)
  qed
qed

lemma comma_entries_join:
  assumes "xs \<noteq> []" and "last xs \<noteq> []" and "\<forall>x \<in> set xs. ch (CHR '','') \<notin> set x"
  shows "comma_entries (pre @ join_comma xs) (length pre) = map key_value xs"
  using assms
proof (induction xs arbitrary: pre rule: join_comma.induct)
  case (2 x)
  let ?l = "pre @ join_comma [x]"
  from comma_entry [of ?l pre x "[]" "length pre" "length ?l"] 2 obtain v ev where
    e: "mg_next_comma_list_entry ?l (length pre) = Some (length ?l, v, ev)"
    "(ms_bytes v, map_option ms_bytes ev) = key_value x" by auto
  have "comma_entries ?l (length ?l) = []"
    by (subst comma_entries.simps) (simp add: mg_next_comma_list_entry_def)
  with e show ?case by (subst comma_entries.simps) simp
next
  case (3 x y r)
  let ?l = "pre @ join_comma (x # y # r)" and ?pre = "pre @ x @ [ch (CHR '','')]"
  from comma_entry [of ?l pre x "ch (CHR '','') # join_comma (y # r)" "length pre" "length ?pre"] 3 obtain v ev where
    e: "mg_next_comma_list_entry ?l (length pre) = Some (length ?pre, v, ev)"
    "(ms_bytes v, map_option ms_bytes ev) = key_value x" by auto
  have "?l = ?pre @ join_comma (y # r)" by simp
  with "3.IH" [of ?pre] "3.prems" have "comma_entries ?l (length ?pre) = map key_value (y # r)" by simp
  with e show ?case by (subst comma_entries.simps) simp
qed simp

section \<open>Base64 in a buffer\<close>

lemma base64_putc_fold:
  "fold (mg_mbuf_append_base64_putc ra) cs m = fold (\<lambda>d m. mbuf_push ra m d) (map (\<lambda>c. [c]) cs) m"
  by (induction cs arbitrary: m) (simp_all add: mg_mbuf_append_base64_putc_def)

lemma base64_putc_has:
  assumes "reliable K ra" and "mbuf_has m bs" and "mbuf_grow (length bs + length cs) \<le> K"
  shows "mbuf_has (fold (mg_mbuf_append_base64_putc ra) cs m) (bs @ cs)"
proof -
  have c: "concat (map (\<lambda>c. [c]) cs) = cs" by (induction cs) simp_all
  from mbuf_has_pushes [OF assms(1,2), of "map (\<lambda>c. [c]) cs"] assms(3) show ?thesis
    by (simp add: base64_putc_fold c)
qed

lemma append_base64_user_data:
  assumes "length (chunk ctx) = 3"
  shows "user_data (cs_base64_finish (fold (\<lambda>d c. cs_base64_update c d) ds (cs_base64_init ctx putc u))) =
    fold putc (rfc4648 (concat ds)) u"
proof -
  have "b64_streamed putc u c m \<Longrightarrow>
      b64_streamed putc u (fold (\<lambda>d c. cs_base64_update c d) ds c) (m @ concat ds)" for c m
  proof (induction ds arbitrary: c m)
    case (Cons d ds)
    from Cons.IH [OF b64_streamed_update [OF Cons.prems]] show ?case by simp
  qed simp
  from this [OF b64_streamed_init [OF assms]] show ?thesis by (simp add: b64_streamed_finish)
qed

definition credentials :: "bytes \<Rightarrow> bytes option \<Rightarrow> bytes" where
  "credentials user pass = user @ (case pass of None \<Rightarrow> [] | Some p \<Rightarrow> ch (CHR '':'') # p)"

lemma basic_auth_header_spec:
  assumes ra: "reliable K ra" and inv: "mbuf_inv buf"
    and fits: "mbuf_grow (mb_len buf + 23 + length (rfc4648 (credentials user pass))) \<le> K"
  shows "mbuf_has (mg_basic_auth_header ra user pass buf)
    (mbuf_bytes buf @ str ''Authorization: Basic '' @ rfc4648 (credentials user pass) @ [13, 10])"
proof -
  let ?m1 = "mbuf_push ra (Some buf) (str ''Authorization: Basic '')"
  let ?b1 = "mbuf_bytes buf @ str ''Authorization: Basic ''"
  let ?e = "rfc4648 (credentials user pass)"
  let ?m2 = "fold (mg_mbuf_append_base64_putc ra) ?e ?m1"
  have "mbuf_has (Some buf) (mbuf_bytes buf)" using inv by (simp add: mbuf_has_def)
  moreover have lb: "length (mbuf_bytes buf) = mb_len buf" using inv by simp
  moreover have g: "mbuf_grow n \<le> K" if "n \<le> mb_len buf + 23 + length ?e" for n
    using mbuf_grow_mono [OF that] fits by simp
  ultimately have "mbuf_has ?m1 ?b1"
    by (intro mbuf_has_push [OF ra] g) simp_all
  then have m2: "mbuf_has ?m2 (?b1 @ ?e)"
    using lb by (intro base64_putc_has [OF ra] g) simp_all
  let ?ds = "user # (case pass of None \<Rightarrow> [] | Some p \<Rightarrow> [[ch (CHR '':'')], p])"
  have "concat ?ds = credentials user pass" by (simp add: credentials_def split: option.splits)
  then have "mg_basic_auth_header ra user pass buf = mbuf_push ra ?m2 [13, 10]"
    using append_base64_user_data [of "b64_ctx0 ?m1" ?ds "mg_mbuf_append_base64_putc ra" ?m1]
    by (cases pass) (simp_all add: mg_basic_auth_header_def Let_def b64_ctx0_def)
  moreover have "mbuf_has (mbuf_push ra ?m2 [13, 10]) ((?b1 @ ?e) @ [13, 10])"
    using lb by (intro mbuf_has_push [OF ra m2] g) simp_all
  ultimately show ?thesis by simp
qed

lemma ms_bytes_mk: "ms_bytes (mg_mk_str s) = s"
  by (simp add: ms_bytes_def mg_mk_str_def bslice_def)

section \<open>Properties\<close>

text \<open>C18. On a pattern without alternatives and a string of less than 2 GiB that is followed by a byte which is, in either case, none
  of the pattern's (such as the NUL of a C string), \<open>mg_match_prefix_n\<close> ends without reading out of bounds
  and decides the pattern language: it returns -1 exactly when no prefix of the string matches,
  and otherwise the length of the longest prefix that does; \<open>?\<close> is any byte, \<open>*\<close> any bytes but slashes,
  \<open>**\<close> any bytes, \<open>$\<close> the end.\<close>

theorem mg_match_prefix_n_decides:
  assumes "pat_ok e p" and "str_ok e s"
  shows "\<exists>r. mg_match_prefix_n p s = Some r \<and>
    (if r = -1 then \<forall>n. \<not> pm (ms_bytes p) (ms_bytes s) n
     else \<exists>n. r = int n \<and> longest (ms_bytes p) (ms_bytes s) n)"
proof -
  from match_spec [OF assms] obtain r where
    "mg_match_prefix_n p s = Some r" "verdict (ms_bytes p) (ms_bytes s) 0 r" by blast
  then show ?thesis by (intro exI [of _ r]) (auto simp: verdict_def split: if_splits)
qed

theorem mg_match_prefix_n_decides_witness:
  "\<exists>r. mg_match_prefix_n (mg_mk_str (str ''/*.c$'')) (mg_mk_str (str ''/ab.c'')) = Some r \<and>
    (if r = -1 then \<forall>n. \<not> pm (str ''/*.c$'') (str ''/ab.c'') n
     else \<exists>n. r = int n \<and> longest (str ''/*.c$'') (str ''/ab.c'') n)"
proof -
  have "pat_ok 0 (mg_mk_str (str ''/*.c$''))" "str_ok 0 (mg_mk_str (str ''/ab.c''))"
    by (simp_all add: pat_ok_def str_ok_def ms_bytes_mk, simp_all add: mg_mk_str_def ch_def tolower_def)
  from mg_match_prefix_n_decides [OF this] show ?thesis by (simp only: ms_bytes_mk)
qed

text \<open>The condition on the byte after the string is needed: with the string \<open>/a\<close> followed in
  memory by \<open>b\<close>, the pattern \<open>/ab\<close> reports a match of three bytes, one more than there are.\<close>

lemma mg_match_prefix_n_overruns:
  "mg_match_prefix_n (mg_mk_str (str ''/ab'')) \<lparr>ms_mem = str ''/abc'', ms_p = 0, ms_len = 2\<rparr> = Some 3"
  by (simp add: mg_match_prefix_n.simps match_from.simps mg_mk_str_def c_memchr_def ms_at_def rd_def ch_def c_int_def)

text \<open>A match of length 0 in one alternative does not stop the search: \<open>$|x\<close> does not match the
  empty string although \<open>$\<close> does.\<close>

lemma mg_match_prefix_n_empty_alternative:
  "mg_match_prefix (str ''$'') 1 [] = Some 0" "mg_match_prefix (str ''$|x'') 3 [] = Some (-1)"
  by (simp_all add: mg_match_prefix_def mg_match_prefix_n.simps match_from.simps mg_mk_str_def c_memchr_def
      ms_at_def rd_def ch_def tolower_def c_int_def)

text \<open>Walking a comma-separated list with \<open>mg_next_comma_list_entry\<close> gives its items in order,
  each split into key and value at its first \<open>=\<close>, and ends.\<close>

theorem comma_entries_items:
  assumes "xs \<noteq> []" and "last xs \<noteq> []" and "\<forall>x \<in> set xs. ch (CHR '','') \<notin> set x"
  shows "comma_entries (join_comma xs) 0 = map key_value xs"
  using comma_entries_join [OF assms, of "[]"] by simp

theorem comma_entries_items_witness:
  "comma_entries (str ''a=1,b'') 0 = [(str ''a'', Some (str ''1'')), (str ''b'', None)]"
  using comma_entries_items [of "[str ''a=1'', str ''b'']"] by (simp add: ch_def key_value_def)

text \<open>With an allocator that can serve the buffer, \<open>mg_basic_auth_header\<close> appends exactly the
  header line: the RFC 4648 encoding of user, colon and password between the header name and
  CRLF; without a password the colon is left out too.\<close>

theorem mg_basic_auth_header_line:
  assumes "reliable K ra" and "mbuf_inv buf"
    and "mbuf_grow (mb_len buf + 23 + length (rfc4648 (credentials user pass))) \<le> K"
  shows "\<exists>m. mg_basic_auth_header ra user pass buf = Some m \<and> mbuf_inv m \<and>
    mbuf_bytes m = mbuf_bytes buf @ str ''Authorization: Basic '' @ rfc4648 (credentials user pass) @ [13, 10]"
  using basic_auth_header_spec [OF assms] by (simp add: mbuf_has_def)

theorem mg_basic_auth_header_line_witness:
  "\<exists>m. mg_basic_auth_header arena_realloc (str ''u'') (Some (str ''p'')) empty_mbuf = Some m \<and> mbuf_inv m \<and>
    mbuf_bytes m = str ''Authorization: Basic dTpw'' @ [13, 10]"
proof -
  have e: "rfc4648 (credentials (str ''u'') (Some (str ''p''))) = str ''dTpw''"
    by (simp add: credentials_def ch_def b64_chars_def sx0_def sx1_def sx2_def sx3_def b64_code_def b64_consts b64_table_def)
  have "mbuf_grow (mb_len empty_mbuf + 23 + length (rfc4648 (credentials (str ''u'') (Some (str ''p''))))) \<le> 2 ^ 20"
    unfolding e by (simp add: mbuf_grow_def)
  from mg_basic_auth_header_line [OF arena_reliable empty_mbuf_inv(1) this] show ?thesis
    unfolding e by (simp only: empty_mbuf_inv str_append [symmetric] append_Nil append_assoc [symmetric]) simp
qed

end
