(* ===== verification/Conn.thy ===== *)
theory Conn
  imports Mbuf Str
begin

text \<open>
  \<open>mongoose/src/net.c\<close> and \<open>mongoose/src/net_if_socket.c\<close>: the connection, the event
  callbacks, sending and receiving, what one turn of the poll loop does to a connection, and
  the manager's list of active connections.

  The system calls of one turn (\<open>send\<close>, \<open>recv\<close>, \<open>getsockopt\<close>, the clock, \<open>malloc\<close>) are
  given by a record, the user's and the protocol's event handlers are parameters.  The build
  is the default one: no SSL, sockets.  Times are integers of some unit.
\<close>

section \<open>Flags and events\<close>

definition MG_F_LISTENING :: u64 where "MG_F_LISTENING = 1"
definition MG_F_UDP :: u64 where "MG_F_UDP = 0x2"
definition MG_F_RESOLVING :: u64 where "MG_F_RESOLVING = 0x4"
definition MG_F_CONNECTING :: u64 where "MG_F_CONNECTING = 0x8"
definition MG_F_SSL :: u64 where "MG_F_SSL = 0x10"
definition MG_F_SSL_HANDSHAKE_DONE :: u64 where "MG_F_SSL_HANDSHAKE_DONE = 0x20"
definition MG_F_WANT_READ :: u64 where "MG_F_WANT_READ = 0x40"
definition MG_F_WANT_WRITE :: u64 where "MG_F_WANT_WRITE = 0x80"
definition MG_F_IS_WEBSOCKET :: u64 where "MG_F_IS_WEBSOCKET = 0x100"
definition MG_F_SEND_AND_CLOSE :: u64 where "MG_F_SEND_AND_CLOSE = 0x400"
definition MG_F_CLOSE_IMMEDIATELY :: u64 where "MG_F_CLOSE_IMMEDIATELY = 0x800"
definition MG_F_WEBSOCKET_NO_DEFRAG :: u64 where "MG_F_WEBSOCKET_NO_DEFRAG = 0x1000"
definition MG_F_DELETE_CHUNK :: u64 where "MG_F_DELETE_CHUNK = 0x2000"
definition MG_F_ENABLE_BROADCAST :: u64 where "MG_F_ENABLE_BROADCAST = 0x4000"
definition MG_F_USER :: u64 where "MG_F_USER = 0x3f00000"

lemmas flag_defs = MG_F_LISTENING_def MG_F_UDP_def MG_F_RESOLVING_def MG_F_CONNECTING_def MG_F_SSL_def
  MG_F_SSL_HANDSHAKE_DONE_def MG_F_WANT_READ_def MG_F_WANT_WRITE_def MG_F_IS_WEBSOCKET_def
  MG_F_SEND_AND_CLOSE_def MG_F_CLOSE_IMMEDIATELY_def MG_F_WEBSOCKET_NO_DEFRAG_def MG_F_DELETE_CHUNK_def
  MG_F_ENABLE_BROADCAST_def MG_F_USER_def

definition allowed_connect_flags :: u64 where
  "allowed_connect_flags = MG_F_USER OR MG_F_WEBSOCKET_NO_DEFRAG OR MG_F_ENABLE_BROADCAST"

definition callback_modifiable_flags :: u64 where
  "callback_modifiable_flags = MG_F_USER OR MG_F_WEBSOCKET_NO_DEFRAG OR MG_F_SEND_AND_CLOSE OR
     MG_F_CLOSE_IMMEDIATELY OR MG_F_IS_WEBSOCKET OR MG_F_DELETE_CHUNK"

text \<open>Core events with their data, and the protocols' own events.\<close>

datatype 'd mg_event =
  EvPoll int | EvAccept | EvConnect int | EvRecv int | EvSend int | EvClose | EvTimer int | EvProto 'd

section \<open>The connection\<close>

record 'u mg_connection =
  nc_flags :: u64
  nc_sock :: "nat option"
  nc_err :: int
  nc_recv_mbuf_limit :: nat
  nc_recv :: mbuf
  nc_send :: mbuf
  nc_last_io_time :: int
  nc_ev_timer_time :: int
  nc_user :: 'u

type_synonym ('d, 'u) handler = "'d mg_event \<Rightarrow> 'u mg_connection \<Rightarrow> 'u mg_connection"

definition has_flag :: "'u mg_connection \<Rightarrow> u64 \<Rightarrow> bool" where
  "has_flag nc f \<longleftrightarrow> nc_flags nc AND f \<noteq> 0"

definition set_flag :: "u64 \<Rightarrow> 'u mg_connection \<Rightarrow> 'u mg_connection" where
  "set_flag f nc = nc\<lparr>nc_flags := nc_flags nc OR f\<rparr>"

definition clear_flag :: "u64 \<Rightarrow> 'u mg_connection \<Rightarrow> 'u mg_connection" where
  "clear_flag f nc = nc\<lparr>nc_flags := nc_flags nc AND NOT f\<rparr>"

text \<open>\<open>mg_create_connection_base\<close>: a zeroed connection and its defaults.\<close>

definition mg_create_connection_base :: "int \<Rightarrow> u64 \<Rightarrow> 'u \<Rightarrow> 'u mg_connection" where
  "mg_create_connection_base now flags ud =
     \<lparr>nc_flags = flags AND allowed_connect_flags, nc_sock = None, nc_err = 0,
      nc_recv_mbuf_limit = 2 ^ 64 - 1,
      nc_recv = \<lparr>mb_addr = 0, mb_mem = [], mb_len = 0, mb_size = 0\<rparr>,
      nc_send = \<lparr>mb_addr = 0, mb_mem = [], mb_len = 0, mb_size = 0\<rparr>,
      nc_last_io_time = now, nc_ev_timer_time = 0, nc_user = ud\<rparr>"

definition mg_if_accept_new_conn :: "int \<Rightarrow> 'u mg_connection \<Rightarrow> 'u mg_connection" where
  "mg_if_accept_new_conn now lc =
     (let nc = (mg_create_connection_base now 0 (nc_user lc))\<lparr>nc_recv_mbuf_limit := nc_recv_mbuf_limit lc\<rparr>
      in if has_flag lc MG_F_SSL then set_flag MG_F_SSL nc else nc)"

section \<open>Calling handlers\<close>

text \<open>
  \<open>mg_call\<close> with the user's handler: the flags it may not change are restored.  With a
  protocol handler there is no such check.  \<open>None\<close> is a NULL handler.
\<close>

definition mg_call_user :: "('d, 'u) handler option \<Rightarrow> 'd mg_event \<Rightarrow> 'u mg_connection \<Rightarrow> 'u mg_connection" where
  "mg_call_user uh ev nc =
     (case uh of None \<Rightarrow> nc
      | Some h \<Rightarrow>
          let nc' = h ev nc in
          if nc_flags nc' \<noteq> nc_flags nc then
            nc'\<lparr>nc_flags := (nc_flags nc AND NOT callback_modifiable_flags) OR
                              (nc_flags nc' AND callback_modifiable_flags)\<rparr>
          else nc')"

text \<open>The two handlers of a connection, and \<open>mg_call (nc, NULL, ...)\<close>, which picks one.\<close>

record ('d, 'u) handlers =
  proto_handler :: "('d, 'u) handler option"
  user_handler :: "('d, 'u) handler option"

definition mg_call :: "('d, 'u) handlers \<Rightarrow> 'd mg_event \<Rightarrow> 'u mg_connection \<Rightarrow> 'u mg_connection" where
  "mg_call hs ev nc =
     (case proto_handler hs of
        Some p \<Rightarrow> p ev nc
      | None \<Rightarrow> mg_call_user (user_handler hs) ev nc)"

definition mg_if_timer :: "('d, 'u) handlers \<Rightarrow> int \<Rightarrow> 'u mg_connection \<Rightarrow> 'u mg_connection" where
  "mg_if_timer hs now c =
     (if nc_ev_timer_time c > 0 \<and> now \<ge> nc_ev_timer_time c then
        let old_value = nc_ev_timer_time c; c' = mg_call hs (EvTimer now) c in
        if nc_ev_timer_time c' = old_value then c'\<lparr>nc_ev_timer_time := 0\<rparr> else c'
      else c)"

definition mg_if_poll :: "('d, 'u) handlers \<Rightarrow> int \<Rightarrow> 'u mg_connection \<Rightarrow> 'u mg_connection" where
  "mg_if_poll hs now nc =
     (if \<not> has_flag nc MG_F_SSL \<or> has_flag nc MG_F_SSL_HANDSHAKE_DONE then mg_call hs (EvPoll now) nc else nc)"

definition mg_if_connect_cb :: "('d, 'u) handlers \<Rightarrow> int \<Rightarrow> 'u mg_connection \<Rightarrow> 'u mg_connection" where
  "mg_if_connect_cb hs err nc =
     (let nc1 = clear_flag MG_F_CONNECTING nc;
          nc2 = (if err \<noteq> 0 then set_flag MG_F_CLOSE_IMMEDIATELY nc1 else nc1)
      in mg_call hs (EvConnect err) nc2)"

definition mg_if_accept_tcp_cb :: "('d, 'u) handlers \<Rightarrow> 'u mg_connection \<Rightarrow> 'u mg_connection" where
  "mg_if_accept_tcp_cb hs nc = mg_call hs EvAccept nc"

definition mg_set_timer :: "'u mg_connection \<Rightarrow> int \<Rightarrow> int \<times> 'u mg_connection" where
  "mg_set_timer c timestamp = (nc_ev_timer_time c, c\<lparr>nc_ev_timer_time := timestamp\<rparr>)"

section \<open>Sending and receiving\<close>

text \<open>
  What the system does in one turn: the result of \<open>send\<close> on the buffer and whether \<open>errno\<close>
  is then a real error, the result of \<open>recv\<close> with the bytes it stored, the \<open>SO_ERROR\<close>
  option, the clock, where a received buffer lies (0 when \<open>malloc\<close> fails), the socket \<open>accept\<close> gives, whether a new connection can be
  allocated, and the result of \<open>recvfrom\<close> with the bytes it stored and the address they came from.
\<close>

record io =
  io_now :: int
  io_ra :: realloc
  io_send :: "bytes \<Rightarrow> int"
  io_send_err :: bool
  io_recv :: "nat \<Rightarrow> int \<times> bytes"
  io_recv_err :: bool
  io_soerror :: "int \<times> int"
  io_malloc :: nat
  io_accept :: "nat option"
  io_calloc :: bool
  io_recvfrom :: "int \<times> bytes \<times> bytes"

definition EAGAIN :: int where "EAGAIN = 11"

text \<open>A buffer operation whose assertion would fail leaves the mbuf alone; see \<open>mbuf_inv\<close>.\<close>

definition mbuf_add :: "realloc \<Rightarrow> mbuf \<Rightarrow> bytes \<Rightarrow> mbuf" where
  "mbuf_add ra m b = (case mbuf_push ra (Some m) b of Some m' \<Rightarrow> m' | None \<Rightarrow> m)"

definition mg_socket_if_tcp_send :: "realloc \<Rightarrow> 'u mg_connection \<Rightarrow> bytes \<Rightarrow> 'u mg_connection" where
  "mg_socket_if_tcp_send ra nc b = nc\<lparr>nc_send := mbuf_add ra (nc_send nc) b\<rparr>"

definition mg_socket_if_udp_send :: "realloc \<Rightarrow> 'u mg_connection \<Rightarrow> bytes \<Rightarrow> 'u mg_connection" where
  "mg_socket_if_udp_send ra nc b = nc\<lparr>nc_send := mbuf_add ra (nc_send nc) b\<rparr>"

text \<open>
  \<open>mg_send\<close> takes its length as an \<open>int\<close>: a longer one is cut to its low 32 bits.  If that is negative, it reaches \<open>mbuf_append\<close> as a
  size of more than \<open>2 ^ 63\<close>, for which no allocator has a block, and nothing is appended.
\<close>

definition int_len :: "bytes \<Rightarrow> bytes" where
  "int_len b = (let len = c_int (int (length b)) in if len < 0 then [] else take (nat len) b)"

definition mg_send :: "io \<Rightarrow> bytes \<Rightarrow> 'u mg_connection \<Rightarrow> 'u mg_connection" where
  "mg_send io b nc =
     (let nc1 = nc\<lparr>nc_last_io_time := io_now io\<rparr> in
      if has_flag nc1 MG_F_UDP then mg_socket_if_udp_send (io_ra io) nc1 (int_len b)
      else mg_socket_if_tcp_send (io_ra io) nc1 (int_len b))"

lemma int_len_small: "length b < 2 ^ 31 \<Longrightarrow> int_len b = b"
  using c_int_small [of "int (length b)"] by (simp add: int_len_def)

definition mg_if_sent_cb :: "('d, 'u) handlers \<Rightarrow> int \<Rightarrow> 'u mg_connection \<Rightarrow> 'u mg_connection" where
  "mg_if_sent_cb hs num_sent nc =
     mg_call hs (EvSend num_sent) (if num_sent < 0 then set_flag MG_F_CLOSE_IMMEDIATELY nc else nc)"

text \<open>\<open>mg_recv_common\<close>; an owned buffer of length \<open>len\<close> lies at \<open>addr\<close> and becomes the backing
  store of an empty receive buffer.\<close>

definition mg_recv_common ::
  "io \<Rightarrow> ('d, 'u) handlers \<Rightarrow> nat \<Rightarrow> bytes \<Rightarrow> bool \<Rightarrow> 'u mg_connection \<Rightarrow> 'u mg_connection"
where
  "mg_recv_common io hs addr b own nc =
     (if has_flag nc MG_F_CLOSE_IMMEDIATELY then nc
      else
        let nc1 = nc\<lparr>nc_last_io_time := io_now io\<rparr>;
            nc2 = (if own \<and> mb_len (nc_recv nc1) = 0
                   then nc1\<lparr>nc_recv := \<lparr>mb_addr = addr, mb_mem = b, mb_len = length b, mb_size = length b\<rparr>\<rparr>
                   else nc1\<lparr>nc_recv := mbuf_add (io_ra io) (nc_recv nc1) b\<rparr>)
        in mg_call hs (EvRecv (int (length b))) nc2)"

definition mg_if_recv_tcp_cb ::
  "io \<Rightarrow> ('d, 'u) handlers \<Rightarrow> nat \<Rightarrow> bytes \<Rightarrow> bool \<Rightarrow> 'u mg_connection \<Rightarrow> 'u mg_connection"
where
  "mg_if_recv_tcp_cb io hs addr b own nc = mg_recv_common io hs addr b own nc"

definition mg_forward :: "io \<Rightarrow> 'u mg_connection \<Rightarrow> 'v mg_connection \<Rightarrow> 'u mg_connection \<times> 'v mg_connection" where
  "mg_forward io from to =
     (from\<lparr>nc_recv := mbuf_remove (nc_recv from) (mb_len (nc_recv from))\<rparr>,
      mg_send io (mbuf_bytes (nc_recv from)) to)"

section \<open>One turn of the poll loop\<close>

text \<open>\<open>mg_write_to_socket\<close>: the bytes handed to the peer and the connection; \<open>None\<close> is the failed
  assertion on an empty send buffer.\<close>

definition mg_write_to_socket ::
  "io \<Rightarrow> ('d, 'u) handlers \<Rightarrow> 'u mg_connection \<Rightarrow> (bytes \<times> 'u mg_connection) option"
where
  "mg_write_to_socket io hs nc =
     (let b = mbuf_bytes (nc_send nc); n = io_send io b in
      if mb_len (nc_send nc) = 0 then None
      else if has_flag nc MG_F_UDP then
        (if n > 0 then
           Some (take (nat n) b, mg_if_sent_cb hs n (nc\<lparr>nc_send := mbuf_remove (nc_send nc) (nat n)\<rparr>))
         else Some ([], nc))
      else if n < 0 \<and> io_send_err io then Some ([], set_flag MG_F_CLOSE_IMMEDIATELY nc)
      else if n > 0 then
        Some (take (nat n) b, mg_if_sent_cb hs n (nc\<lparr>nc_send := mbuf_remove (nc_send nc) (nat n)\<rparr>))
      else Some ([], nc))"

definition recv_avail_size :: "'u mg_connection \<Rightarrow> nat \<Rightarrow> nat" where
  "recv_avail_size conn mx =
     (if nc_recv_mbuf_limit conn < mb_len (nc_recv conn) then 0
      else let avail = nc_recv_mbuf_limit conn - mb_len (nc_recv conn) in if avail > mx then mx else avail)"

definition MG_TCP_RECV_BUFFER_SIZE :: nat where "MG_TCP_RECV_BUFFER_SIZE = 1024"

definition mg_handle_tcp_read :: "io \<Rightarrow> ('d, 'u) handlers \<Rightarrow> 'u mg_connection \<Rightarrow> 'u mg_connection" where
  "mg_handle_tcp_read io hs conn =
     (if io_malloc io = 0 then conn
      else
        let (n, b) = io_recv io (recv_avail_size conn MG_TCP_RECV_BUFFER_SIZE);
            conn1 = (if n > 0 then mg_if_recv_tcp_cb io hs (io_malloc io) b True conn else conn)
        in if n = 0 then set_flag MG_F_SEND_AND_CLOSE conn1
           else if n < 0 \<and> io_recv_err io then set_flag MG_F_CLOSE_IMMEDIATELY conn1
           else conn1)"

definition connect_error :: "io \<Rightarrow> 'u mg_connection \<Rightarrow> int" where
  "connect_error io nc =
     (if has_flag nc MG_F_UDP then 0
      else let (ret, err) = io_soerror io in if ret \<noteq> 0 then 1 else if err = EAGAIN then 0 else err)"

text \<open>\<open>mg_accept_conn\<close> on a listening connection: the new connection, which has the listener's handlers.\<close>

definition mg_accept_conn :: "io \<Rightarrow> ('d, 'u) handlers \<Rightarrow> 'u mg_connection \<Rightarrow> 'u mg_connection option" where
  "mg_accept_conn io hs lc =
     (case io_accept io of
        None \<Rightarrow> None
      | Some sock \<Rightarrow>
          if io_calloc io
          then Some (mg_if_accept_tcp_cb hs ((mg_if_accept_new_conn (io_now io) lc)\<lparr>nc_sock := Some sock\<rparr>))
          else None)"

text \<open>
  What \<open>mg_recvfrom\<close> leaves in \<open>buf\<close>: a block with a datagram; a block that has been freed again, when \<open>recvfrom\<close> gave an error or an empty
  datagram; or NULL, when there was no memory.  \<open>mg_handle_udp_read\<close> passes all of them on to \<open>mg_recv_common\<close>, which uses
  or frees the block: \<open>None\<close> is a block that is used or freed after it was freed, or a buffer of \<open>2 ^ 64 - 12\<close> bytes without a block.
\<close>

datatype udp_block = Received nat bytes | FreedBlock | NoBlock

definition ENOMEM :: int where "ENOMEM = 12"

definition mg_recvfrom :: "io \<Rightarrow> udp_block" where
  "mg_recvfrom io =
     (if io_malloc io = 0 then NoBlock
      else if fst (io_recvfrom io) \<le> 0 then FreedBlock
      else Received (io_malloc io) (fst (snd (io_recvfrom io))))"

definition udp_recv_common :: "io \<Rightarrow> ('d, 'u) handlers \<Rightarrow> udp_block \<Rightarrow> 'u mg_connection \<Rightarrow> 'u mg_connection option" where
  "udp_recv_common io hs blk nc =
     (case blk of
        Received addr b \<Rightarrow> Some (mg_recv_common io hs addr b True nc)
      | FreedBlock \<Rightarrow> None
      | NoBlock \<Rightarrow>
          if has_flag nc MG_F_CLOSE_IMMEDIATELY then Some nc
          else if mb_len (nc_recv nc) = 0 then None
          else Some (mg_call hs (EvRecv (- ENOMEM)) (nc\<lparr>nc_last_io_time := io_now io\<rparr>)))"

text \<open>The manager's connections with their addresses and whether this is their listener; the one a datagram is for.\<close>

type_synonym 'u udp_peers = "(bytes \<times> bool \<times> 'u mg_connection) list"

definition udp_peer :: "io \<Rightarrow> 'u udp_peers \<Rightarrow> 'u mg_connection option" where
  "udp_peer io peers =
     map_option (\<lambda>(a, mine, c). c) (List.find (\<lambda>(a, mine, c). a = snd (snd (io_recvfrom io)) \<and> mine) peers)"

definition udp_new_peer :: "io \<Rightarrow> ('d, 'u) handlers \<Rightarrow> 'u mg_connection \<Rightarrow> 'u mg_connection" where
  "udp_new_peer io hs lc = mg_call hs EvAccept
     ((mg_create_connection_base (io_now io) 0 (nc_user lc))
        \<lparr>nc_sock := nc_sock lc, nc_recv_mbuf_limit := nc_recv_mbuf_limit lc, nc_flags := MG_F_UDP OR MG_F_SEND_AND_CLOSE\<rparr>)"

text \<open>\<open>mg_if_recv_udp_cb\<close>: the connection itself, and for a listener the connection the datagram is for, found or new.
  \<open>None\<close> is also the failed assertion on the flag, and the access through a NULL connection when there is no memory for a new one.\<close>

definition mg_if_recv_udp_cb ::
  "io \<Rightarrow> ('d, 'u) handlers \<Rightarrow> 'u udp_peers \<Rightarrow> udp_block \<Rightarrow> 'u mg_connection \<Rightarrow> ('u mg_connection \<times> 'u mg_connection option) option"
where
  "mg_if_recv_udp_cb io hs peers blk nc =
     (if \<not> has_flag nc MG_F_UDP then None
      else if has_flag nc MG_F_LISTENING then
        (case udp_peer io peers of
           Some p \<Rightarrow> map_option (\<lambda>p. (nc, Some p)) (udp_recv_common io hs blk p)
         | None \<Rightarrow>
             if io_calloc io then map_option (\<lambda>p. (nc, Some p)) (udp_recv_common io hs blk (udp_new_peer io hs nc))
             else None)
      else map_option (\<lambda>nc. (nc, None)) (udp_recv_common io hs blk nc))"

definition mg_handle_udp_read ::
  "io \<Rightarrow> ('d, 'u) handlers \<Rightarrow> 'u udp_peers \<Rightarrow> 'u mg_connection \<Rightarrow> ('u mg_connection \<times> 'u mg_connection option) option"
where
  "mg_handle_udp_read io hs peers nc = mg_if_recv_udp_cb io hs peers (mg_recvfrom io) nc"

text \<open>
  \<open>mg_mgr_handle_conn\<close>: the completion of a connect, the read, the write, the poll event and the timer.  The
  results are the bytes handed to the peer, the connection, and the other connection that was accepted or got a datagram, if any.
\<close>

record fd_flags =
  fd_can_read :: bool
  fd_can_write :: bool
  fd_error :: bool

definition turn_connect :: "io \<Rightarrow> ('d, 'u) handlers \<Rightarrow> fd_flags \<Rightarrow> 'u mg_connection \<Rightarrow> 'u mg_connection" where
  "turn_connect io hs fd nc =
     (if has_flag nc MG_F_CONNECTING then
        if fd_can_read fd \<or> fd_can_write fd \<or> fd_error fd
        then mg_if_connect_cb hs (connect_error io nc) nc
        else if nc_err nc \<noteq> 0 then mg_if_connect_cb hs (nc_err nc) nc else nc
      else nc)"

definition turn_read ::
  "io \<Rightarrow> ('d, 'u) handlers \<Rightarrow> fd_flags \<Rightarrow> 'u udp_peers \<Rightarrow> 'u mg_connection \<Rightarrow> ('u mg_connection \<times> 'u mg_connection option) option"
where
  "turn_read io hs fd peers nc =
     (if fd_can_read fd then
        if has_flag nc MG_F_UDP then mg_handle_udp_read io hs peers nc
        else if has_flag nc MG_F_LISTENING then Some (nc, mg_accept_conn io hs nc)
        else Some (mg_handle_tcp_read io hs nc, None)
      else Some (nc, None))"

definition turn_write ::
  "io \<Rightarrow> ('d, 'u) handlers \<Rightarrow> fd_flags \<Rightarrow> 'u mg_connection \<Rightarrow> (bytes \<times> 'u mg_connection) option"
where
  "turn_write io hs fd nc =
     (if fd_can_write fd \<and> mb_len (nc_send nc) > 0 then mg_write_to_socket io hs nc else Some ([], nc))"

definition mg_mgr_handle_conn ::
  "io \<Rightarrow> ('d, 'u) handlers \<Rightarrow> fd_flags \<Rightarrow> int \<Rightarrow> 'u udp_peers \<Rightarrow> 'u mg_connection \<Rightarrow>
     (bytes \<times> 'u mg_connection \<times> 'u mg_connection option) option"
where
  "mg_mgr_handle_conn io hs fd now peers nc = do {
     (nc2, other) \<leftarrow> turn_read io hs fd peers (turn_connect io hs fd nc);
     if \<not> has_flag nc2 MG_F_CLOSE_IMMEDIATELY then do {
       (sent, nc3) \<leftarrow> turn_write io hs fd nc2;
       Some (sent, mg_if_timer hs now (mg_if_poll hs now nc3), other) }
     else Some ([], nc2, other) }"

text \<open>The sweep at the end of \<open>mg_socket_if_poll\<close> closes a connection in this state.\<close>

definition must_close :: "'u mg_connection \<Rightarrow> bool" where
  "must_close nc \<longleftrightarrow> has_flag nc MG_F_CLOSE_IMMEDIATELY \<or>
     (mb_len (nc_send nc) = 0 \<and> has_flag nc MG_F_SEND_AND_CLOSE)"

text \<open>Which sets a connection is put in before \<open>select\<close>; \<open>fake\<close> is a UDP connection of a listener.\<close>

definition poll_read :: "bool \<Rightarrow> 'u mg_connection \<Rightarrow> bool" where
  "poll_read fake nc \<longleftrightarrow> \<not> has_flag nc MG_F_WANT_WRITE \<and>
     mb_len (nc_recv nc) < nc_recv_mbuf_limit nc \<and> (\<not> has_flag nc MG_F_UDP \<or> \<not> fake)"

definition poll_write :: "'u mg_connection \<Rightarrow> bool" where
  "poll_write nc \<longleftrightarrow> (has_flag nc MG_F_CONNECTING \<and> \<not> has_flag nc MG_F_WANT_READ) \<or>
     (mb_len (nc_send nc) > 0 \<and> \<not> has_flag nc MG_F_CONNECTING)"

text \<open>The timeout handed to \<open>select\<close>: shortened to the earliest timer, in milliseconds.\<close>

definition min_timer :: "'u mg_connection list \<Rightarrow> int option" where
  "min_timer ncs =
     fold (\<lambda>nc m. if nc_ev_timer_time nc > 0 \<and> (case m of None \<Rightarrow> True | Some t \<Rightarrow> nc_ev_timer_time nc < t)
                  then Some (nc_ev_timer_time nc) else m) ncs None"

definition poll_timeout :: "int \<Rightarrow> 'u mg_connection list \<Rightarrow> int \<Rightarrow> int" where
  "poll_timeout now ncs timeout_ms =
     (let t = (case min_timer ncs of
                 None \<Rightarrow> timeout_ms
               | Some mt \<Rightarrow> let timer_ms = (mt - now) * 1000 + 1 in
                            if timer_ms < timeout_ms then timer_ms else timeout_ms)
      in if t < 0 then 0 else t)"

section \<open>The list of active connections\<close>

text \<open>
  The doubly linked list threads through the connections: a store of links by address, and
  the manager's head pointer.  \<open>None\<close> is a NULL pointer; a failed lookup is a dangling one.
\<close>

record links =
  l_next :: "nat option"
  l_prev :: "nat option"

record conn_list =
  cl_head :: "nat option"
  cl_links :: "nat \<Rightarrow> links option"

definition upd_link :: "nat \<Rightarrow> (links \<Rightarrow> links) \<Rightarrow> (nat \<Rightarrow> links option) \<Rightarrow> (nat \<Rightarrow> links option) option" where
  "upd_link a f h = (case h a of None \<Rightarrow> None | Some l \<Rightarrow> Some (h(a \<mapsto> f l)))"

definition mg_add_conn :: "conn_list \<Rightarrow> nat \<Rightarrow> conn_list option" where
  "mg_add_conn mgr c = do {
     h1 \<leftarrow> upd_link c (\<lambda>l. l\<lparr>l_next := cl_head mgr, l_prev := None\<rparr>) (cl_links mgr);
     h2 \<leftarrow> (case cl_head mgr of None \<Rightarrow> Some h1 | Some n \<Rightarrow> upd_link n (\<lambda>l. l\<lparr>l_prev := Some c\<rparr>) h1);
     Some \<lparr>cl_head = Some c, cl_links = h2\<rparr> }"

definition mg_remove_conn :: "conn_list \<Rightarrow> nat \<Rightarrow> conn_list option" where
  "mg_remove_conn mgr c = do {
     l \<leftarrow> cl_links mgr c;
     let head = (if l_prev l = None then l_next l else cl_head mgr);
     h1 \<leftarrow> (case l_prev l of None \<Rightarrow> Some (cl_links mgr)
            | Some p \<Rightarrow> upd_link p (\<lambda>k. k\<lparr>l_next := l_next l\<rparr>) (cl_links mgr));
     h2 \<leftarrow> (case l_next l of None \<Rightarrow> Some h1
            | Some n \<Rightarrow> upd_link n (\<lambda>k. k\<lparr>l_prev := l_prev l\<rparr>) h1);
     h3 \<leftarrow> upd_link c (\<lambda>k. k\<lparr>l_next := None, l_prev := None\<rparr>) h2;
     Some \<lparr>cl_head = head, cl_links = h3\<rparr> }"

definition mg_next :: "conn_list \<Rightarrow> nat option \<Rightarrow> nat option option" where
  "mg_next s conn = (case conn of None \<Rightarrow> Some (cl_head s) | Some c \<Rightarrow> map_option l_next (cl_links s c))"

section \<open>Flags\<close>

lemma and_nonzero: "w AND f \<noteq> 0 \<longleftrightarrow> (\<exists>n. bit w n \<and> bit (f::u64) n)"
proof -
  have "w AND f = 0 \<longleftrightarrow> (\<forall>n. \<not> (bit w n \<and> bit f n))"
  proof -
    have "bit w n \<Longrightarrow> n < 64" for n using bit_imp_le_length [of w n] by simp
    then show ?thesis by (auto simp: bit_eq_iff bit_simps)
  qed
  then show ?thesis by blast
qed

lemma has_flag_or: "has_flag (nc\<lparr>nc_flags := a OR b\<rparr>) f \<longleftrightarrow> a AND f \<noteq> 0 \<or> b AND f \<noteq> 0"
  by (auto simp: has_flag_def and_nonzero bit_simps)

lemma has_flag_set [simp]: "has_flag (set_flag f nc) g \<longleftrightarrow> has_flag nc g \<or> f AND g \<noteq> 0"
  by (auto simp: set_flag_def has_flag_def and_nonzero bit_simps)

lemma set_clear_flag [simp]:
  "nc_send (set_flag f nc) = nc_send nc" "nc_recv (set_flag f nc) = nc_recv nc"
  "nc_user (set_flag f nc) = nc_user nc" "nc_flags (set_flag f nc) = nc_flags nc OR f"
  "nc_send (clear_flag f nc) = nc_send nc" "nc_recv (clear_flag f nc) = nc_recv nc"
  "nc_user (clear_flag f nc) = nc_user nc" "nc_flags (clear_flag f nc) = nc_flags nc AND NOT f"
  by (simp_all add: set_flag_def clear_flag_def)

lemma mask_out: "((a AND NOT m) OR (b AND m)) AND NOT m = a AND NOT (m :: u64)"
  by (rule bit_word_eqI) (auto simp: bit_simps)

text \<open>The flags the user's callbacks cannot change.\<close>

lemma mg_call_user_flags:
  "nc_flags (mg_call_user uh ev nc) AND NOT callback_modifiable_flags = nc_flags nc AND NOT callback_modifiable_flags"
proof (cases uh)
  case (Some h)
  show ?thesis
  proof (cases "nc_flags (h ev nc) = nc_flags nc")
    case False
    then have "nc_flags (mg_call_user uh ev nc) = (nc_flags nc AND NOT callback_modifiable_flags) OR
        (nc_flags (h ev nc) AND callback_modifiable_flags)"
      by (simp add: Some mg_call_user_def Let_def)
    then show ?thesis by (simp only: mask_out)
  qed (simp add: Some mg_call_user_def)
qed (simp add: mg_call_user_def)

lemma mg_call_user_send: "nc_send (mg_call_user uh ev nc) = (case uh of None \<Rightarrow> nc_send nc | Some h \<Rightarrow> nc_send (h ev nc))"
  "nc_recv (mg_call_user uh ev nc) = (case uh of None \<Rightarrow> nc_recv nc | Some h \<Rightarrow> nc_recv (h ev nc))"
  "nc_user (mg_call_user uh ev nc) = (case uh of None \<Rightarrow> nc_user nc | Some h \<Rightarrow> nc_user (h ev nc))"
  by (auto simp: mg_call_user_def Let_def split: option.splits)

definition kernel_flags :: u64 where
  "kernel_flags = MG_F_LISTENING OR MG_F_UDP OR MG_F_SSL OR MG_F_SSL_HANDSHAKE_DONE OR MG_F_RESOLVING"

lemma kernel_flags_masks:
  "kernel_flags AND callback_modifiable_flags = 0" "kernel_flags AND MG_F_CLOSE_IMMEDIATELY = 0"
  "kernel_flags AND MG_F_SEND_AND_CLOSE = 0" "kernel_flags AND MG_F_CONNECTING = 0"
  unfolding kernel_flags_def callback_modifiable_flags_def flag_defs by simp_all

lemma and_or_disjoint:
  assumes "k AND f = (0 :: u64)"
  shows "(a OR f) AND k = a AND k" and "(a AND NOT f) AND k = a AND k"
proof -
  have "\<not> (bit k n \<and> bit f n)" for n using assms and_nonzero by blast
  then show "(a OR f) AND k = a AND k" and "(a AND NOT f) AND k = a AND k"
    by (auto intro!: bit_word_eqI simp: bit_simps)
qed

lemma kernel_flags_kept [simp]:
  "(a OR MG_F_CLOSE_IMMEDIATELY) AND kernel_flags = a AND kernel_flags"
  "(a OR MG_F_SEND_AND_CLOSE) AND kernel_flags = a AND kernel_flags"
  "(a AND NOT MG_F_CONNECTING) AND kernel_flags = a AND kernel_flags"
  by (rule and_or_disjoint, rule kernel_flags_masks)+

lemma mg_call_user_kernel_flags:
  "nc_flags (mg_call_user uh ev nc) AND kernel_flags = nc_flags nc AND kernel_flags"
proof -
  let ?m = "callback_modifiable_flags"
  have e: "a AND kernel_flags = (a AND NOT ?m) AND kernel_flags" for a
    by (rule and_or_disjoint(2) [OF kernel_flags_masks(1), symmetric])
  show ?thesis
    by (subst e, subst mg_call_user_flags) (rule e [symmetric])
qed

section \<open>The byte stream of a connection\<close>

text \<open>
  Handlers that only append to the send buffer, and keep a log of what they appended: the
  contract under which the bytes on the wire are exactly what was sent.
\<close>

definition logs :: "('u \<Rightarrow> bytes) \<Rightarrow> 'u mg_connection \<Rightarrow> 'u mg_connection \<Rightarrow> bool" where
  "logs lg nc nc' \<longleftrightarrow>
     (\<exists>d. mbuf_bytes (nc_send nc') = mbuf_bytes (nc_send nc) @ d \<and> lg (nc_user nc') = lg (nc_user nc) @ d) \<and>
     mbuf_inv (nc_send nc')"

definition logging_handler :: "('u \<Rightarrow> bytes) \<Rightarrow> ('d, 'u) handler \<Rightarrow> bool" where
  "logging_handler lg h \<longleftrightarrow> (\<forall>ev nc. mbuf_inv (nc_send nc) \<longrightarrow> logs lg nc (h ev nc))"

definition logging :: "('u \<Rightarrow> bytes) \<Rightarrow> ('d, 'u) handlers \<Rightarrow> bool" where
  "logging lg hs \<longleftrightarrow> (\<forall>h. proto_handler hs = Some h \<longrightarrow> logging_handler lg h) \<and>
     (\<forall>h. user_handler hs = Some h \<longrightarrow> logging_handler lg h)"

lemma logs_refl: "mbuf_inv (nc_send nc) \<Longrightarrow> logs lg nc nc"
  by (simp add: logs_def)

lemma logs_trans: "logs lg a b \<Longrightarrow> logs lg b c \<Longrightarrow> logs lg a c"
  by (auto simp: logs_def)

lemma logs_fields:
  "nc_send b' = nc_send b \<Longrightarrow> nc_user b' = nc_user b \<Longrightarrow> logs lg a b \<Longrightarrow> logs lg a b'"
  "nc_send a' = nc_send a \<Longrightarrow> nc_user a' = nc_user a \<Longrightarrow> logs lg a b \<Longrightarrow> logs lg a' b"
  by (simp_all add: logs_def)

lemma logs_call:
  assumes "logging lg hs" and "mbuf_inv (nc_send nc)"
  shows "logs lg nc (mg_call hs ev nc)"
proof (cases "proto_handler hs")
  case (Some p)
  with assms show ?thesis by (simp add: mg_call_def logging_def logging_handler_def)
next
  case None
  show ?thesis
  proof (cases "user_handler hs")
    case (Some h)
    with assms have "logs lg nc (h ev nc)" by (simp add: logging_def logging_handler_def)
    with None Some show ?thesis by (simp add: mg_call_def logs_def mg_call_user_send)
  qed (use None assms(2) in \<open>simp add: mg_call_def mg_call_user_def logs_refl\<close>)
qed

lemma logs_inv: "logs lg a b \<Longrightarrow> mbuf_inv (nc_send b)"
  by (simp add: logs_def)

lemma logs_call_after:
  "logging lg hs \<Longrightarrow> logs lg a b \<Longrightarrow> logs lg a (mg_call hs ev b)"
  by (rule logs_trans, assumption, rule logs_call) (simp_all add: logs_inv)

lemma logs_connect:
  assumes "logging lg hs" and "mbuf_inv (nc_send nc)"
  shows "logs lg nc (mg_if_connect_cb hs err nc)"
  unfolding mg_if_connect_cb_def Let_def
  by (rule logs_call_after [OF assms(1)]) (simp add: logs_def assms(2))

lemma logs_poll: "logging lg hs \<Longrightarrow> logs lg a b \<Longrightarrow> logs lg a (mg_if_poll hs now b)"
  by (simp add: mg_if_poll_def logs_call_after)

lemma logs_timer: "logging lg hs \<Longrightarrow> logs lg a b \<Longrightarrow> logs lg a (mg_if_timer hs now b)"
  using logs_call_after [of lg hs a b "EvTimer now"] by (simp add: mg_if_timer_def Let_def logs_def)

lemma logs_recv:
  assumes "logging lg hs" and "logs lg a b"
  shows "logs lg a (mg_recv_common io hs addr d own b)"
proof (cases "has_flag b MG_F_CLOSE_IMMEDIATELY")
  case False
  then show ?thesis
    unfolding mg_recv_common_def Let_def
    by (simp only: if_False) (rule logs_call_after [OF assms(1) logs_fields(1) [OF _ _ assms(2)]]; simp)
qed (use assms(2) in \<open>simp add: mg_recv_common_def\<close>)

lemma logs_read:
  assumes "logging lg hs" and "logs lg a b"
  shows "logs lg a (mg_handle_tcp_read io hs b)"
  using logs_recv [OF assms, of io "io_malloc io"] assms(2)
  by (auto simp: mg_handle_tcp_read_def mg_if_recv_tcp_cb_def logs_def split: prod.splits)

lemma logs_udp_common:
  assumes "logging lg hs" and "logs lg a b" and "udp_recv_common io hs blk b = Some c"
  shows "logs lg a c"
proof (cases blk)
  case NoBlock
  have "logs lg a (mg_call hs (EvRecv (- ENOMEM)) (b\<lparr>nc_last_io_time := io_now io\<rparr>))"
    by (rule logs_call_after [OF assms(1) logs_fields(1) [OF _ _ assms(2)]]) simp_all
  then show ?thesis using NoBlock assms(2,3) by (auto simp: udp_recv_common_def split: if_splits)
qed (use assms(3) logs_recv [OF assms(1,2)] in \<open>auto simp: udp_recv_common_def\<close>)

lemma logs_turn_read:
  assumes "logging lg hs" and "logs lg a b" and "turn_read io hs fd peers b = Some (c, other)"
  shows "logs lg a c"
  using assms(2,3) logs_read [OF assms(1,2)] logs_udp_common [OF assms(1,2)]
  by (auto simp: turn_read_def mg_handle_udp_read_def mg_if_recv_udp_cb_def split: if_splits option.splits)

lemma logs_udp_peer:
  assumes "logging lg hs" and "logs lg a b" and "mg_handle_udp_read io hs peers lc = Some (lc', Some c)" and "udp_peer io peers = Some b"
  shows "logs lg a c"
  using assms(3,4) logs_udp_common [OF assms(1,2)]
  by (auto simp: mg_handle_udp_read_def mg_if_recv_udp_cb_def split: if_splits)

lemma write_stream:
  assumes l: "logging lg hs" and inv: "mbuf_inv (nc_send nc)" and ne: "mb_len (nc_send nc) > 0"
    and sys: "\<And>b. io_send io b \<le> int (length b)"
  shows "\<exists>sent nc' d. mg_write_to_socket io hs nc = Some (sent, nc') \<and>
     sent @ mbuf_bytes (nc_send nc') = mbuf_bytes (nc_send nc) @ d \<and>
     lg (nc_user nc') = lg (nc_user nc) @ d \<and> mbuf_inv (nc_send nc')"
proof -
  let ?b = "mbuf_bytes (nc_send nc)" and ?n = "io_send io (mbuf_bytes (nc_send nc))"
  let ?nc1 = "nc\<lparr>nc_send := mbuf_remove (nc_send nc) (nat ?n)\<rparr>"
  show ?thesis
  proof (cases "?n > 0")
    case True
    have n: "nat ?n \<le> mb_len (nc_send nc)" using sys [of ?b] inv True by simp
    have r: "mbuf_inv (nc_send ?nc1)" "mbuf_bytes (nc_send ?nc1) = drop (nat ?n) ?b"
      using mbuf_remove_bytes [OF inv, of "nat ?n"] n by simp_all
    have "logs lg ?nc1 (mg_if_sent_cb hs ?n ?nc1)"
      unfolding mg_if_sent_cb_def using True l r(1) by (simp add: logs_call)
    then obtain d where d: "mbuf_bytes (nc_send (mg_if_sent_cb hs ?n ?nc1)) = drop (nat ?n) ?b @ d"
      "lg (nc_user (mg_if_sent_cb hs ?n ?nc1)) = lg (nc_user nc) @ d" "mbuf_inv (nc_send (mg_if_sent_cb hs ?n ?nc1))"
      using r(2) by (auto simp: logs_def)
    have "mg_write_to_socket io hs nc = Some (take (nat ?n) ?b, mg_if_sent_cb hs ?n ?nc1)"
      using True ne by (simp add: mg_write_to_socket_def Let_def)
    then show ?thesis using d by simp
  next
    case False
    then have "mg_write_to_socket io hs nc = Some ([], nc) \<or>
        mg_write_to_socket io hs nc = Some ([], set_flag MG_F_CLOSE_IMMEDIATELY nc)"
      using ne by (auto simp: mg_write_to_socket_def Let_def)
    with inv show ?thesis by auto
  qed
qed

lemma turn_cases:
  assumes "mg_mgr_handle_conn io hs fd now peers nc = Some (sent, nc', other)"
  obtains nc2 where "turn_read io hs fd peers (turn_connect io hs fd nc) = Some (nc2, other)" and "sent = []" and "nc' = nc2"
  | nc2 nc3 where "turn_read io hs fd peers (turn_connect io hs fd nc) = Some (nc2, other)"
    and "turn_write io hs fd nc2 = Some (sent, nc3)" and "nc' = mg_if_timer hs now (mg_if_poll hs now nc3)"
  using assms by (auto simp: mg_mgr_handle_conn_def split: if_splits Option.bind_splits prod.splits)

lemma turn_stream:
  assumes l: "logging lg hs" and inv: "mbuf_inv (nc_send nc)" and sys: "\<And>b. io_send io b \<le> int (length b)"
    and t: "mg_mgr_handle_conn io hs fd now peers nc = Some (sent, nc', other)"
  shows "\<exists>d. sent @ mbuf_bytes (nc_send nc') = mbuf_bytes (nc_send nc) @ d \<and>
     lg (nc_user nc') = lg (nc_user nc) @ d \<and> mbuf_inv (nc_send nc')"
proof -
  have c: "logs lg nc (turn_connect io hs fd nc)"
    unfolding turn_connect_def using logs_connect [OF l inv] logs_refl [OF inv] by simp
  show ?thesis using t
  proof (cases rule: turn_cases)
    case (1 nc2)
    have "logs lg nc nc2" by (rule logs_turn_read [OF l c 1(1)])
    then show ?thesis using 1 by (auto simp: logs_def)
  next
    case (2 nc2 nc3)
    have "logs lg nc nc2" by (rule logs_turn_read [OF l c 2(1)])
    then obtain d1 where d1: "mbuf_bytes (nc_send nc2) = mbuf_bytes (nc_send nc) @ d1"
      "lg (nc_user nc2) = lg (nc_user nc) @ d1" "mbuf_inv (nc_send nc2)" by (auto simp: logs_def)
    have "\<exists>d2. sent @ mbuf_bytes (nc_send nc3) = mbuf_bytes (nc_send nc2) @ d2 \<and>
        lg (nc_user nc3) = lg (nc_user nc2) @ d2 \<and> mbuf_inv (nc_send nc3)"
      using write_stream [OF l d1(3) _ sys] d1(3) 2(2) by (auto simp: turn_write_def split: if_splits)
    then obtain d2 where s2: "sent @ mbuf_bytes (nc_send nc3) = mbuf_bytes (nc_send nc2) @ d2"
      and u2: "lg (nc_user nc3) = lg (nc_user nc2) @ d2" and i3: "mbuf_inv (nc_send nc3)" by blast
    have "logs lg nc3 nc'" unfolding 2(3) by (intro logs_timer [OF l] logs_poll [OF l] logs_refl i3)
    then obtain d3 where d3: "mbuf_bytes (nc_send nc') = mbuf_bytes (nc_send nc3) @ d3"
      "lg (nc_user nc') = lg (nc_user nc3) @ d3" "mbuf_inv (nc_send nc')" by (auto simp: logs_def)
    have "sent @ mbuf_bytes (nc_send nc') = mbuf_bytes (nc_send nc) @ (d1 @ d2 @ d3)"
      unfolding d3(1) using s2 d1(1) by (metis append_assoc)
    moreover have "lg (nc_user nc') = lg (nc_user nc) @ (d1 @ d2 @ d3)"
      using d3(2) u2 d1(2) by simp
    ultimately show ?thesis using d3(3) by blast
  qed
qed

section \<open>Runs of the poll loop\<close>

text \<open>
  A connection's life between two points: turns of the poll loop with any system results, any
  events and any times, with the bytes that went out.  A UDP connection of a listener also gets datagrams in turns of its listener.
\<close>

inductive turns :: "('d, 'u) handlers \<Rightarrow> 'u mg_connection \<Rightarrow> bytes \<Rightarrow> 'u mg_connection \<Rightarrow> bool"
  for hs :: "('d, 'u) handlers" where
  turns_refl: "turns hs nc [] nc"
| turns_step: "turns hs nc w nc1 \<Longrightarrow> (\<And>b. io_send io b \<le> int (length b)) \<Longrightarrow>
    mg_mgr_handle_conn io hs fd now peers nc1 = Some (sent, nc2, other) \<Longrightarrow> turns hs nc (w @ sent) nc2"
| turns_datagram: "turns hs nc w nc1 \<Longrightarrow> udp_peer io peers = Some nc1 \<Longrightarrow>
    mg_handle_udp_read io hs peers lc = Some (lc', Some nc2) \<Longrightarrow> turns hs nc w nc2"

inductive_cases turnsE: "turns hs nc w nc'"

lemma turns_stream:
  assumes "turns hs nc w nc'" and "logging lg hs" and "mbuf_inv (nc_send nc)"
  shows "\<exists>d. w @ mbuf_bytes (nc_send nc') = mbuf_bytes (nc_send nc) @ d \<and>
    lg (nc_user nc') = lg (nc_user nc) @ d \<and> mbuf_inv (nc_send nc')"
  using assms
proof (induction rule: turns.induct)
  case (turns_step nc w nc1 io fd now peers sent nc2 other)
  then obtain d1 where d1: "w @ mbuf_bytes (nc_send nc1) = mbuf_bytes (nc_send nc) @ d1"
    "lg (nc_user nc1) = lg (nc_user nc) @ d1" "mbuf_inv (nc_send nc1)" by blast
  from turn_stream [OF turns_step.prems(1) d1(3) turns_step.hyps(2,3)]
  obtain d2 where d2: "sent @ mbuf_bytes (nc_send nc2) = mbuf_bytes (nc_send nc1) @ d2"
    "lg (nc_user nc2) = lg (nc_user nc1) @ d2" "mbuf_inv (nc_send nc2)" by auto
  have "(w @ sent) @ mbuf_bytes (nc_send nc2) = mbuf_bytes (nc_send nc) @ (d1 @ d2)"
    using d1(1) d2(1) by (metis append_assoc)
  then show ?case using d1(2) d2(2,3) by auto
next
  case (turns_datagram nc w nc1 io peers lc lc' nc2)
  then obtain d1 where d1: "w @ mbuf_bytes (nc_send nc1) = mbuf_bytes (nc_send nc) @ d1"
    "lg (nc_user nc1) = lg (nc_user nc) @ d1" "mbuf_inv (nc_send nc1)" by blast
  have "logs lg nc1 nc2"
    by (rule logs_udp_peer [OF turns_datagram.prems(1) logs_refl [OF d1(3)] turns_datagram.hyps(3,2)])
  then obtain d2 where d2: "mbuf_bytes (nc_send nc2) = mbuf_bytes (nc_send nc1) @ d2"
    "lg (nc_user nc2) = lg (nc_user nc1) @ d2" "mbuf_inv (nc_send nc2)" by (auto simp: logs_def)
  have "w @ mbuf_bytes (nc_send nc2) = mbuf_bytes (nc_send nc) @ (d1 @ d2)" unfolding d2(1) using d1(1) by (metis append_assoc)
  then show ?case using d1(2) d2(2,3) by auto
qed simp

text \<open>The flags only the library sets survive every turn, whatever the user's handler does.\<close>

definition handler_keeps :: "('u mg_connection \<Rightarrow> 'v) \<Rightarrow> ('d, 'u) handlers \<Rightarrow> bool" where
  "handler_keeps f hs \<longleftrightarrow> (\<forall>ev nc. f (mg_call hs ev nc) = f nc)"

definition kflags :: "'u mg_connection \<Rightarrow> u64" where
  "kflags nc = nc_flags nc AND kernel_flags"

lemma kflags_simps [simp]:
  "kflags (set_flag MG_F_CLOSE_IMMEDIATELY nc) = kflags nc" "kflags (set_flag MG_F_SEND_AND_CLOSE nc) = kflags nc"
  "kflags (clear_flag MG_F_CONNECTING nc) = kflags nc"
  by (simp_all only: kflags_def set_clear_flag kernel_flags_kept)

lemma kflags_fields [simp]:
  "kflags (nc\<lparr>nc_send := x\<rparr>) = kflags nc" "kflags (nc\<lparr>nc_recv := x\<rparr>) = kflags nc"
  "kflags (nc\<lparr>nc_last_io_time := t\<rparr>) = kflags nc" "kflags (nc\<lparr>nc_ev_timer_time := t\<rparr>) = kflags nc"
  by (simp_all add: kflags_def)

lemma kflags_call: "proto_handler hs = None \<Longrightarrow> kflags (mg_call hs ev nc) = kflags nc"
  unfolding kflags_def mg_call_def by (simp only: option.case mg_call_user_kernel_flags)

lemma turn_kflags:
  assumes p: "proto_handler hs = None" and t: "mg_mgr_handle_conn io hs fd now peers nc = Some (sent, nc', other)"
  shows "kflags nc' = kflags nc"
proof -
  note c = kflags_call [OF p]
  have conn: "kflags (mg_if_connect_cb hs e nc) = kflags nc" for e and nc :: "'b mg_connection"
    by (simp add: mg_if_connect_cb_def Let_def c)
  have recv: "kflags (mg_recv_common io hs a b True nc) = kflags nc" for a b and nc :: "'b mg_connection"
    by (simp add: mg_recv_common_def Let_def c)
  have read: "kflags (mg_handle_tcp_read io hs nc) = kflags nc" for nc :: "'b mg_connection"
    by (auto simp: mg_handle_tcp_read_def mg_if_recv_tcp_cb_def recv Let_def split: prod.splits)
  have sent: "kflags (mg_if_sent_cb hs n nc) = kflags nc" for n and nc :: "'b mg_connection"
    by (simp add: mg_if_sent_cb_def c)
  have wr: "mg_write_to_socket io hs nc = Some (s, nc'') \<Longrightarrow> kflags nc'' = kflags nc" for s nc'' and nc :: "'b mg_connection"
    by (auto simp: mg_write_to_socket_def Let_def sent split: if_splits)
  have poll: "kflags (mg_if_timer hs now (mg_if_poll hs now nc)) = kflags nc" for nc :: "'b mg_connection"
    by (simp add: mg_if_timer_def mg_if_poll_def Let_def c)
  have udp: "udp_recv_common io hs blk nc = Some nc'' \<Longrightarrow> kflags nc'' = kflags nc" for blk nc'' and nc :: "'b mg_connection"
    by (auto simp: udp_recv_common_def recv c split: udp_block.splits if_splits)
  have k2: "kflags nc2 = kflags nc" if "turn_read io hs fd peers (turn_connect io hs fd nc) = Some (nc2, other)" for nc2
    using that by (auto simp: turn_read_def turn_connect_def mg_handle_udp_read_def mg_if_recv_udp_cb_def conn read
      split: if_splits option.splits dest: udp)
  show ?thesis using t
  proof (cases rule: turn_cases)
    case (2 nc2 nc3)
    then have "kflags nc3 = kflags nc2" using wr by (auto simp: turn_write_def split: if_splits)
    then show ?thesis using 2(3) k2 [OF 2(1)] poll by simp
  qed (use k2 in simp)
qed

section \<open>Receiving\<close>

lemma mbuf_add_bytes:
  assumes "reliable K ra" and "mbuf_inv m" and "mbuf_grow (mb_len m + length b) \<le> K"
  shows "mbuf_bytes (mbuf_add ra m b) = mbuf_bytes m @ b" and "mbuf_inv (mbuf_add ra m b)"
proof -
  have "mbuf_has (Some m) (mbuf_bytes m)" using assms(2) by (simp add: mbuf_has_def)
  from mbuf_has_push [OF assms(1) this, of b] assms(2,3)
  show "mbuf_bytes (mbuf_add ra m b) = mbuf_bytes m @ b" and "mbuf_inv (mbuf_add ra m b)"
    by (auto simp: mbuf_has_def mbuf_add_def)
qed

lemma recv_common_spec:
  assumes ra: "reliable K (io_ra io)" and inv: "mbuf_inv (nc_recv nc)"
    and fits: "mbuf_grow (mb_len (nc_recv nc) + length b) \<le> K" and addr: "0 < addr" "addr < USER_SPACE"
  shows "\<exists>nc1. mg_recv_common io hs addr b own nc =
      (if has_flag nc MG_F_CLOSE_IMMEDIATELY then nc else mg_call hs (EvRecv (int (length b))) nc1) \<and>
    mbuf_inv (nc_recv nc1) \<and> mbuf_bytes (nc_recv nc1) = mbuf_bytes (nc_recv nc) @ b \<and> nc_send nc1 = nc_send nc \<and>
    nc_user nc1 = nc_user nc \<and> nc_flags nc1 = nc_flags nc"
proof -
  let ?nc = "nc\<lparr>nc_last_io_time := io_now io\<rparr>"
  let ?own = "?nc\<lparr>nc_recv := \<lparr>mb_addr = addr, mb_mem = b, mb_len = length b, mb_size = length b\<rparr>\<rparr>"
  let ?app = "?nc\<lparr>nc_recv := mbuf_add (io_ra io) (nc_recv ?nc) b\<rparr>"
  let ?nc1 = "if own \<and> mb_len (nc_recv ?nc) = 0 then ?own else ?app"
  have "mbuf_inv (nc_recv ?nc1) \<and> mbuf_bytes (nc_recv ?nc1) = mbuf_bytes (nc_recv nc) @ b"
  proof (cases "own \<and> mb_len (nc_recv nc) = 0")
    case True
    then have "mbuf_bytes (nc_recv nc) = []" using inv by (metis length_0_conv length_mbuf_bytes)
    then show ?thesis using True addr by (simp add: mbuf_bytes_def mbuf_inv_def)
  next
    case False
    then show ?thesis using mbuf_add_bytes [OF ra inv fits] by auto
  qed
  then show ?thesis by (intro exI [of _ ?nc1]) (simp add: mg_recv_common_def Let_def)
qed

lemma closing_turn:
  assumes "has_flag nc MG_F_CLOSE_IMMEDIATELY" and "\<not> has_flag nc MG_F_CONNECTING" and "\<not> has_flag nc MG_F_UDP"
  shows "\<exists>nc' other. mg_mgr_handle_conn io hs fd now peers nc = Some ([], nc', other) \<and> nc_recv nc' = nc_recv nc \<and>
    nc_send nc' = nc_send nc \<and> nc_user nc' = nc_user nc \<and> must_close nc' \<and> (other \<noteq> None \<longrightarrow> has_flag nc MG_F_LISTENING)"
proof -
  let ?nc2 = "if fd_can_read fd \<and> \<not> has_flag nc MG_F_LISTENING then mg_handle_tcp_read io hs nc else nc"
  let ?o = "if fd_can_read fd \<and> has_flag nc MG_F_LISTENING then mg_accept_conn io hs nc else None"
  have r: "turn_read io hs fd peers (turn_connect io hs fd nc) = Some (?nc2, ?o)"
    using assms(2,3) by (simp add: turn_read_def turn_connect_def)
  have "has_flag ?nc2 MG_F_CLOSE_IMMEDIATELY \<and> nc_recv ?nc2 = nc_recv nc \<and> nc_send ?nc2 = nc_send nc \<and> nc_user ?nc2 = nc_user nc"
    using assms(1) by (auto simp: mg_handle_tcp_read_def mg_if_recv_tcp_cb_def mg_recv_common_def Let_def split: prod.splits)
  then show ?thesis
    by (intro exI [of _ ?nc2] exI [of _ ?o]) (simp add: mg_mgr_handle_conn_def r must_close_def)
qed

section \<open>The list of connections\<close>

definition first_of :: "nat list \<Rightarrow> nat option \<Rightarrow> nat option" where
  "first_of xs n = (case xs of [] \<Rightarrow> n | x # _ \<Rightarrow> Some x)"

definition last_of :: "nat list \<Rightarrow> nat option \<Rightarrow> nat option" where
  "last_of xs p = (if xs = [] then p else Some (last xs))"

fun chain :: "(nat \<Rightarrow> links option) \<Rightarrow> nat option \<Rightarrow> nat list \<Rightarrow> nat option \<Rightarrow> bool" where
  "chain h p [] n = True"
| "chain h p (x # xs) n = (h x = Some \<lparr>l_next = first_of xs n, l_prev = p\<rparr> \<and> chain h (Some x) xs n)"

definition conn_list :: "conn_list \<Rightarrow> nat list \<Rightarrow> bool" where
  "conn_list mgr xs \<longleftrightarrow> distinct xs \<and> cl_head mgr = first_of xs None \<and> chain (cl_links mgr) None xs None"

lemma chain_append: "chain h p (xs @ ys) n \<longleftrightarrow> chain h p xs (first_of ys n) \<and> chain h (last_of xs p) ys n"
  by (induction xs arbitrary: p) (auto simp: first_of_def last_of_def split: list.splits)

lemma chain_cong: "(\<And>x. x \<in> set xs \<Longrightarrow> h x = h' x) \<Longrightarrow> chain h p xs n \<longleftrightarrow> chain h' p xs n"
  by (induction xs arbitrary: p) auto

lemma chain_upd: "a \<notin> set xs \<Longrightarrow> chain (h(a := v)) p xs n \<longleftrightarrow> chain h p xs n"
  by (rule chain_cong) auto

lemma add_conn_list:
  assumes "conn_list mgr xs" and "c \<notin> set xs" and "cl_links mgr c \<noteq> None"
  shows "\<exists>mgr'. mg_add_conn mgr c = Some mgr' \<and> conn_list mgr' (c # xs)"
proof (cases xs)
  case Nil
  with assms show ?thesis by (auto simp: conn_list_def mg_add_conn_def upd_link_def first_of_def)
next
  case (Cons x r)
  with assms have "distinct (x # r)" "cl_head mgr = Some x" "c \<noteq> x" "c \<notin> set r"
    "cl_links mgr x = Some \<lparr>l_next = first_of r None, l_prev = None\<rparr>" "chain (cl_links mgr) (Some x) r None"
    by (auto simp: conn_list_def first_of_def)
  with assms(3) Cons show ?thesis
    by (auto simp: conn_list_def mg_add_conn_def upd_link_def first_of_def chain_upd)
qed

lemma remove_conn_list:
  assumes "conn_list mgr xs" and "c \<in> set xs"
  shows "\<exists>mgr'. mg_remove_conn mgr c = Some mgr' \<and> conn_list mgr' (remove1 c xs) \<and>
    cl_links mgr' c = Some \<lparr>l_next = None, l_prev = None\<rparr>"
proof -
  from assms(2) obtain as bs where xs: "xs = as @ c # bs" and ca: "c \<notin> set as" by (meson split_list_first)
  from assms(1) have d: "distinct (as @ c # bs)" and hd: "cl_head mgr = first_of (as @ c # bs) None"
    and ch: "chain (cl_links mgr) None (as @ c # bs) None" by (simp_all add: conn_list_def xs)
  have lc: "cl_links mgr c = Some \<lparr>l_next = first_of bs None, l_prev = last_of as None\<rparr>"
    using ch by (simp add: chain_append)
  have rem: "remove1 c xs = as @ bs" using ca by (simp add: xs remove1_append)
  show ?thesis
  proof (cases as rule: rev_cases)
    case Nil
    then show ?thesis
      using d hd ch lc unfolding rem
      by (cases bs) (auto simp: mg_remove_conn_def upd_link_def conn_list_def first_of_def last_of_def chain_upd)
  next
    case (snoc as' a)
    have la: "cl_links mgr a = Some \<lparr>l_next = Some c, l_prev = last_of as' None\<rparr>"
      using ch by (simp add: snoc chain_append first_of_def)
    have hd': "cl_head mgr = first_of (as @ bs) None" using hd snoc by (cases as') (simp_all add: first_of_def)
    show ?thesis
      using d ch lc la hd' unfolding rem snoc
      by (cases bs) (auto simp: mg_remove_conn_def upd_link_def conn_list_def first_of_def last_of_def chain_upd chain_append)
  qed
qed

section \<open>Properties\<close>

definition idle_handlers :: "(unit, bytes) handlers" where
  "idle_handlers = \<lparr>proto_handler = None, user_handler = None\<rparr>"

definition demo_io :: io where
  "demo_io = \<lparr>io_now = 7, io_ra = arena_realloc, io_send = (\<lambda>b. if b = [] then 0 else 1), io_send_err = False,
     io_recv = (\<lambda>n. (2, [8, 9])), io_recv_err = False, io_soerror = (0, 0), io_malloc = 4096,
     io_accept = None, io_calloc = True, io_recvfrom = (0, [], [])\<rparr>"

definition demo_conn :: "bytes mg_connection" where
  "demo_conn = (mg_create_connection_base 0 0 [])
     \<lparr>nc_send := \<lparr>mb_addr = 64, mb_mem = [5, 6], mb_len = 2, mb_size = 2\<rparr>\<rparr>"

lemma demo_simps:
  "mbuf_inv (nc_send demo_conn)" "mbuf_bytes (nc_send demo_conn) = [5, 6]" "mbuf_inv (nc_recv demo_conn)"
  "mbuf_bytes (nc_recv demo_conn) = []" "logging (\<lambda>u. u) idle_handlers"
  "mb_len (nc_recv demo_conn) = 0" "nc_flags demo_conn = 0"
  by (simp_all add: demo_conn_def mg_create_connection_base_def mbuf_inv_def mbuf_bytes_def USER_SPACE_def
      logging_def idle_handlers_def)

text \<open>C19. Over any run of the poll loop in which no assertion fails and no freed block is used, for a TCP, a UDP or a listening
  connection, with any results of the system calls (\<open>send\<close> takes no more than it is given) and any events, the bytes handed to the
  peer followed by what is still in the send buffer are what was in the buffer at the start followed by exactly what the handlers
  appended since, in order: nothing is lost, repeated or reordered.  The handlers only append to the send buffer, and log what they append.\<close>

theorem conn_stream_integrity:
  assumes "turns hs nc w nc'" and "logging lg hs" and "mbuf_inv (nc_send nc)"
  shows "\<exists>d. w @ mbuf_bytes (nc_send nc') = mbuf_bytes (nc_send nc) @ d \<and>
    lg (nc_user nc') = lg (nc_user nc) @ d \<and> mbuf_inv (nc_send nc')"
  using assms by (rule turns_stream)

theorem conn_stream_integrity_witness:
  "\<exists>nc' d. turns idle_handlers demo_conn [5] nc' \<and> [5] @ mbuf_bytes (nc_send nc') = [5, 6] @ d \<and> nc_user nc' = d"
proof -
  have "mg_mgr_handle_conn demo_io idle_handlers \<lparr>fd_can_read = False, fd_can_write = True, fd_error = False\<rparr> 3 [] demo_conn \<noteq> None \<and>
      fst (the (mg_mgr_handle_conn demo_io idle_handlers \<lparr>fd_can_read = False, fd_can_write = True, fd_error = False\<rparr> 3 [] demo_conn)) = [5]"
    by (simp add: demo_io_def demo_conn_def idle_handlers_def mg_mgr_handle_conn_def turn_connect_def turn_read_def
        turn_write_def mg_write_to_socket_def mg_create_connection_base_def has_flag_def mbuf_bytes_def Let_def)
  then obtain nc' other where h: "mg_mgr_handle_conn demo_io idle_handlers
      \<lparr>fd_can_read = False, fd_can_write = True, fd_error = False\<rparr> 3 [] demo_conn = Some ([5], nc', other)" by auto
  have "turns idle_handlers demo_conn ([] @ [5]) nc'"
    by (rule turns_step [OF turns_refl _ h]) (auto simp: demo_io_def Suc_le_eq)
  then have t: "turns idle_handlers demo_conn [5] nc'" by simp
  from conn_stream_integrity [OF t demo_simps(5) demo_simps(1)] t show ?thesis
    by (auto simp: demo_simps(2)) (auto simp: demo_conn_def mg_create_connection_base_def)
qed

text \<open>C20. On a connection without a protocol handler, listening or not, TCP or UDP, the flags that only the library sets (listening,
  UDP, SSL, resolving) are the same after a turn of the poll loop as before it, whatever the user's event handler does to the flags.\<close>

theorem conn_kernel_flags_kept:
  assumes "proto_handler hs = None" and "mg_mgr_handle_conn io hs fd now peers nc = Some (sent, nc', other)"
  shows "nc_flags nc' AND kernel_flags = nc_flags nc AND kernel_flags"
  using turn_kflags [OF assms] by (simp only: kflags_def)

theorem conn_kernel_flags_kept_witness:
  "\<exists>nc' other. mg_mgr_handle_conn demo_io \<lparr>proto_handler = None, user_handler = Some (\<lambda>(ev :: unit mg_event) nc. nc\<lparr>nc_flags := 0xffff\<rparr>)\<rparr>
      \<lparr>fd_can_read = False, fd_can_write = False, fd_error = False\<rparr> 3 [] demo_conn = Some ([], nc', other) \<and>
    nc_flags nc' AND kernel_flags = 0"
proof -
  let ?h = "\<lparr>proto_handler = None, user_handler = Some (\<lambda>(ev :: unit mg_event) nc. nc\<lparr>nc_flags := 0xffff\<rparr>)\<rparr>"
  have "mg_mgr_handle_conn demo_io ?h \<lparr>fd_can_read = False, fd_can_write = False, fd_error = False\<rparr> 3 [] demo_conn =
      Some ([], mg_if_timer ?h 3 (mg_if_poll ?h 3 demo_conn), None)"
    by (simp add: mg_mgr_handle_conn_def turn_connect_def turn_read_def turn_write_def has_flag_def demo_simps)
  moreover from conn_kernel_flags_kept [OF _ this] have
    "nc_flags (mg_if_timer ?h 3 (mg_if_poll ?h 3 demo_conn)) AND kernel_flags = 0" by (simp add: demo_simps)
  ultimately show ?thesis by blast
qed

text \<open>C21. A TCP connection that is marked for immediate closing and is not completing a connect goes through its turn without any
  event: no byte is delivered or sent, and the sweep that follows closes it.  A listener in that state may still accept one more
  connection.\<close>

theorem conn_closing_is_silent:
  assumes "has_flag nc MG_F_CLOSE_IMMEDIATELY" and "\<not> has_flag nc MG_F_CONNECTING" and "\<not> has_flag nc MG_F_UDP"
  shows "\<exists>nc' other. mg_mgr_handle_conn io hs fd now peers nc = Some ([], nc', other) \<and> nc_recv nc' = nc_recv nc \<and>
    nc_send nc' = nc_send nc \<and> nc_user nc' = nc_user nc \<and> must_close nc' \<and> (other \<noteq> None \<longrightarrow> has_flag nc MG_F_LISTENING)"
  using assms by (rule closing_turn)

theorem conn_closing_is_silent_witness:
  "\<exists>nc'. mg_mgr_handle_conn demo_io idle_handlers \<lparr>fd_can_read = True, fd_can_write = True, fd_error = False\<rparr> 3 []
      (set_flag MG_F_CLOSE_IMMEDIATELY demo_conn) = Some ([], nc', None) \<and> must_close nc'"
  using conn_closing_is_silent [of "set_flag MG_F_CLOSE_IMMEDIATELY demo_conn" demo_io idle_handlers
      "\<lparr>fd_can_read = True, fd_can_write = True, fd_error = False\<rparr>" 3 "[]"]
  by (auto simp: has_flag_def demo_simps flag_defs)

text \<open>Received bytes reach the receive buffer in order, whether the caller's buffer is copied or
  adopted, and the handler then sees a receive event of their number; a connection marked for
  closing gets neither.\<close>

theorem mg_recv_common_delivers:
  assumes "reliable K (io_ra io)" and "mbuf_inv (nc_recv nc)"
    and "mbuf_grow (mb_len (nc_recv nc) + length b) \<le> K" and "0 < addr" and "addr < USER_SPACE"
  shows "\<exists>nc1. mg_recv_common io hs addr b own nc =
      (if has_flag nc MG_F_CLOSE_IMMEDIATELY then nc else mg_call hs (EvRecv (int (length b))) nc1) \<and>
    mbuf_inv (nc_recv nc1) \<and> mbuf_bytes (nc_recv nc1) = mbuf_bytes (nc_recv nc) @ b \<and> nc_send nc1 = nc_send nc \<and>
    nc_user nc1 = nc_user nc \<and> nc_flags nc1 = nc_flags nc"
  using assms by (rule recv_common_spec)

theorem mg_recv_common_delivers_witness:
  "\<exists>nc1. mg_recv_common demo_io idle_handlers 4096 [1, 2] True demo_conn = mg_call idle_handlers (EvRecv 2) nc1 \<and>
    mbuf_bytes (nc_recv nc1) = [1, 2]"
proof -
  have "reliable (2 ^ 20) (io_ra demo_io)" by (simp only: demo_io_def io.simps arena_reliable)
  moreover have "mbuf_grow (mb_len (nc_recv demo_conn) + length [1 :: u8, 2]) \<le> 2 ^ 20"
    by (simp add: demo_simps mbuf_grow_def)
  ultimately show ?thesis
    using mg_recv_common_delivers [of "2 ^ 20" demo_io demo_conn "[1, 2]" 4096 idle_handlers True]
    by (auto simp: demo_simps has_flag_def USER_SPACE_def)
qed

text \<open>C22. The manager's doubly linked list: adding a connection puts it in front.\<close>

theorem mg_add_conn_list:
  assumes "conn_list mgr xs" and "c \<notin> set xs" and "cl_links mgr c \<noteq> None"
  shows "\<exists>mgr'. mg_add_conn mgr c = Some mgr' \<and> conn_list mgr' (c # xs)"
  using assms by (rule add_conn_list)

definition demo_list :: conn_list where
  "demo_list = \<lparr>cl_head = Some 1, cl_links = [1 \<mapsto> \<lparr>l_next = Some 2, l_prev = None\<rparr>,
     2 \<mapsto> \<lparr>l_next = None, l_prev = Some 1\<rparr>, 3 \<mapsto> \<lparr>l_next = None, l_prev = None\<rparr>]\<rparr>"

lemma demo_list_ok: "conn_list demo_list [1, 2]"
  by (simp add: conn_list_def demo_list_def first_of_def)

theorem mg_add_conn_list_witness:
  "\<exists>mgr'. mg_add_conn demo_list 3 = Some mgr' \<and> conn_list mgr' [3, 1, 2]"
  using mg_add_conn_list [OF demo_list_ok, of 3] by (simp add: demo_list_def)

text \<open>C23. Removing a connection takes exactly it out of the list, wherever it stands, and clears its links.\<close>

theorem mg_remove_conn_list:
  assumes "conn_list mgr xs" and "c \<in> set xs"
  shows "\<exists>mgr'. mg_remove_conn mgr c = Some mgr' \<and> conn_list mgr' (remove1 c xs) \<and>
    cl_links mgr' c = Some \<lparr>l_next = None, l_prev = None\<rparr>"
  using assms by (rule remove_conn_list)

theorem mg_remove_conn_list_witness:
  "\<exists>mgr'. mg_remove_conn demo_list 1 = Some mgr' \<and> conn_list mgr' [2] \<and>
    cl_links mgr' 1 = Some \<lparr>l_next = None, l_prev = None\<rparr>"
  using mg_remove_conn_list [OF demo_list_ok, of 1] by simp

section \<open>Queued output\<close>

text \<open>What a protocol sends is appended to the send buffer, as long as the allocator serves it.\<close>

definition outq :: "'u mg_connection \<Rightarrow> bytes \<Rightarrow> bool" where
  "outq nc b \<longleftrightarrow> mbuf_inv (nc_send nc) \<and> mbuf_bytes (nc_send nc) = b"

definition mg_sends :: "io \<Rightarrow> bytes list \<Rightarrow> 'u mg_connection \<Rightarrow> 'u mg_connection" where
  "mg_sends io bs nc = fold (mg_send io) bs nc"

lemma outq_len: "outq nc b \<Longrightarrow> mb_len (nc_send nc) = length b"
  using length_mbuf_bytes by (force simp: outq_def)

lemma outq_send:
  assumes "reliable K (io_ra io)" and "outq nc b" and "mbuf_grow (length (b @ d)) \<le> K" and "length d < 2 ^ 31"
  shows "outq (mg_send io d nc) (b @ d)"
  using mbuf_add_bytes [OF assms(1), of "nc_send nc" d] assms(2,3) outq_len [OF assms(2)] int_len_small [OF assms(4)]
  by (simp add: outq_def mg_send_def Let_def mg_socket_if_udp_send_def mg_socket_if_tcp_send_def)

lemma outq_sends:
  assumes "reliable K (io_ra io)"
  shows "outq nc b \<Longrightarrow> mbuf_grow (length (b @ concat ds)) \<le> K \<Longrightarrow> \<forall>d\<in>set ds. length d < 2 ^ 31 \<Longrightarrow>
    outq (mg_sends io ds nc) (b @ concat ds)"
proof (induction ds arbitrary: nc b)
  case (Cons d ds)
  have "mbuf_grow (length (b @ d)) \<le> K"
    using order_trans [OF mbuf_grow_mono Cons.prems(2), of "length (b @ d)"] by simp
  from Cons.IH [OF outq_send [OF assms Cons.prems(1) this]] Cons.prems(2,3)
  show ?case by (simp add: mg_sends_def add.assoc)
qed (simp add: mg_sends_def)

lemma chunks_small: "length (concat ds) < n \<Longrightarrow> \<forall>d\<in>set ds. length d < n"
  by (induction ds) auto

lemma outq_insert:
  assumes "reliable K (io_ra io)" and q: "outq nc (a @ c)" and "mbuf_grow (length (a @ b @ c)) \<le> K"
  shows "\<exists>m. mbuf_insert (io_ra io) (nc_send nc) (length a) (Some b) (length b) = Some (length b, m) \<and>
    outq (nc\<lparr>nc_send := m\<rparr>) (a @ b @ c)"
proof -
  have l: "mb_len (nc_send nc) = length a + length c" using outq_len [OF q] by simp
  have "mbuf_inv (nc_send nc)" "mbuf_bytes (nc_send nc) = a @ c" using q by (simp_all add: outq_def)
  with mbuf_insert_reliable [OF assms(1) this(1), of "length a" b] l assms(3)
  show ?thesis by (auto simp: outq_def algebra_simps)
qed

lemma mg_send_other [simp]:
  "nc_recv (mg_send io d nc) = nc_recv nc" "nc_user (mg_send io d nc) = nc_user nc"
  "nc_flags (mg_send io d nc) = nc_flags nc"
  by (simp_all add: mg_send_def Let_def mg_socket_if_udp_send_def mg_socket_if_tcp_send_def)

lemma mg_sends_other [simp]:
  "nc_recv (mg_sends io ds nc) = nc_recv nc" "nc_user (mg_sends io ds nc) = nc_user nc"
  "nc_flags (mg_sends io ds nc) = nc_flags nc"
  by (induction ds arbitrary: nc) (simp_all add: mg_sends_def)

end
