(* ===== verification/Mqtt.thy ===== *)
theory Mqtt
  imports Conn Str
begin

text \<open>
  \<open>mongoose/src/mqtt.c\<close>: the MQTT packets a connection sends, the parser of received packets
  and the protocol handler that feeds it.

  A parsed message points into the receive buffer, as in the code.  A result \<open>None\<close> is a
  read outside the buffer's memory, a shift that overflows \<open>int\<close>, or a failed assertion.
\<close>

section \<open>Messages\<close>

record mg_mqtt_message =
  mm_cmd :: int
  mm_qos :: int
  mm_topic :: mg_str
  mm_payload :: mg_str
  mm_connack_ret_code :: u8
  mm_message_id :: u16
  mm_protocol_version :: u8
  mm_connect_flags :: u8
  mm_keep_alive_timer :: u16
  mm_protocol_name :: mg_str
  mm_client_id :: mg_str
  mm_will_topic :: mg_str
  mm_will_message :: mg_str
  mm_user_name :: mg_str
  mm_password :: mg_str

definition null_str :: mg_str where
  "null_str = \<lparr>ms_mem = [], ms_p = 0, ms_len = 0\<rparr>"

definition mqtt_zero :: mg_mqtt_message where
  "mqtt_zero = \<lparr>mm_cmd = 0, mm_qos = 0, mm_topic = null_str, mm_payload = null_str, mm_connack_ret_code = 0,
     mm_message_id = 0, mm_protocol_version = 0, mm_connect_flags = 0, mm_keep_alive_timer = 0,
     mm_protocol_name = null_str, mm_client_id = null_str, mm_will_topic = null_str,
     mm_will_message = null_str, mm_user_name = null_str, mm_password = null_str\<rparr>"

definition MG_MQTT_CMD_CONNECT :: int where "MG_MQTT_CMD_CONNECT = 1"
definition MG_MQTT_CMD_CONNACK :: int where "MG_MQTT_CMD_CONNACK = 2"
definition MG_MQTT_CMD_PUBLISH :: int where "MG_MQTT_CMD_PUBLISH = 3"
definition MG_MQTT_CMD_PUBACK :: int where "MG_MQTT_CMD_PUBACK = 4"
definition MG_MQTT_CMD_PUBREC :: int where "MG_MQTT_CMD_PUBREC = 5"
definition MG_MQTT_CMD_PUBREL :: int where "MG_MQTT_CMD_PUBREL = 6"
definition MG_MQTT_CMD_PUBCOMP :: int where "MG_MQTT_CMD_PUBCOMP = 7"
definition MG_MQTT_CMD_SUBSCRIBE :: int where "MG_MQTT_CMD_SUBSCRIBE = 8"
definition MG_MQTT_CMD_SUBACK :: int where "MG_MQTT_CMD_SUBACK = 9"
definition MG_MQTT_CMD_UNSUBSCRIBE :: int where "MG_MQTT_CMD_UNSUBSCRIBE = 10"
definition MG_MQTT_CMD_UNSUBACK :: int where "MG_MQTT_CMD_UNSUBACK = 11"
definition MG_MQTT_CMD_PINGREQ :: int where "MG_MQTT_CMD_PINGREQ = 12"
definition MG_MQTT_CMD_PINGRESP :: int where "MG_MQTT_CMD_PINGRESP = 13"
definition MG_MQTT_CMD_DISCONNECT :: int where "MG_MQTT_CMD_DISCONNECT = 14"

lemmas mqtt_cmds = MG_MQTT_CMD_CONNECT_def MG_MQTT_CMD_CONNACK_def MG_MQTT_CMD_PUBLISH_def
  MG_MQTT_CMD_PUBACK_def MG_MQTT_CMD_PUBREC_def MG_MQTT_CMD_PUBREL_def MG_MQTT_CMD_PUBCOMP_def
  MG_MQTT_CMD_SUBSCRIBE_def MG_MQTT_CMD_SUBACK_def MG_MQTT_CMD_UNSUBSCRIBE_def MG_MQTT_CMD_UNSUBACK_def
  MG_MQTT_CMD_PINGREQ_def MG_MQTT_CMD_PINGRESP_def MG_MQTT_CMD_DISCONNECT_def

text \<open>\<open>MG_MQTT_QOS(1)\<close> is 2.  \<open>MG_MQTT_GET_QOS\<close> reads bits 1 and 2.\<close>

definition MG_MQTT_GET_QOS :: "u8 \<Rightarrow> int" where
  "MG_MQTT_GET_QOS flags = uint (drop_bit 1 (flags AND 6))"

definition MG_MQTT_QOS1 :: u8 where "MG_MQTT_QOS1 = 2"

definition MG_MQTT_HAS_WILL :: u8 where "MG_MQTT_HAS_WILL = 0x04"
definition MG_MQTT_HAS_PASSWORD :: u8 where "MG_MQTT_HAS_PASSWORD = 0x40"
definition MG_MQTT_HAS_USER_NAME :: u8 where "MG_MQTT_HAS_USER_NAME = 0x80"

section \<open>Parsing\<close>

definition getu16 :: "bytes \<Rightarrow> nat \<Rightarrow> u16 option" where
  "getu16 mem p = do { a \<leftarrow> rd mem p; b \<leftarrow> rd mem (p + 1); Some (un16 a b) }"

definition scanto :: "bytes \<Rightarrow> nat \<Rightarrow> (nat \<times> mg_str) option" where
  "scanto mem p = do {
     len \<leftarrow> getu16 mem p;
     let s = \<lparr>ms_mem = mem, ms_p = p + 2, ms_len = unat len\<rparr>;
     Some (ms_p s + ms_len s, s) }"

text \<open>\<open>x << s\<close> on a non-negative \<open>int\<close>: undefined when the result does not fit.\<close>

definition int_shl :: "nat \<Rightarrow> nat \<Rightarrow> nat option" where
  "int_shl x s = (if s < 32 \<and> x * 2 ^ s < 2 ^ 31 then Some (x * 2 ^ s) else None)"

text \<open>The loop that decodes the remaining length; \<open>used\<close> is \<open>io->len\<close>.\<close>

function mqtt_varlen :: "bytes \<Rightarrow> nat \<Rightarrow> nat \<Rightarrow> nat \<Rightarrow> (nat \<times> nat) option" where
  "mqtt_varlen mem used p len = do {
     b \<leftarrow> rd mem p;
     d \<leftarrow> int_shl (unat (b AND 127)) (7 * (p - 1));
     let len' = (len + d) mod 2 ^ 64;
     if b AND 128 \<noteq> 0 \<and> p + 1 \<le> used then mqtt_varlen mem used (p + 1) len' else Some (p + 1, len') }"
  by pat_completeness auto
termination by (relation "measure (\<lambda>(mem, used, p, len). used + 1 - p)") auto

declare mqtt_varlen.simps [simp del]

definition ptr_diff :: "nat \<Rightarrow> nat \<Rightarrow> nat" where
  "ptr_diff e p = nat ((int e - int p) mod 2 ^ 64)"

definition scan_if :: "bool \<Rightarrow> bytes \<Rightarrow> nat \<Rightarrow> (mg_str \<Rightarrow> mg_mqtt_message \<Rightarrow> mg_mqtt_message) \<Rightarrow>
    mg_mqtt_message \<Rightarrow> (nat \<times> mg_mqtt_message) option" where
  "scan_if c mem p upd mm =
     (if c then do { (p', s) \<leftarrow> scanto mem p; Some (p', upd s mm) } else Some (p, mm))"

definition parse_connect :: "bytes \<Rightarrow> nat \<Rightarrow> nat \<Rightarrow> mg_mqtt_message \<Rightarrow> mg_mqtt_message option" where
  "parse_connect mem p fin mm = do {
     (p, s) \<leftarrow> scanto mem p;
     v \<leftarrow> rd mem p;
     f \<leftarrow> rd mem (p + 1);
     k \<leftarrow> getu16 mem (p + 2);
     let mm = mm\<lparr>mm_protocol_name := s, mm_protocol_version := v, mm_connect_flags := f, mm_keep_alive_timer := k\<rparr>;
     (p, mm) \<leftarrow> scan_if (p + 4 < fin) mem (p + 4) (\<lambda>s mm. mm\<lparr>mm_client_id := s\<rparr>) mm;
     (p, mm) \<leftarrow> scan_if (p < fin \<and> mm_connect_flags mm AND MG_MQTT_HAS_WILL \<noteq> 0) mem p
                 (\<lambda>s mm. mm\<lparr>mm_will_topic := s\<rparr>) mm;
     (p, mm) \<leftarrow> scan_if (p < fin \<and> mm_connect_flags mm AND MG_MQTT_HAS_WILL \<noteq> 0) mem p
                 (\<lambda>s mm. mm\<lparr>mm_will_message := s\<rparr>) mm;
     (p, mm) \<leftarrow> scan_if (p < fin \<and> mm_connect_flags mm AND MG_MQTT_HAS_USER_NAME \<noteq> 0) mem p
                 (\<lambda>s mm. mm\<lparr>mm_user_name := s\<rparr>) mm;
     (p, mm) \<leftarrow> scan_if (p < fin \<and> mm_connect_flags mm AND MG_MQTT_HAS_PASSWORD \<noteq> 0) mem p
                 (\<lambda>s mm. mm\<lparr>mm_password := s\<rparr>) mm;
     Some mm }"

definition parse_publish :: "bytes \<Rightarrow> nat \<Rightarrow> nat \<Rightarrow> u8 \<Rightarrow> mg_mqtt_message \<Rightarrow> mg_mqtt_message option" where
  "parse_publish mem p fin header mm = do {
     (p, mm) \<leftarrow> (if MG_MQTT_GET_QOS header > 0
                  then do { i \<leftarrow> getu16 mem p; Some (p + 2, mm\<lparr>mm_message_id := i\<rparr>) }
                  else Some (p, mm));
     (p, s) \<leftarrow> scanto mem p;
     Some (mm\<lparr>mm_topic := s, mm_payload := \<lparr>ms_mem = mem, ms_p = p, ms_len = ptr_diff fin p\<rparr>\<rparr>) }"

definition parse_subscribe :: "bytes \<Rightarrow> nat \<Rightarrow> nat \<Rightarrow> mg_mqtt_message \<Rightarrow> mg_mqtt_message option" where
  "parse_subscribe mem p fin mm = do {
     i \<leftarrow> getu16 mem p;
     Some (mm\<lparr>mm_message_id := i, mm_payload := \<lparr>ms_mem = mem, ms_p = p + 2, ms_len = ptr_diff fin (p + 2)\<rparr>\<rparr>) }"

definition parse_body :: "bytes \<Rightarrow> nat \<Rightarrow> nat \<Rightarrow> u8 \<Rightarrow> mg_mqtt_message \<Rightarrow> mg_mqtt_message option" where
  "parse_body mem p fin header mm =
     (let cmd = mm_cmd mm in
      if cmd = MG_MQTT_CMD_CONNECT then parse_connect mem p fin mm
      else if cmd = MG_MQTT_CMD_CONNACK then do { c \<leftarrow> rd mem (p + 1); Some (mm\<lparr>mm_connack_ret_code := c\<rparr>) }
      else if cmd \<in> {MG_MQTT_CMD_PUBACK, MG_MQTT_CMD_PUBREC, MG_MQTT_CMD_PUBREL, MG_MQTT_CMD_PUBCOMP,
                     MG_MQTT_CMD_SUBACK}
        then do { i \<leftarrow> getu16 mem p; Some (mm\<lparr>mm_message_id := i\<rparr>) }
      else if cmd = MG_MQTT_CMD_PUBLISH then parse_publish mem p fin header mm
      else if cmd = MG_MQTT_CMD_SUBSCRIBE then parse_subscribe mem p fin mm
      else Some mm)"

text \<open>The result is -1, or the offset of the end of the packet; only then is the message filled.\<close>

definition parse_mqtt :: "mbuf \<Rightarrow> mg_mqtt_message \<Rightarrow> (int \<times> mg_mqtt_message) option" where
  "parse_mqtt io mm =
     (if mb_len io < 2 then Some (-1, mm)
      else do {
        header \<leftarrow> rd (mb_mem io) 0;
        (p, len) \<leftarrow> mqtt_varlen (mb_mem io) (mb_len io) 1 0;
        let fin = p + len;
        if fin > mb_len io + 1 then Some (-1, mm)
        else do {
          mm \<leftarrow> parse_body (mb_mem io) p fin header
                  (mm\<lparr>mm_cmd := uint (drop_bit 4 header), mm_qos := MG_MQTT_GET_QOS header\<rparr>);
          Some (c_int (int fin), mm) } })"

text \<open>The user's handler is called directly, not through \<open>mg_call\<close>.\<close>

definition mqtt_handler ::
  "(mg_mqtt_message, 'u) handler \<Rightarrow> mg_mqtt_message mg_event \<Rightarrow> 'u mg_connection \<Rightarrow> 'u mg_connection option"
where
  "mqtt_handler h ev nc =
     (let nc1 = h ev nc in
      case ev of
        EvRecv _ \<Rightarrow> do {
          (len, mm) \<leftarrow> parse_mqtt (nc_recv nc1) mqtt_zero;
          if len = -1 then Some nc1
          else let nc2 = h (EvProto mm) nc1
               in Some (nc2\<lparr>nc_recv := mbuf_remove (nc_recv nc2) (nat (len mod 2 ^ 64))\<rparr>) }
      | _ \<Rightarrow> Some nc1)"

definition mg_mqtt_next_subscribe_topic :: "mg_mqtt_message \<Rightarrow> int \<Rightarrow> (int \<times> (mg_str \<times> u8) option) option" where
  "mg_mqtt_next_subscribe_topic msg pos =
     (let mem = ms_mem (mm_payload msg); b = nat (int (ms_p (mm_payload msg)) + pos) in
      if pos mod 2 ^ 64 \<ge> int (ms_len (mm_payload msg)) then Some (-1, None)
      else if int (ms_p (mm_payload msg)) + pos < 0 then None
      else do {
        len \<leftarrow> getu16 mem b;
        q \<leftarrow> rd mem (b + 2 + unat len);
        Some (c_int (pos + 2 + int (unat len) + 1),
              Some (\<lparr>ms_mem = mem, ms_p = b + 2, ms_len = unat len\<rparr>, q)) })"

text \<open>
  The loop by which the broker walks the topics of a SUBSCRIBE message, from \<open>pos\<close> on, with \<open>qoss_len\<close> qualities
  stored so far in the array \<open>qoss\<close> of 512 elements: \<open>None\<close> is also a store past its end.
\<close>

definition qoss_size :: nat where "qoss_size = 512"

partial_function (option) subscribe_topics :: "mg_mqtt_message \<Rightarrow> int \<Rightarrow> nat \<Rightarrow> (mg_str \<times> u8) list option" where
  "subscribe_topics msg pos qoss_len = do {
     (pos', t) \<leftarrow> mg_mqtt_next_subscribe_topic msg pos;
     if pos' = -1 then Some []
     else if qoss_len \<ge> qoss_size then None
     else do {
       ts \<leftarrow> subscribe_topics msg pos' (qoss_len + 1);
       Some (case t of None \<Rightarrow> ts | Some tq \<Rightarrow> tq # ts) } }"

section \<open>Sending\<close>

text \<open>The variable length encoding; \<open>len\<close> is a \<open>size_t\<close>.\<close>

fun varlen :: "nat \<Rightarrow> bytes" where
  "varlen len =
     (let d = of_nat (len mod 0x80); len' = len div 0x80
      in if len' > 0 then (d OR 0x80) # varlen len' else [d])"

declare varlen.simps [simp del]

text \<open>The stack buffer has \<open>1 + sizeof(size_t)\<close> bytes.\<close>

definition mg_mqtt_prepend_header ::
  "io \<Rightarrow> int \<Rightarrow> u8 \<Rightarrow> nat \<Rightarrow> 'u mg_connection \<Rightarrow> 'u mg_connection option"
where
  "mg_mqtt_prepend_header io cmd flags len nc =
     (let b = (push_bit 4 (word_of_int cmd) OR flags) # varlen len in
      if \<not> (mb_len (nc_send nc) \<ge> len) \<or> length b > 9 then None
      else map_option (\<lambda>(n, m). nc\<lparr>nc_send := m\<rparr>)
             (mbuf_insert (io_ra io) (nc_send nc) (mb_len (nc_send nc) - len) (Some b) (length b)))"

definition be16_len :: "bytes \<Rightarrow> bytes" where
  "be16_len s = be16 (of_nat (length s))"

definition mg_mqtt_publish ::
  "io \<Rightarrow> bytes \<Rightarrow> u16 \<Rightarrow> u8 \<Rightarrow> bytes \<Rightarrow> 'u mg_connection \<Rightarrow> 'u mg_connection option"
where
  "mg_mqtt_publish io topic message_id flags payload nc =
     (let old_len = mb_len (nc_send nc);
          nc1 = mg_sends io [be16_len topic, topic] nc;
          nc2 = (if MG_MQTT_GET_QOS flags > 0 then mg_send io (be16 message_id) nc1 else nc1);
          nc3 = mg_send io payload nc2
      in mg_mqtt_prepend_header io MG_MQTT_CMD_PUBLISH flags (mb_len (nc_send nc3) - old_len) nc3)"

definition mg_mqtt_subscribe ::
  "io \<Rightarrow> (bytes \<times> u8) list \<Rightarrow> u16 \<Rightarrow> 'u mg_connection \<Rightarrow> 'u mg_connection option"
where
  "mg_mqtt_subscribe io topics message_id nc =
     (let old_len = mb_len (nc_send nc);
          nc1 = mg_send io (be16 message_id) nc;
          nc2 = fold (\<lambda>(t, q). mg_sends io [be16_len t, t, [q]]) topics nc1
      in mg_mqtt_prepend_header io MG_MQTT_CMD_SUBSCRIBE MG_MQTT_QOS1 (mb_len (nc_send nc2) - old_len) nc2)"

definition mg_mqtt_unsubscribe ::
  "io \<Rightarrow> bytes list \<Rightarrow> u16 \<Rightarrow> 'u mg_connection \<Rightarrow> 'u mg_connection option"
where
  "mg_mqtt_unsubscribe io topics message_id nc =
     (let old_len = mb_len (nc_send nc);
          nc1 = mg_send io (be16 message_id) nc;
          nc2 = fold (\<lambda>t. mg_sends io [be16_len t, t]) topics nc1
      in mg_mqtt_prepend_header io MG_MQTT_CMD_UNSUBSCRIBE MG_MQTT_QOS1 (mb_len (nc_send nc2) - old_len) nc2)"

definition mg_mqtt_connack :: "io \<Rightarrow> u8 \<Rightarrow> 'u mg_connection \<Rightarrow> 'u mg_connection option" where
  "mg_mqtt_connack io return_code nc =
     mg_mqtt_prepend_header io MG_MQTT_CMD_CONNACK 0 2 (mg_sends io [[0], [return_code]] nc)"

definition mg_send_mqtt_short_command ::
  "io \<Rightarrow> int \<Rightarrow> u16 \<Rightarrow> 'u mg_connection \<Rightarrow> 'u mg_connection option"
where
  "mg_send_mqtt_short_command io cmd message_id nc =
     mg_mqtt_prepend_header io cmd MG_MQTT_QOS1 2 (mg_send io (be16 message_id) nc)"

definition mg_mqtt_puback :: "io \<Rightarrow> u16 \<Rightarrow> 'u mg_connection \<Rightarrow> 'u mg_connection option" where
  "mg_mqtt_puback io = mg_send_mqtt_short_command io MG_MQTT_CMD_PUBACK"

definition mg_mqtt_pubrec :: "io \<Rightarrow> u16 \<Rightarrow> 'u mg_connection \<Rightarrow> 'u mg_connection option" where
  "mg_mqtt_pubrec io = mg_send_mqtt_short_command io MG_MQTT_CMD_PUBREC"

definition mg_mqtt_pubrel :: "io \<Rightarrow> u16 \<Rightarrow> 'u mg_connection \<Rightarrow> 'u mg_connection option" where
  "mg_mqtt_pubrel io = mg_send_mqtt_short_command io MG_MQTT_CMD_PUBREL"

definition mg_mqtt_pubcomp :: "io \<Rightarrow> u16 \<Rightarrow> 'u mg_connection \<Rightarrow> 'u mg_connection option" where
  "mg_mqtt_pubcomp io = mg_send_mqtt_short_command io MG_MQTT_CMD_PUBCOMP"

definition mg_mqtt_unsuback :: "io \<Rightarrow> u16 \<Rightarrow> 'u mg_connection \<Rightarrow> 'u mg_connection option" where
  "mg_mqtt_unsuback io = mg_send_mqtt_short_command io MG_MQTT_CMD_UNSUBACK"

definition mg_mqtt_suback :: "io \<Rightarrow> bytes \<Rightarrow> u16 \<Rightarrow> 'u mg_connection \<Rightarrow> 'u mg_connection option" where
  "mg_mqtt_suback io qoss message_id nc =
     mg_mqtt_prepend_header io MG_MQTT_CMD_SUBACK MG_MQTT_QOS1 (2 + length qoss)
       (mg_sends io (be16 message_id # map (\<lambda>q. [q]) qoss) nc)"

definition mg_mqtt_ping :: "io \<Rightarrow> 'u mg_connection \<Rightarrow> 'u mg_connection option" where
  "mg_mqtt_ping io = mg_mqtt_prepend_header io MG_MQTT_CMD_PINGREQ 0 0"

definition mg_mqtt_pong :: "io \<Rightarrow> 'u mg_connection \<Rightarrow> 'u mg_connection option" where
  "mg_mqtt_pong io = mg_mqtt_prepend_header io MG_MQTT_CMD_PINGRESP 0 0"

definition mg_mqtt_disconnect :: "io \<Rightarrow> 'u mg_connection \<Rightarrow> 'u mg_connection option" where
  "mg_mqtt_disconnect io = mg_mqtt_prepend_header io MG_MQTT_CMD_DISCONNECT 0 0"

section \<open>The handshake\<close>

record mqtt_handshake_opts =
  ho_flags :: u8
  ho_keep_alive :: u16
  ho_will_topic :: "bytes option"
  ho_will_message :: "bytes option"
  ho_user_name :: "bytes option"
  ho_password :: "bytes option"

text \<open>\<open>(uint8_t) strlen(s) + 2\<close>, added to a \<open>uint8_t\<close>.\<close>

definition rem_add :: "bytes option \<Rightarrow> u8" where
  "rem_add s = (case s of None \<Rightarrow> 0 | Some b \<Rightarrow> of_nat (length b) + 2)"

definition flag_if :: "bool \<Rightarrow> u8 \<Rightarrow> u8" where
  "flag_if c f = (if c then f else 0)"

definition has_will :: "mqtt_handshake_opts \<Rightarrow> bool" where
  "has_will opts \<longleftrightarrow> ho_will_topic opts \<noteq> None \<and> ho_will_message opts \<noteq> None"

definition handshake_flags :: "mqtt_handshake_opts \<Rightarrow> u8" where
  "handshake_flags opts =
     ((ho_flags opts OR flag_if (ho_user_name opts \<noteq> None) MG_MQTT_HAS_USER_NAME)
        OR flag_if (ho_password opts \<noteq> None) MG_MQTT_HAS_PASSWORD) OR flag_if (has_will opts) MG_MQTT_HAS_WILL"

definition handshake_rem_len :: "bytes \<Rightarrow> mqtt_handshake_opts \<Rightarrow> u8" where
  "handshake_rem_len client_id opts =
     (9 + 1 + 2 + 2 + of_nat (length client_id)) + rem_add (ho_user_name opts) + rem_add (ho_password opts) +
     (if has_will opts then rem_add (ho_will_topic opts) + rem_add (ho_will_message opts) else 0)"

text \<open>A counted field is sent when its flag is set, also when the caller set the flag; the
  string is then dereferenced, which fails for a NULL pointer.\<close>

definition send_field :: "io \<Rightarrow> bool \<Rightarrow> bytes option \<Rightarrow> 'u mg_connection \<Rightarrow> 'u mg_connection option" where
  "send_field io c s nc =
     (if c then map_option (\<lambda>b. mg_sends io [be16_len b, b] nc) s else Some nc)"

definition mg_send_mqtt_handshake_opt ::
  "io \<Rightarrow> bytes \<Rightarrow> mqtt_handshake_opts \<Rightarrow> 'u mg_connection \<Rightarrow> 'u mg_connection option"
where
  "mg_send_mqtt_handshake_opt io client_id opts nc =
     (let flags = handshake_flags opts;
          keep_alive = (if ho_keep_alive opts = 0 then 60 else ho_keep_alive opts);
          nc1 = mg_sends io [[push_bit 4 (word_of_int MG_MQTT_CMD_CONNECT)], [handshake_rem_len client_id opts],
                  [0, 6] @ str ''MQIsdp'' @ [3], [flags], be16 keep_alive, be16_len client_id, client_id] nc
      in do {
        nc2 \<leftarrow> send_field io (flags AND MG_MQTT_HAS_WILL \<noteq> 0) (ho_will_topic opts) nc1;
        nc3 \<leftarrow> send_field io (flags AND MG_MQTT_HAS_WILL \<noteq> 0) (ho_will_message opts) nc2;
        nc4 \<leftarrow> send_field io (flags AND MG_MQTT_HAS_USER_NAME \<noteq> 0) (ho_user_name opts) nc3;
        send_field io (flags AND MG_MQTT_HAS_PASSWORD \<noteq> 0) (ho_password opts) nc4 })"

definition mg_send_mqtt_handshake :: "io \<Rightarrow> bytes \<Rightarrow> 'u mg_connection \<Rightarrow> 'u mg_connection option" where
  "mg_send_mqtt_handshake io client_id =
     mg_send_mqtt_handshake_opt io client_id \<lparr>ho_flags = 0, ho_keep_alive = 0, ho_will_topic = None,
       ho_will_message = None, ho_user_name = None, ho_password = None\<rparr>"

section \<open>The packet format\<close>

text \<open>An MQTT control packet: the header byte, the remaining length and the body.\<close>

definition mqtt_packet :: "int \<Rightarrow> u8 \<Rightarrow> bytes \<Rightarrow> bytes" where
  "mqtt_packet cmd flags body = (push_bit 4 (word_of_int cmd) OR flags) # varlen (length body) @ body"

lemma continuation_bit:
  "(take_bit 7 (x :: u8)) AND 128 = 0" "((x :: u8) OR 128) AND 128 = 128"
  "(take_bit 7 (x :: u8)) AND 127 = take_bit 7 x" "((x :: u8) OR 128) AND 127 = take_bit 7 x"
  by (rule u8_eqI; simp add: bit_simps)+

lemma varlen_digit:
  assumes "m < 128"
  shows "unat ((of_nat m :: u8) AND 127) = m" and "(of_nat m :: u8) AND 128 = 0"
    and "unat (((of_nat m :: u8) OR 128) AND 127) = m" and "((of_nat m :: u8) OR 128) AND 128 \<noteq> 0"
proof -
  have t: "of_nat m = take_bit 7 (of_nat m :: u8)"
    using assms by (simp add: take_bit_of_nat take_bit_nat_eq_self)
  have u: "unat (of_nat m :: u8) = m" using assms by (simp add: unat_of_nat take_bit_nat_eq_self)
  show "unat ((of_nat m :: u8) AND 127) = m" using t u continuation_bit(3) by metis
  show "(of_nat m :: u8) AND 128 = 0" using t continuation_bit(1) by metis
  show "unat (((of_nat m :: u8) OR 128) AND 127) = m" using t u continuation_bit(4) by metis
  show "((of_nat m :: u8) OR 128) AND 128 \<noteq> 0" by (simp only: continuation_bit(2)) simp
qed

lemma mqtt_varlen_step:
  assumes "rd mem p = Some b" and "int_shl (unat (b AND 127)) (7 * (p - 1)) = Some d" and "(len + d) mod 2 ^ 64 = l"
  shows "mqtt_varlen mem used p len =
    (if b AND 128 \<noteq> 0 \<and> p + 1 \<le> used then mqtt_varlen mem used (p + 1) l else Some (p + 1, l))"
  using assms by (subst mqtt_varlen.simps) simp

lemma mqtt_varlen_decodes:
  assumes "acc + n * 128 ^ k < 2 ^ 28" and "n > 0 \<or> k = 0"
    and "length pre = k + 1" and "k + 1 + length (varlen n) \<le> used + 1"
  shows "mqtt_varlen (pre @ varlen n @ rest) used (k + 1) acc = Some (k + 1 + length (varlen n), acc + n * 128 ^ k)"
  using assms
proof (induction n arbitrary: k acc pre rule: varlen.induct)
  case (1 n)
  let ?m = "n mod 128"
  have k4: "k < 4"
  proof (cases "k = 0")
    case False
    then have "(128 :: nat) ^ k \<le> n * 128 ^ k" using 1(3) by simp
    then have "(128 :: nat) ^ k < 2 ^ 28" using 1(2) by linarith
    then have "(128 :: nat) ^ k < 128 ^ 4" by simp
    then show ?thesis using power_less_imp_less_exp [of "128 :: nat" k 4] by simp
  qed simp
  have m: "?m < 128" by simp
  have pw: "(2 :: nat) ^ (7 * k) = 128 ^ k" by (simp add: power_mult)
  have "a * c + b * (c * 128) = (a + 128 * b) * c" for a b c :: nat by (simp add: algebra_simps)
  from this [of ?m "128 ^ k" "n div 128"]
  have dm: "?m * 128 ^ k + (n div 128) * 128 ^ (k + 1) = n * 128 ^ k" by (simp add: mult.commute)
  have "?m * 128 ^ k \<le> n * 128 ^ k" by simp
  then have bd: "acc + ?m * 128 ^ k < 2 ^ 28" using 1(2) by linarith
  then have s: "int_shl ?m (7 * k) = Some (?m * 128 ^ k)" using k4 by (simp add: int_shl_def pw)
  have a: "(acc + ?m * 128 ^ k) mod 2 ^ 64 = acc + ?m * 128 ^ k" using bd by simp
  show ?case
  proof (cases "n div 128 > 0")
    case True
    let ?b = "(of_nat ?m OR 0x80) :: u8"
    have v: "varlen n = ?b # varlen (n div 128)" using True by (subst varlen.simps) (simp add: Let_def)
    have len: "0 < length (varlen (n div 128))" by (subst varlen.simps) (simp add: Let_def)
    have r: "rd (pre @ varlen n @ rest) (k + 1) = Some ?b" using 1(4) v by (simp add: rd_def nth_append)
    have vl: "length (varlen n) = Suc (length (varlen (n div 128)))" using v by simp
    then have le: "k + 1 + 1 \<le> used" using len 1(5) by linarith
    have IH: "mqtt_varlen ((pre @ [?b]) @ varlen (n div 128) @ rest) used ((k + 1) + 1) (acc + ?m * 128 ^ k) =
        Some ((k + 1) + 1 + length (varlen (n div 128)), acc + ?m * 128 ^ k + (n div 128) * 128 ^ (k + 1))"
    proof (rule 1(1) [OF refl refl True])
      show "acc + ?m * 128 ^ k + (n div 128) * 128 ^ (k + 1) < 2 ^ 28" using 1(2) dm by linarith
    qed (use 1(4,5) v True in auto)
    have "mqtt_varlen (pre @ varlen n @ rest) used (k + 1) acc =
        mqtt_varlen (pre @ varlen n @ rest) used (k + 1 + 1) (acc + ?m * 128 ^ k)"
      using mqtt_varlen_step [OF r _ a, of used] varlen_digit(3,4) [OF m] s le by simp
    then show ?thesis using IH v dm by (simp add: add.assoc)
  next
    case False
    have v: "varlen n = [of_nat ?m]" using False by (subst varlen.simps) (simp add: Let_def)
    have r: "rd (pre @ varlen n @ rest) (k + 1) = Some (of_nat ?m)" using 1(4) v by (simp add: rd_def nth_append)
    show ?thesis
      using mqtt_varlen_step [OF r _ a, of used] varlen_digit(1,2) [OF m] s v dm False by simp
  qed
qed

lemma varlen_length: "n < 128 ^ k \<Longrightarrow> 0 < k \<Longrightarrow> length (varlen n) \<le> k"
proof (induction n arbitrary: k rule: varlen.induct)
  case (1 n)
  show ?case
  proof (cases "n div 128 > 0")
    case True
    then have "k \<noteq> 1" using 1(2) by auto
    then obtain j where j: "k = Suc j" "0 < j" using 1(3) by (metis One_nat_def bot_nat_0.not_eq_extremum not0_implies_Suc)
    have "n div 128 < 128 ^ j" using 1(2) j by (simp add: less_mult_imp_div_less mult.commute)
    then have "length (varlen (n div 128)) \<le> j" using 1(1) [OF refl refl True] j by blast
    then show ?thesis using True j by (subst varlen.simps) (simp add: Let_def)
  next
    case False
    then show ?thesis using 1(3) by (subst varlen.simps) (simp add: Let_def)
  qed
qed

lemma varlen_pos: "0 < length (varlen n)"
  by (subst varlen.simps) (simp add: Let_def)

lemma low_bits: "x = take_bit k x \<Longrightarrow> k \<le> n \<Longrightarrow> \<not> bit (x :: u8) n"
  by (metis bit_take_bit_iff not_less)

lemma header_parts:
  fixes c f :: u8
  assumes "c = take_bit 4 c" and "f = take_bit 4 f"
  shows "drop_bit 4 (push_bit 4 c OR f) = c" and "(push_bit 4 c OR f) AND 6 = f AND 6"
proof -
  have b: "\<not> bit c 4" "\<not> bit c 5" "\<not> bit c 6" "\<not> bit c 7" "\<not> bit f 4" "\<not> bit f 5" "\<not> bit f 6" "\<not> bit f 7"
    by (rule low_bits [OF assms(1)] low_bits [OF assms(2)]; simp)+
  show "drop_bit 4 (push_bit 4 c OR f) = c" by (rule u8_eqI) (simp_all add: bit_simps b u8_high_bit)
  show "(push_bit 4 c OR f) AND 6 = f AND 6" by (rule u8_eqI) (simp_all add: bit_simps)
qed

lemma getu16_ahead: "drop p mem = be16 w @ r \<Longrightarrow> getu16 mem p = Some w"
  using be16_ahead [of p mem w r] by (simp add: getu16_def bytes_simps)

lemma scanto_ahead:
  assumes "drop p mem = be16_len s @ s @ r" and "length s < 2 ^ 16"
  shows "scanto mem p = Some (p + 2 + length s, \<lparr>ms_mem = mem, ms_p = p + 2, ms_len = length s\<rparr>)"
    and "ms_bytes \<lparr>ms_mem = mem, ms_p = p + 2, ms_len = length s\<rparr> = s"
    and "drop (p + 2 + length s) mem = r"
proof -
  note a = assms(1) [unfolded be16_len_def]
  have u: "unat (of_nat (length s) :: u16) = length s" using assms(2) by (simp add: unat_of_nat take_bit_nat_eq_self)
  show "scanto mem p = Some (p + 2 + length s, \<lparr>ms_mem = mem, ms_p = p + 2, ms_len = length s\<rparr>)"
    by (simp add: scanto_def getu16_ahead [OF a] u Let_def)
  show "ms_bytes \<lparr>ms_mem = mem, ms_p = p + 2, ms_len = length s\<rparr> = s"
    using bslice_ahead [OF be16_ahead(3) [OF a]] by (simp add: ms_bytes_def)
  show "drop (p + 2 + length s) mem = r" using drop_past [OF be16_ahead(3) [OF a]] by simp
qed

lemma parse_mqtt_front:
  assumes "2 \<le> mb_len rx" and "rd (mb_mem rx) 0 = Some h"
    and "mqtt_varlen (mb_mem rx) (mb_len rx) 1 0 = Some (p, len)" and "p + len \<le> mb_len rx + 1"
  shows "parse_mqtt rx mm = do {
    m \<leftarrow> parse_body (mb_mem rx) p (p + len) h
           (mm\<lparr>mm_cmd := uint (drop_bit 4 h), mm_qos := MG_MQTT_GET_QOS h\<rparr>);
    Some (c_int (int (p + len)), m) }"
  using assms by (simp add: parse_mqtt_def)

text \<open>A complete packet at the front of the buffer: the parser finds its body and its end.\<close>

lemma parse_packet:
  assumes rx: "mbuf_inv rx" "mbuf_bytes rx = mqtt_packet cmd flags body @ rest"
    and small: "length body < 2 ^ 28" and cmd: "0 \<le> cmd" "cmd < 16" and flags: "flags = take_bit 4 flags"
  obtains p r where "drop p (mb_mem rx) = body @ r" and "length (mqtt_packet cmd flags body) = p + length body"
    and "parse_mqtt rx mm = do {
      m \<leftarrow> parse_body (mb_mem rx) p (p + length body) (push_bit 4 (word_of_int cmd) OR flags)
             (mm\<lparr>mm_cmd := cmd, mm_qos := MG_MQTT_GET_QOS flags\<rparr>);
      Some (int (p + length body), m) }"
proof -
  let ?h = "push_bit 4 (word_of_int cmd) OR flags" and ?v = "varlen (length body)"
  let ?p = "1 + length ?v"
  obtain slack where mem: "mb_mem rx = ([?h] @ ?v @ body) @ rest @ slack"
    using rx(2) append_take_drop_id [of "mb_len rx" "mb_mem rx"]
    unfolding mbuf_bytes_def mqtt_packet_def by (metis append.assoc append_Cons append_Nil)
  have len: "mb_len rx = 1 + length ?v + length body + length rest"
    using rx length_mbuf_bytes [OF rx(1)] by (simp add: mqtt_packet_def)
  have c: "(word_of_int cmd :: u8) = take_bit 4 (word_of_int cmd)"
    using cmd by (simp add: take_bit_of_int flip: ) (simp add: take_bit_int_eq_self)
  have uc: "uint (word_of_int cmd :: u8) = cmd" using cmd by (simp add: uint_word_of_int)
  have v: "mqtt_varlen (mb_mem rx) (mb_len rx) 1 0 = Some (?p, length body)"
    using mqtt_varlen_decodes [of 0 "length body" 0 "[?h]" "mb_len rx" "body @ rest @ slack"] small len
    by (simp add: mem)
  have d: "drop ?p (mb_mem rx) = body @ rest @ slack" by (simp add: mem)
  have r0: "rd (mb_mem rx) 0 = Some ?h" by (simp add: mem rd_def)
  have l4: "length ?v \<le> 4" using varlen_length [of "length body" 4] small by simp
  then have ci: "c_int (int (?p + length body)) = int (?p + length body)"
    using small by (intro c_int_small) simp_all
  have "2 \<le> mb_len rx" "?p + length body \<le> mb_len rx + 1" using varlen_pos [of "length body"] len by linarith+
  from parse_mqtt_front [OF this(1) r0 v this(2), of mm]
  have "parse_mqtt rx mm = do {
      m \<leftarrow> parse_body (mb_mem rx) ?p (?p + length body) ?h (mm\<lparr>mm_cmd := cmd, mm_qos := MG_MQTT_GET_QOS flags\<rparr>);
      Some (int (?p + length body), m) }"
    unfolding ci MG_MQTT_GET_QOS_def header_parts [OF c flags] uc .
  from that [OF d _ this] show ?thesis by (simp add: mqtt_packet_def)
qed

section \<open>What the senders put on the wire\<close>

lemma mg_sends_append: "mg_sends io (xs @ ys) nc = mg_sends io ys (mg_sends io xs nc)"
  by (simp add: mg_sends_def)

lemma send_packet:
  assumes rel: "reliable K (io_ra io)" and q: "outq nc a" and small: "length (concat ds) < 2 ^ 28"
    and fits: "mbuf_grow (length a + 5 + length (concat ds)) \<le> K"
    and len: "len = length (concat ds)"
  obtains nc' where "mg_mqtt_prepend_header io cmd flags len (mg_sends io ds nc) = Some nc'"
    and "outq nc' (a @ mqtt_packet cmd flags (concat ds))"
    and "nc_recv nc' = nc_recv nc" and "nc_user nc' = nc_user nc" and "nc_flags nc' = nc_flags nc"
proof -
  let ?nc = "mg_sends io ds nc" and ?h = "(push_bit 4 (word_of_int cmd) OR flags) # varlen len"
  have vl: "length (varlen len) \<le> 4" using varlen_length [of len 4] small len by simp
  have "mbuf_grow (length (a @ concat ds)) \<le> K"
    using order_trans [OF mbuf_grow_mono fits] by simp
  from outq_sends [OF rel q this] chunks_small [of ds "2 ^ 31"] small have q': "outq ?nc (a @ concat ds)" by simp
  have off: "mb_len (nc_send ?nc) - len = length a" "mb_len (nc_send ?nc) \<ge> len"
    using outq_len [OF q'] len by simp_all
  have "mbuf_grow (length (a @ ?h @ concat ds)) \<le> K"
    using vl by (intro order_trans [OF mbuf_grow_mono fits]) simp
  from outq_insert [OF rel q' this] obtain m where
    m: "mbuf_insert (io_ra io) (nc_send ?nc) (length a) (Some ?h) (length ?h) = Some (length ?h, m)"
    and o: "outq (?nc\<lparr>nc_send := m\<rparr>) (a @ ?h @ concat ds)" by blast
  have "mg_mqtt_prepend_header io cmd flags len ?nc = Some (?nc\<lparr>nc_send := m\<rparr>)"
    using vl m off by (simp add: mg_mqtt_prepend_header_def Let_def)
  from that [OF this] o len show ?thesis by (simp add: mqtt_packet_def)
qed

lemma outq_sends_len:
  assumes "reliable K (io_ra io)" and "outq nc a" and "mbuf_grow (length a + 5 + length (concat ds)) \<le> K"
    and "length (concat ds) < 2 ^ 28"
  shows "mb_len (nc_send (mg_sends io ds nc)) - mb_len (nc_send nc) = length (concat ds)"
proof -
  have "mbuf_grow (length (a @ concat ds)) \<le> K" using order_trans [OF mbuf_grow_mono assms(3)] by simp
  moreover have "\<forall>d\<in>set ds. length d < 2 ^ 31" by (rule chunks_small) (use assms(4) in simp)
  ultimately have "outq (mg_sends io ds nc) (a @ concat ds)" by (rule outq_sends [OF assms(1,2)])
  from outq_len [OF this] outq_len [OF assms(2)] show ?thesis by simp
qed

definition publish_body :: "bytes \<Rightarrow> u16 \<Rightarrow> u8 \<Rightarrow> bytes \<Rightarrow> bytes" where
  "publish_body topic message_id flags payload =
     be16_len topic @ topic @ (if MG_MQTT_GET_QOS flags > 0 then be16 message_id else []) @ payload"

definition subscribe_body :: "(bytes \<times> u8) list \<Rightarrow> u16 \<Rightarrow> bytes" where
  "subscribe_body topics message_id =
     be16 message_id @ concat (map (\<lambda>(t, q). be16_len t @ t @ [q]) topics)"

lemma publish_sends:
  assumes rel: "reliable K (io_ra io)" and q: "outq nc a"
    and small: "length (publish_body topic i flags payload) < 2 ^ 28"
    and fits: "mbuf_grow (length a + 5 + length (publish_body topic i flags payload)) \<le> K"
  obtains nc' where "mg_mqtt_publish io topic i flags payload nc = Some nc'"
    and "outq nc' (a @ mqtt_packet MG_MQTT_CMD_PUBLISH flags (publish_body topic i flags payload))"
    and "nc_recv nc' = nc_recv nc" and "nc_user nc' = nc_user nc" and "nc_flags nc' = nc_flags nc"
proof -
  let ?ds = "[be16_len topic, topic] @ (if MG_MQTT_GET_QOS flags > 0 then [be16 i] else []) @ [payload]"
  have c: "concat ?ds = publish_body topic i flags payload" by (simp add: publish_body_def)
  have e: "mg_mqtt_publish io topic i flags payload nc =
      mg_mqtt_prepend_header io MG_MQTT_CMD_PUBLISH flags
        (mb_len (nc_send (mg_sends io ?ds nc)) - mb_len (nc_send nc)) (mg_sends io ?ds nc)"
    by (simp add: mg_mqtt_publish_def Let_def mg_sends_def)
  note small' = small [folded c] and fits' = fits [folded c]
  from send_packet [OF rel q small' fits' outq_sends_len [OF rel q fits' small']] that
  show ?thesis unfolding e c [symmetric] by blast
qed

lemma subscribe_sends:
  assumes rel: "reliable K (io_ra io)" and q: "outq nc a"
    and small: "length (subscribe_body topics i) < 2 ^ 28"
    and fits: "mbuf_grow (length a + 5 + length (subscribe_body topics i)) \<le> K"
  obtains nc' where "mg_mqtt_subscribe io topics i nc = Some nc'"
    and "outq nc' (a @ mqtt_packet MG_MQTT_CMD_SUBSCRIBE MG_MQTT_QOS1 (subscribe_body topics i))"
proof -
  let ?ds = "be16 i # concat (map (\<lambda>(t, q). [be16_len t, t, [q]]) topics)"
  have c: "concat ?ds = subscribe_body topics i"
    by (induction topics) (auto simp: subscribe_body_def)
  have f: "fold (\<lambda>(t, q). mg_sends io [be16_len t, t, [q]]) topics nc' =
      mg_sends io (concat (map (\<lambda>(t, q). [be16_len t, t, [q]]) topics)) nc'" for nc'
    by (induction topics arbitrary: nc') (auto simp: mg_sends_def)
  have e: "mg_mqtt_subscribe io topics i nc =
      mg_mqtt_prepend_header io MG_MQTT_CMD_SUBSCRIBE MG_MQTT_QOS1
        (mb_len (nc_send (mg_sends io ?ds nc)) - mb_len (nc_send nc)) (mg_sends io ?ds nc)"
    by (simp only: mg_mqtt_subscribe_def Let_def f) (simp add: mg_sends_def)
  note small' = small [folded c] and fits' = fits [folded c]
  from send_packet [OF rel q small' fits' outq_sends_len [OF rel q fits' small']] that
  show ?thesis unfolding e c [symmetric] by blast
qed

section \<open>Parsing what was sent\<close>

lemma take_bit_QOS: "MG_MQTT_GET_QOS (push_bit 4 (word_of_int c) OR flags) = MG_MQTT_GET_QOS flags"
  unfolding MG_MQTT_GET_QOS_def
  by (rule arg_cong [where f = "\<lambda>x. uint (drop_bit 1 x)"], rule u8_eqI) (simp_all add: bit_simps)

lemma publish_parses:
  assumes rx: "mbuf_inv rx"
      "mbuf_bytes rx = mqtt_packet MG_MQTT_CMD_PUBLISH flags (publish_body topic i flags payload) @ rest"
    and qos: "MG_MQTT_GET_QOS flags = 0" and fl: "flags = take_bit 4 flags"
    and small: "length topic < 2 ^ 16" "length (publish_body topic i flags payload) < 2 ^ 28"
  obtains m where "parse_mqtt rx mm =
      Some (int (length (mqtt_packet MG_MQTT_CMD_PUBLISH flags (publish_body topic i flags payload))), m)"
    and "mm_cmd m = MG_MQTT_CMD_PUBLISH" and "mm_qos m = 0"
    and "ms_bytes (mm_topic m) = topic" and "ms_bytes (mm_payload m) = payload"
proof -
  let ?b = "publish_body topic i flags payload"
  have cmd: "0 \<le> MG_MQTT_CMD_PUBLISH" "MG_MQTT_CMD_PUBLISH < 16" by (simp_all add: mqtt_cmds)
  from parse_packet [OF rx small(2) cmd fl, of mm] obtain p r where
    d: "drop p (mb_mem rx) = ?b @ r" and len: "length (mqtt_packet MG_MQTT_CMD_PUBLISH flags ?b) = p + length ?b"
    and P: "parse_mqtt rx mm = do {
      m \<leftarrow> parse_body (mb_mem rx) p (p + length ?b) (push_bit 4 (word_of_int MG_MQTT_CMD_PUBLISH) OR flags)
             (mm\<lparr>mm_cmd := MG_MQTT_CMD_PUBLISH, mm_qos := MG_MQTT_GET_QOS flags\<rparr>);
      Some (int (p + length ?b), m) }" .
  have d': "drop p (mb_mem rx) = be16_len topic @ topic @ payload @ r"
    using d qos by (simp add: publish_body_def)
  note sc = scanto_ahead [OF d' small(1)]
  have lb: "length ?b = 2 + length topic + length payload"
    using qos by (simp add: publish_body_def be16_len_def)
  have pl: "ptr_diff (p + length ?b) (p + 2 + length topic) = length payload"
    using small(2) lb by (simp add: ptr_diff_def)
  have pb: "ms_bytes \<lparr>ms_mem = mb_mem rx, ms_p = p + 2 + length topic, ms_len = length payload\<rparr> = payload"
    using bslice_ahead [OF sc(3)] by (simp add: ms_bytes_def)
  show ?thesis
    by (rule that [of "mm\<lparr>mm_cmd := MG_MQTT_CMD_PUBLISH, mm_qos := 0,
          mm_topic := \<lparr>ms_mem = mb_mem rx, ms_p = p + 2, ms_len = length topic\<rparr>,
          mm_payload := \<lparr>ms_mem = mb_mem rx, ms_p = p + 2 + length topic, ms_len = length payload\<rparr>\<rparr>"], unfold P len parse_body_def parse_publish_def take_bit_QOS qos)
      (use sc(1,2) pl pb in \<open>simp_all add: mqtt_cmds\<close>)
qed

lemma next_topic_ahead:
  assumes d: "drop (ms_p (mm_payload msg) + k) (ms_mem (mm_payload msg)) = be16_len t @ t @ q # r"
    and t: "length t < 2 ^ 16" and k: "k < ms_len (mm_payload msg)" and small: "ms_len (mm_payload msg) < 2 ^ 29"
  shows "\<exists>s. mg_mqtt_next_subscribe_topic msg (int k) = Some (int (k + length t + 3), Some (s, q)) \<and> ms_bytes s = t"
    and "drop (ms_p (mm_payload msg) + (k + length t + 3)) (ms_mem (mm_payload msg)) = r"
proof -
  let ?mem = "ms_mem (mm_payload msg)" and ?b = "ms_p (mm_payload msg) + k"
  note a = d [unfolded be16_len_def]
  have u: "unat (of_nat (length t) :: u16) = length t" using t by (simp add: unat_of_nat take_bit_nat_eq_self)
  then have u': "uint (of_nat (length t) :: u16) = int (length t)" by (metis of_nat_unat)
  note sc = scanto_ahead [OF d t]
  have rq: "rd ?mem (?b + 2 + length t) = Some q" using sc(3) by (rule rd_ahead)
  have b: "nat (int (ms_p (mm_payload msg)) + int k) = ?b" by simp
  have ci: "c_int (3 + (int k + int (length t))) = int (k + length t + 3)"
    using k small t by (subst c_int_small) simp_all
  have m: "int k mod 18446744073709551616 = int k" using k small by simp
  show "\<exists>s. mg_mqtt_next_subscribe_topic msg (int k) = Some (int (k + length t + 3), Some (s, q)) \<and> ms_bytes s = t"
    using getu16_ahead [OF a] rq k sc(2)
    by (simp add: mg_mqtt_next_subscribe_topic_def Let_def b m u u' ci del: of_nat_add)
  have e: "?b + 2 + length t + 1 = ms_p (mm_payload msg) + (k + length t + 3)" by simp
  have "drop (?b + 2 + length t) ?mem = [q] @ r" using sc(3) by simp
  from drop_past [OF this, of 1]
  show "drop (ms_p (mm_payload msg) + (k + length t + 3)) ?mem = r" unfolding e by simp
qed

lemma subscribe_walk:
  assumes "drop (ms_p (mm_payload msg) + k) (ms_mem (mm_payload msg)) =
      concat (map (\<lambda>(t, q). be16_len t @ t @ [q]) topics) @ r"
    and "\<forall>(t, q) \<in> set topics. length t < 2 ^ 16"
    and "k + length (concat (map (\<lambda>(t, q). be16_len t @ t @ [q]) topics)) = ms_len (mm_payload msg)"
    and "ms_len (mm_payload msg) < 2 ^ 29" and "n \<le> qoss_size"
  shows "\<exists>ts. map (\<lambda>(s, q). (ms_bytes s, q)) ts = topics \<and>
    subscribe_topics msg (int k) n = (if n + length topics \<le> qoss_size then Some ts else None)"
  using assms
proof (induction topics arbitrary: k n)
  case Nil
  then show ?case
    by (subst subscribe_topics.simps) (simp add: mg_mqtt_next_subscribe_topic_def Let_def)
next
  case (Cons tq topics)
  obtain t q where tq: "tq = (t, q)" by fastforce
  let ?r = "concat (map (\<lambda>(t, q). be16_len t @ t @ [q]) topics) @ r"
  have d: "drop (ms_p (mm_payload msg) + k) (ms_mem (mm_payload msg)) = be16_len t @ t @ q # ?r"
    using Cons.prems(1) tq by simp
  have t: "length t < 2 ^ 16" using Cons.prems(2) tq by simp
  have l: "k < ms_len (mm_payload msg)"
    "k + length t + 3 + length (concat (map (\<lambda>(t, q). be16_len t @ t @ [q]) topics)) = ms_len (mm_payload msg)"
    using Cons.prems(3) by (simp_all add: tq be16_len_def)
  from next_topic_ahead [OF d t l(1) Cons.prems(4)] obtain s where
    n: "mg_mqtt_next_subscribe_topic msg (int k) = Some (int (k + length t + 3), Some (s, q))" "ms_bytes s = t"
    and d': "drop (ms_p (mm_payload msg) + (k + length t + 3)) (ms_mem (mm_payload msg)) = ?r" by blast
  have "\<forall>(t, q) \<in> set topics. length t < 2 ^ 16" using Cons.prems(2) by simp
  note IH = Cons.IH [OF d' this l(2) Cons.prems(4)]
  show ?case
  proof (cases "n < qoss_size")
    case True
    then obtain ts where "map (\<lambda>(s, q). (ms_bytes s, q)) ts = topics"
      "subscribe_topics msg (int (k + length t + 3)) (n + 1) = (if n + 1 + length topics \<le> qoss_size then Some ts else None)"
      using IH [of "n + 1"] by auto
    with True n tq show ?thesis
      by (intro exI [of _ "(s, q) # ts"], subst subscribe_topics.simps) (simp del: of_nat_add)
  next
    case False
    obtain ts where "map (\<lambda>(s, q). (ms_bytes s, q)) ts = topics" using IH [of 0] by auto
    with False n tq show ?thesis
      by (intro exI [of _ "(s, q) # ts"], subst subscribe_topics.simps) (simp del: of_nat_add)
  qed
qed

lemma subscribe_parses:
  assumes rx: "mbuf_inv rx"
      "mbuf_bytes rx = mqtt_packet MG_MQTT_CMD_SUBSCRIBE MG_MQTT_QOS1 (subscribe_body topics i) @ rest"
    and small: "\<forall>(t, q) \<in> set topics. length t < 2 ^ 16" "length (subscribe_body topics i) < 2 ^ 28"
  obtains m ts where "parse_mqtt rx mm =
      Some (int (length (mqtt_packet MG_MQTT_CMD_SUBSCRIBE MG_MQTT_QOS1 (subscribe_body topics i))), m)"
    and "mm_cmd m = MG_MQTT_CMD_SUBSCRIBE" and "mm_message_id m = i"
    and "map (\<lambda>(s, q). (ms_bytes s, q)) ts = topics"
    and "subscribe_topics m 0 0 = (if length topics \<le> qoss_size then Some ts else None)"
proof -
  let ?b = "subscribe_body topics i"
  have cmd: "0 \<le> MG_MQTT_CMD_SUBSCRIBE" "MG_MQTT_CMD_SUBSCRIBE < 16" by (simp_all add: mqtt_cmds)
  have fl: "MG_MQTT_QOS1 = take_bit 4 MG_MQTT_QOS1" by (simp add: MG_MQTT_QOS1_def)
  from parse_packet [OF rx small(2) cmd fl, of mm] obtain p r where
    d: "drop p (mb_mem rx) = ?b @ r" and len: "length (mqtt_packet MG_MQTT_CMD_SUBSCRIBE MG_MQTT_QOS1 ?b) = p + length ?b"
    and P: "parse_mqtt rx mm = do {
      m \<leftarrow> parse_body (mb_mem rx) p (p + length ?b) (push_bit 4 (word_of_int MG_MQTT_CMD_SUBSCRIBE) OR MG_MQTT_QOS1)
             (mm\<lparr>mm_cmd := MG_MQTT_CMD_SUBSCRIBE, mm_qos := MG_MQTT_GET_QOS MG_MQTT_QOS1\<rparr>);
      Some (int (p + length ?b), m) }" .
  let ?ts = "concat (map (\<lambda>(t, q). be16_len t @ t @ [q]) topics)"
  have d': "drop p (mb_mem rx) = be16 i @ ?ts @ r" using d by (simp add: subscribe_body_def)
  have pl: "ptr_diff (p + length ?b) (p + 2) = length ?ts"
    using small(2) by (simp add: ptr_diff_def subscribe_body_def)
  let ?pay = "\<lparr>ms_mem = mb_mem rx, ms_p = p + 2, ms_len = length ?ts\<rparr>"
  let ?m = "mm\<lparr>mm_cmd := MG_MQTT_CMD_SUBSCRIBE, mm_qos := MG_MQTT_GET_QOS MG_MQTT_QOS1,
     mm_message_id := i, mm_payload := ?pay\<rparr>"
  have lt: "length ?ts < 2 ^ 29" using small(2) by (simp add: subscribe_body_def)
  have "\<exists>ts. map (\<lambda>(s, q). (ms_bytes s, q)) ts = topics \<and>
      subscribe_topics ?m (int 0) 0 = (if 0 + length topics \<le> qoss_size then Some ts else None)"
    using be16_ahead(3) [OF d'] lt by (intro subscribe_walk [OF _ small(1)]) simp_all
  then obtain ts where "map (\<lambda>(s, q). (ms_bytes s, q)) ts = topics"
    "subscribe_topics ?m 0 0 = (if length topics \<le> qoss_size then Some ts else None)" by auto
  moreover have "parse_mqtt rx mm = Some (int (p + length ?b), ?m)"
    unfolding P parse_body_def parse_subscribe_def using getu16_ahead [OF d'] pl by (simp add: mqtt_cmds)
  ultimately show ?thesis using that [of ?m ts] len by simp
qed

text \<open>More topics than the broker has room for: the walk stores past the end of its array.\<close>

lemma subscribe_overruns:
  assumes "mbuf_inv rx" and "mbuf_bytes rx = mqtt_packet MG_MQTT_CMD_SUBSCRIBE MG_MQTT_QOS1 (subscribe_body topics i) @ rest"
    and "\<forall>(t, q) \<in> set topics. length t < 2 ^ 16" and "length (subscribe_body topics i) < 2 ^ 28" and "length topics > 512"
  shows "\<exists>n m. parse_mqtt rx mm = Some (n, m) \<and> subscribe_topics m 0 0 = None"
proof -
  from subscribe_parses [OF assms(1-4), of mm] obtain n m ts where "parse_mqtt rx mm = Some (n, m)"
    "subscribe_topics m 0 0 = (if length topics \<le> qoss_size then Some ts else None)" by metis
  with assms(5) show ?thesis by (simp add: qoss_size_def)
qed

section \<open>The handshake and its parse\<close>

definition opt_field :: "bytes option \<Rightarrow> bytes" where
  "opt_field s = (case s of None \<Rightarrow> [] | Some b \<Rightarrow> be16_len b @ b)"

definition will_field :: "mqtt_handshake_opts \<Rightarrow> bytes option \<Rightarrow> bytes option" where
  "will_field opts s = (if has_will opts then s else None)"

text \<open>The caller leaves the flags of the optional fields to the function.\<close>

definition plain_opts :: "mqtt_handshake_opts \<Rightarrow> bool" where
  "plain_opts opts \<longleftrightarrow> ho_flags opts AND (MG_MQTT_HAS_USER_NAME OR MG_MQTT_HAS_PASSWORD OR MG_MQTT_HAS_WILL) = 0"

lemma and_bit_eq:
  "(w :: u8) AND 0x80 = (if bit w 7 then 0x80 else 0)" "w AND 0x40 = (if bit w 6 then 0x40 else 0)"
  "w AND 4 = (if bit w 2 then 4 else 0)"
  by (rule u8_eqI; simp add: bit_simps)+

lemma and_bit: "(w :: u8) AND 0x80 \<noteq> 0 \<longleftrightarrow> bit w 7" "(w :: u8) AND 0x40 \<noteq> 0 \<longleftrightarrow> bit w 6"
  "(w :: u8) AND 4 \<noteq> 0 \<longleftrightarrow> bit w 2"
  by (simp_all add: and_bit_eq)

lemma handshake_flags_bits:
  assumes "plain_opts opts"
  shows "handshake_flags opts AND MG_MQTT_HAS_USER_NAME \<noteq> 0 \<longleftrightarrow> ho_user_name opts \<noteq> None"
    and "handshake_flags opts AND MG_MQTT_HAS_PASSWORD \<noteq> 0 \<longleftrightarrow> ho_password opts \<noteq> None"
    and "handshake_flags opts AND MG_MQTT_HAS_WILL \<noteq> 0 \<longleftrightarrow> has_will opts"
proof -
  have z: "bit (ho_flags opts AND 0xC4) n = False" for n
    using assms by (simp add: plain_opts_def MG_MQTT_HAS_USER_NAME_def MG_MQTT_HAS_PASSWORD_def MG_MQTT_HAS_WILL_def)
  have f: "\<not> bit (ho_flags opts) 7" "\<not> bit (ho_flags opts) 6" "\<not> bit (ho_flags opts) 2"
    using z [of 7] z [of 6] z [of 2] by (simp_all add: bit_and_iff)
  show "handshake_flags opts AND MG_MQTT_HAS_USER_NAME \<noteq> 0 \<longleftrightarrow> ho_user_name opts \<noteq> None"
    and "handshake_flags opts AND MG_MQTT_HAS_PASSWORD \<noteq> 0 \<longleftrightarrow> ho_password opts \<noteq> None"
    and "handshake_flags opts AND MG_MQTT_HAS_WILL \<noteq> 0 \<longleftrightarrow> has_will opts"
    unfolding MG_MQTT_HAS_USER_NAME_def MG_MQTT_HAS_PASSWORD_def MG_MQTT_HAS_WILL_def and_bit handshake_flags_def
    by (simp_all add: f bit_or_iff flag_if_def)
qed

lemma length_be16_len [simp]: "length (be16_len s) = 2"
  by (simp add: be16_len_def)

lemma opt_field_pos: "s \<noteq> None \<Longrightarrow> 0 < length (opt_field s)"
  by (cases s) (simp_all add: opt_field_def del: length_greater_0_conv)

lemma will_field_iff: "will_field opts (ho_will_topic opts) \<noteq> None \<longleftrightarrow> has_will opts"
  "will_field opts (ho_will_message opts) \<noteq> None \<longleftrightarrow> has_will opts"
  by (auto simp: will_field_def has_will_def)

definition holds_field :: "bytes option \<Rightarrow> mg_str \<Rightarrow> bool" where
  "holds_field s t \<longleftrightarrow> (\<forall>b. s = Some b \<longrightarrow> ms_bytes t = b)"

lemma scan_if_ahead:
  assumes "drop p mem = opt_field s @ r" and "c \<longleftrightarrow> s \<noteq> None" and "length (opt_field s) < 2 ^ 16"
  obtains t where "\<forall>upd mm. scan_if c mem p upd mm = Some (p + length (opt_field s), (if c then upd t mm else mm))"
    and "drop (p + length (opt_field s)) mem = r" and "holds_field s t"
proof (cases s)
  case None
  then show ?thesis using that [of null_str] assms(1,2) by (simp add: scan_if_def opt_field_def holds_field_def)
next
  case (Some b)
  then have d: "drop p mem = be16_len b @ b @ r" and l: "length b < 2 ^ 16"
    using assms(1,3) by (simp_all add: opt_field_def be16_len_def)
  let ?t = "\<lparr>ms_mem = mem, ms_p = p + 2, ms_len = length b\<rparr>"
  have n: "p + length (opt_field s) = p + 2 + length b" using Some by (simp add: opt_field_def be16_len_def)
  note sc = scanto_ahead [OF d l]
  have c using Some assms(2) by simp
  show ?thesis
  proof (rule that [of ?t])
    show "\<forall>upd mm. scan_if c mem p upd mm = Some (p + length (opt_field s), (if c then upd ?t mm else mm))"
      using \<open>c\<close> sc(1) n by (simp add: scan_if_def)
    show "drop (p + length (opt_field s)) mem = r" using sc(3) n by simp
    show "holds_field s ?t" using sc(2) Some by (simp add: holds_field_def)
  qed
qed

definition connect_fields :: "bytes \<Rightarrow> mqtt_handshake_opts \<Rightarrow> bytes" where
  "connect_fields cid opts = opt_field (Some cid) @ opt_field (will_field opts (ho_will_topic opts)) @
     opt_field (will_field opts (ho_will_message opts)) @ opt_field (ho_user_name opts) @ opt_field (ho_password opts)"

definition connect_keep_alive :: "mqtt_handshake_opts \<Rightarrow> u16" where
  "connect_keep_alive opts = (if ho_keep_alive opts = 0 then 60 else ho_keep_alive opts)"

definition connect_body :: "bytes \<Rightarrow> mqtt_handshake_opts \<Rightarrow> bytes" where
  "connect_body cid opts =
     be16_len (str ''MQIsdp'') @ str ''MQIsdp'' @ [3, handshake_flags opts] @ be16 (connect_keep_alive opts) @
     connect_fields cid opts"

lemma connect_front:
  assumes d: "drop p mem = connect_body cid opts @ r"
  shows "scanto mem p = Some (p + 8, \<lparr>ms_mem = mem, ms_p = p + 2, ms_len = 6\<rparr>)"
    and "ms_bytes \<lparr>ms_mem = mem, ms_p = p + 2, ms_len = 6\<rparr> = str ''MQIsdp''"
    and "rd mem (p + 8) = Some 3" and "rd mem (p + 8 + 1) = Some (handshake_flags opts)"
    and "getu16 mem (p + 8 + 2) = Some (connect_keep_alive opts)"
    and "drop (p + 8 + 4) mem = connect_fields cid opts @ r"
proof -
  let ?name = "str ''MQIsdp''" and ?k = "connect_keep_alive opts"
  have n16: "length ?name < 2 ^ 16" by simp
  have d0: "drop p mem = be16_len ?name @ ?name @ [3, handshake_flags opts] @ be16 ?k @ connect_fields cid opts @ r"
    using d unfolding connect_body_def by simp
  define P where "P = p + 8"
  have P: "p + 2 + length ?name = P" by (simp add: P_def)
  note sc = scanto_ahead [OF d0 n16, unfolded P]
  have "drop P mem = [3] @ [handshake_flags opts] @ be16 ?k @ connect_fields cid opts @ r" using sc(3) by simp
  note d1 = this drop_past [OF this, of 1]
  from d1 have d2: "drop (P + 1) mem = [handshake_flags opts] @ be16 ?k @ connect_fields cid opts @ r" by simp
  from drop_past [OF d2, of 1] have d3: "drop (P + 2) mem = be16 ?k @ connect_fields cid opts @ r" by (simp add: add.assoc)
  show "scanto mem p = Some (p + 8, \<lparr>ms_mem = mem, ms_p = p + 2, ms_len = 6\<rparr>)"
    and "ms_bytes \<lparr>ms_mem = mem, ms_p = p + 2, ms_len = 6\<rparr> = ?name"
    using sc(1,2) by (simp_all add: P_def numeral_eq_Suc)
  show "rd mem (p + 8) = Some 3" and "rd mem (p + 8 + 1) = Some (handshake_flags opts)"
    and "getu16 mem (p + 8 + 2) = Some ?k"
    unfolding P_def [symmetric] using d1 d2 rd_ahead getu16_ahead [OF d3] by fastforce+
  show "drop (p + 8 + 4) mem = connect_fields cid opts @ r"
    using be16_ahead(3) [OF d3] unfolding P_def [symmetric] by (simp add: numeral_eq_Suc)
qed

text \<open>The five optional fields, each with the condition under which the parser reads it.\<close>

lemma connect_scans:
  assumes d: "drop p0 mem = connect_fields cid opts @ r" and plain: "plain_opts opts"
    and small: "length (connect_fields cid opts) < 2 ^ 16"
    and fin: "fin = p0 + length (connect_fields cid opts)"
  obtains p1 t0 p2 t1 p3 t2 p4 t3 t4 where
    "\<forall>upd mm. scan_if (p0 < fin) mem p0 upd mm = Some (p1, upd t0 mm)"
    "\<forall>upd mm. scan_if (p1 < fin \<and> handshake_flags opts AND MG_MQTT_HAS_WILL \<noteq> 0) mem p1 upd mm =
       Some (p2, if has_will opts then upd t1 mm else mm)"
    "\<forall>upd mm. scan_if (p2 < fin \<and> handshake_flags opts AND MG_MQTT_HAS_WILL \<noteq> 0) mem p2 upd mm =
       Some (p3, if has_will opts then upd t2 mm else mm)"
    "\<forall>upd mm. scan_if (p3 < fin \<and> handshake_flags opts AND MG_MQTT_HAS_USER_NAME \<noteq> 0) mem p3 upd mm =
       Some (p4, if ho_user_name opts \<noteq> None then upd t3 mm else mm)"
    "\<forall>upd mm. scan_if (p4 < fin \<and> handshake_flags opts AND MG_MQTT_HAS_PASSWORD \<noteq> 0) mem p4 upd mm =
       Some (fin, if ho_password opts \<noteq> None then upd t4 mm else mm)"
    "holds_field (Some cid) t0" "holds_field (will_field opts (ho_will_topic opts)) t1"
    "holds_field (will_field opts (ho_will_message opts)) t2" "holds_field (ho_user_name opts) t3"
    "holds_field (ho_password opts) t4"
proof -
  let ?wt = "will_field opts (ho_will_topic opts)" and ?wm = "will_field opts (ho_will_message opts)"
  let ?u = "ho_user_name opts" and ?w = "ho_password opts"
  define p1 where "p1 = p0 + length (opt_field (Some cid))"
  define p2 where "p2 = p1 + length (opt_field ?wt)"
  define p3 where "p3 = p2 + length (opt_field ?wm)"
  define p4 where "p4 = p3 + length (opt_field ?u)"
  note ps = p1_def p2_def p3_def p4_def
  have e: "fin = p4 + length (opt_field ?w)" by (simp add: fin connect_fields_def ps)
  have small': "length (opt_field (Some cid)) < 2 ^ 16" "length (opt_field ?wt) < 2 ^ 16"
    "length (opt_field ?wm) < 2 ^ 16" "length (opt_field ?u) < 2 ^ 16" "length (opt_field ?w) < 2 ^ 16"
    using small by (simp_all add: connect_fields_def)
  note bits = handshake_flags_bits [OF plain] and wi = will_field_iff [of opts]
  have c0: "p0 < fin \<longleftrightarrow> Some cid \<noteq> None"
    using e opt_field_pos [of "Some cid"] by (simp add: ps)
  have c1: "p1 < fin \<and> handshake_flags opts AND MG_MQTT_HAS_WILL \<noteq> 0 \<longleftrightarrow> ?wt \<noteq> None"
    using e opt_field_pos [of ?wt] bits(3) wi(1) by (auto simp: p4_def p3_def p2_def)
  have c2: "p2 < fin \<and> handshake_flags opts AND MG_MQTT_HAS_WILL \<noteq> 0 \<longleftrightarrow> ?wm \<noteq> None"
    using e opt_field_pos [of ?wm] bits(3) wi(2) by (auto simp: p4_def p3_def)
  have c3: "p3 < fin \<and> handshake_flags opts AND MG_MQTT_HAS_USER_NAME \<noteq> 0 \<longleftrightarrow> ?u \<noteq> None"
    using e opt_field_pos [of ?u] bits(1) by (auto simp: p4_def)
  have c4: "p4 < fin \<and> handshake_flags opts AND MG_MQTT_HAS_PASSWORD \<noteq> 0 \<longleftrightarrow> ?w \<noteq> None"
    using e opt_field_pos [of ?w] bits(2) by auto
  have d3: "drop p0 mem = opt_field (Some cid) @ opt_field ?wt @ opt_field ?wm @ opt_field ?u @ opt_field ?w @ r"
    using d by (simp add: connect_fields_def)
  from scan_if_ahead [OF d3 c0 small'(1), folded p1_def] obtain t0 where 0:
    "\<forall>upd mm. scan_if (p0 < fin) mem p0 upd mm = Some (p1, (if p0 < fin then upd t0 mm else mm))"
    "drop p1 mem = opt_field ?wt @ opt_field ?wm @ opt_field ?u @ opt_field ?w @ r" "holds_field (Some cid) t0" .
  from scan_if_ahead [OF 0(2) c1 small'(2), folded p2_def, unfolded c1 wi] obtain t1 where 1:
    "\<forall>upd mm. scan_if (has_will opts) mem p1 upd mm = Some (p2, (if has_will opts then upd t1 mm else mm))"
    "drop p2 mem = opt_field ?wm @ opt_field ?u @ opt_field ?w @ r" "holds_field ?wt t1" .
  from scan_if_ahead [OF 1(2) c2 small'(3), folded p3_def, unfolded c2 wi] obtain t2 where 2:
    "\<forall>upd mm. scan_if (has_will opts) mem p2 upd mm = Some (p3, (if has_will opts then upd t2 mm else mm))"
    "drop p3 mem = opt_field ?u @ opt_field ?w @ r" "holds_field ?wm t2" .
  from scan_if_ahead [OF 2(2) c3 small'(4), folded p4_def, unfolded c3] obtain t3 where 3:
    "\<forall>upd mm. scan_if (?u \<noteq> None) mem p3 upd mm = Some (p4, (if ?u \<noteq> None then upd t3 mm else mm))"
    "drop p4 mem = opt_field ?w @ r" "holds_field ?u t3" .
  from scan_if_ahead [OF 3(2) c4 small'(5), folded e, unfolded c4] obtain t4 where 4:
    "\<forall>upd mm. scan_if (?w \<noteq> None) mem p4 upd mm = Some (fin, (if ?w \<noteq> None then upd t4 mm else mm))"
    "holds_field ?w t4" by blast
  show ?thesis
    by (rule that [of p1 t0 p2 t1 p3 t2 p4 t3 t4]; (unfold c1 c2 c3 c4 wi)?;
        (fact 1 2 3 4 | use 0 c0 in simp))
qed

lemma connect_parses:
  assumes d: "drop p mem = connect_body cid opts @ r"
    and plain: "plain_opts opts" and small: "length (connect_body cid opts) < 2 ^ 16"
  obtains m where "parse_connect mem p (p + length (connect_body cid opts)) mm = Some m"
    and "ms_bytes (mm_protocol_name m) = str ''MQIsdp''" and "mm_protocol_version m = 3"
    and "mm_keep_alive_timer m = connect_keep_alive opts"
    and "mm_connect_flags m = handshake_flags opts"
    and "ms_bytes (mm_client_id m) = cid"
    and "holds_field (will_field opts (ho_will_topic opts)) (mm_will_topic m)"
    and "holds_field (will_field opts (ho_will_message opts)) (mm_will_message m)"
    and "holds_field (ho_user_name opts) (mm_user_name m)"
    and "holds_field (ho_password opts) (mm_password m)"
    and "mm_cmd m = mm_cmd mm"
proof -
  note fr = connect_front [OF d]
  let ?fin = "p + length (connect_body cid opts)"
  have len: "length (connect_body cid opts) = 12 + length (connect_fields cid opts)" by (simp add: connect_body_def)
  have "length (connect_fields cid opts) < 2 ^ 16" "?fin = p + 8 + 4 + length (connect_fields cid opts)"
    using small len by simp_all
  from connect_scans [OF fr(6) plain this] obtain p1 t0 p2 t1 p3 t2 p4 t3 t4 where
    s: "\<forall>upd mm. scan_if (p + 8 + 4 < ?fin) mem (p + 8 + 4) upd mm = Some (p1, upd t0 mm)"
    "\<forall>upd mm. scan_if (p1 < ?fin \<and> handshake_flags opts AND MG_MQTT_HAS_WILL \<noteq> 0) mem p1 upd mm =
       Some (p2, if has_will opts then upd t1 mm else mm)"
    "\<forall>upd mm. scan_if (p2 < ?fin \<and> handshake_flags opts AND MG_MQTT_HAS_WILL \<noteq> 0) mem p2 upd mm =
       Some (p3, if has_will opts then upd t2 mm else mm)"
    "\<forall>upd mm. scan_if (p3 < ?fin \<and> handshake_flags opts AND MG_MQTT_HAS_USER_NAME \<noteq> 0) mem p3 upd mm =
       Some (p4, if ho_user_name opts \<noteq> None then upd t3 mm else mm)"
    "\<forall>upd mm. scan_if (p4 < ?fin \<and> handshake_flags opts AND MG_MQTT_HAS_PASSWORD \<noteq> 0) mem p4 upd mm =
       Some (?fin, if ho_password opts \<noteq> None then upd t4 mm else mm)"
    and h: "holds_field (Some cid) t0" "holds_field (will_field opts (ho_will_topic opts)) t1"
    "holds_field (will_field opts (ho_will_message opts)) t2" "holds_field (ho_user_name opts) t3"
    "holds_field (ho_password opts) t4" .
  define m1 where "m1 = mm\<lparr>mm_protocol_name := \<lparr>ms_mem = mem, ms_p = p + 2, ms_len = 6\<rparr>,
    mm_protocol_version := 3, mm_connect_flags := handshake_flags opts, mm_keep_alive_timer := connect_keep_alive opts,
    mm_client_id := t0\<rparr>"
  define m2 where "m2 = (if has_will opts then m1\<lparr>mm_will_topic := t1\<rparr> else m1)"
  define m3 where "m3 = (if has_will opts then m2\<lparr>mm_will_message := t2\<rparr> else m2)"
  define m4 where "m4 = (if ho_user_name opts \<noteq> None then m3\<lparr>mm_user_name := t3\<rparr> else m3)"
  define m5 where "m5 = (if ho_password opts \<noteq> None then m4\<lparr>mm_password := t4\<rparr> else m4)"
  note ms = m5_def m4_def m3_def m2_def m1_def
  have fl: "mm_connect_flags m1 = handshake_flags opts" "mm_connect_flags m2 = handshake_flags opts"
    "mm_connect_flags m3 = handshake_flags opts" "mm_connect_flags m4 = handshake_flags opts"
    by (simp_all add: ms)
  have "parse_connect mem p ?fin mm = Some m5"
    unfolding parse_connect_def
    by (simp only: fr(1,3,4,5) Option.bind.bind_lunit prod.case Let_def s [rule_format] m1_def [symmetric] fl
        m2_def [symmetric] m3_def [symmetric] m4_def [symmetric] m5_def [symmetric])
  then show ?thesis
    using h fr(2) by (intro that [of m5]) (auto simp: ms holds_field_def will_field_def)
qed

definition field_chunks :: "bytes option \<Rightarrow> bytes list" where
  "field_chunks s = (case s of None \<Rightarrow> [] | Some b \<Rightarrow> [be16_len b, b])"

lemma concat_field_chunks [simp]: "concat (field_chunks s) = opt_field s"
  by (simp add: field_chunks_def opt_field_def split: option.split)

lemma send_field_chunks:
  "c \<longleftrightarrow> s' \<noteq> None \<Longrightarrow> (c \<Longrightarrow> s = s') \<Longrightarrow> send_field io c s nc = Some (mg_sends io (field_chunks s') nc)"
  by (cases s') (auto simp: send_field_def field_chunks_def mg_sends_def)

lemma rem_add_field: "rem_add s = of_nat (length (opt_field s))"
  by (simp add: rem_add_def opt_field_def split: option.split)

lemma handshake_rem_len_body: "handshake_rem_len cid opts = of_nat (length (connect_body cid opts))"
  by (simp add: handshake_rem_len_def rem_add_field connect_body_def connect_fields_def will_field_def)
    (simp add: opt_field_def)

lemma handshake_sends:
  assumes rel: "reliable K (io_ra io)" and q: "outq nc a" and plain: "plain_opts opts"
    and small: "length (connect_body cid opts) < 128"
    and fits: "mbuf_grow (length a + 2 + length (connect_body cid opts)) \<le> K"
  obtains nc' where "mg_send_mqtt_handshake_opt io cid opts nc = Some nc'"
    and "outq nc' (a @ mqtt_packet MG_MQTT_CMD_CONNECT 0 (connect_body cid opts))"
proof -
  let ?wt = "will_field opts (ho_will_topic opts)" and ?wm = "will_field opts (ho_will_message opts)"
  let ?hd = "[[push_bit 4 (word_of_int MG_MQTT_CMD_CONNECT)], [handshake_rem_len cid opts],
    [0, 6] @ str ''MQIsdp'' @ [3], [handshake_flags opts], be16 (connect_keep_alive opts), be16_len cid, cid]"
  let ?ds = "?hd @ field_chunks ?wt @ field_chunks ?wm @ field_chunks (ho_user_name opts) @ field_chunks (ho_password opts)"
  note bits = handshake_flags_bits [OF plain]
  have v: "varlen (length (connect_body cid opts)) = [of_nat (length (connect_body cid opts))]"
    using small by (subst varlen.simps) (simp add: Let_def)
  have name: "be16_len (str ''MQIsdp'') = [0, 6]" by (simp add: be16_len_def be16_def)
  have c: "concat ?ds = mqtt_packet MG_MQTT_CMD_CONNECT 0 (connect_body cid opts)"
    unfolding mqtt_packet_def v handshake_rem_len_body
    by (simp add: connect_body_def connect_fields_def name [unfolded str_Cons str_Nil]) (simp add: opt_field_def)
  have w: "send_field io (handshake_flags opts AND MG_MQTT_HAS_WILL \<noteq> 0) (ho_will_topic opts) n = Some (mg_sends io (field_chunks ?wt) n)"
    "send_field io (handshake_flags opts AND MG_MQTT_HAS_WILL \<noteq> 0) (ho_will_message opts) n = Some (mg_sends io (field_chunks ?wm) n)"
    "send_field io (handshake_flags opts AND MG_MQTT_HAS_USER_NAME \<noteq> 0) (ho_user_name opts) n =
       Some (mg_sends io (field_chunks (ho_user_name opts)) n)"
    "send_field io (handshake_flags opts AND MG_MQTT_HAS_PASSWORD \<noteq> 0) (ho_password opts) n =
       Some (mg_sends io (field_chunks (ho_password opts)) n)" for n
    using bits will_field_iff [of opts] by (intro send_field_chunks; force simp: will_field_def)+
  have e: "mg_send_mqtt_handshake_opt io cid opts nc = Some (mg_sends io ?ds nc)"
    by (simp only: mg_send_mqtt_handshake_opt_def Let_def w Option.bind.bind_lunit mg_sends_append
        connect_keep_alive_def [symmetric])
  have l: "length (concat ?ds) = 2 + length (connect_body cid opts)" unfolding c by (simp add: mqtt_packet_def v)
  have "outq (mg_sends io ?ds nc) (a @ concat ?ds)"
    by (rule outq_sends [OF rel q]) (use fits l small in \<open>simp add: add.assoc\<close>, rule chunks_small, use l small in simp)
  with that e show ?thesis unfolding c by blast
qed

section \<open>Delivery\<close>

text \<open>A handler that leaves the receive buffer to the protocol.\<close>

definition quiet :: "('d, 'u) handler \<Rightarrow> bool" where
  "quiet h \<longleftrightarrow> (\<forall>ev nc. nc_recv (h ev nc) = nc_recv nc)"

text \<open>The user sees the event and the message, and the buffer loses exactly the packet.\<close>

definition delivers :: "(mg_mqtt_message, 'u) handler \<Rightarrow> int \<Rightarrow> 'u mg_connection \<Rightarrow> mg_mqtt_message \<Rightarrow> bytes \<Rightarrow> bool" where
  "delivers h n rc m rest \<longleftrightarrow>
     (\<exists>b. mqtt_handler h (EvRecv n) rc = Some ((h (EvProto m) (h (EvRecv n) rc))\<lparr>nc_recv := b\<rparr>) \<and>
          mbuf_inv b \<and> mbuf_bytes b = rest)"

lemma handler_delivers:
  assumes q: "quiet h" and rx: "mbuf_inv (nc_recv rc)" "mbuf_bytes (nc_recv rc) = pkt @ rest"
    and pkt: "pkt \<noteq> []" "length pkt < 2 ^ 30"
    and p: "parse_mqtt (nc_recv rc) mqtt_zero = Some (int (length pkt), m)"
  shows "delivers h n rc m rest"
proof -
  have r: "nc_recv (h ev nc) = nc_recv nc" for ev nc using q by (simp add: quiet_def)
  have l: "mb_len (nc_recv rc) = length pkt + length rest" using length_mbuf_bytes [OF rx(1)] rx(2) by simp
  let ?b = "mbuf_remove (nc_recv rc) (length pkt)"
  have mod: "nat (int (length pkt) mod 2 ^ 64) = length pkt" using pkt(2) by simp
  have "mqtt_handler h (EvRecv n) rc = Some ((h (EvProto m) (h (EvRecv n) rc))\<lparr>nc_recv := ?b\<rparr>)"
    unfolding mqtt_handler_def Let_def mg_event.case r p Option.bind.bind_lunit prod.case mod by simp
  moreover have "mbuf_inv ?b" "mbuf_bytes ?b = rest"
    using mbuf_remove_bytes [OF rx(1), of "length pkt"] rx(2) l by simp_all
  ultimately show ?thesis unfolding delivers_def by blast
qed

lemma mqtt_packet_bounds:
  assumes "length body < 2 ^ 28"
  shows "mqtt_packet cmd flags body \<noteq> []" "length (mqtt_packet cmd flags body) < 2 ^ 30"
  using varlen_length [of "length body" 4] assms by (simp_all add: mqtt_packet_def)

lemma connect_packet_parses:
  assumes rx: "mbuf_inv rx" "mbuf_bytes rx = mqtt_packet MG_MQTT_CMD_CONNECT 0 (connect_body cid opts) @ rest"
    and plain: "plain_opts opts" and small: "length (connect_body cid opts) < 2 ^ 16"
  obtains m where "parse_mqtt rx mqtt_zero =
      Some (int (length (mqtt_packet MG_MQTT_CMD_CONNECT 0 (connect_body cid opts))), m)"
    and "mm_cmd m = MG_MQTT_CMD_CONNECT" and "mm_protocol_version m = 3"
    and "ms_bytes (mm_client_id m) = cid" and "mm_keep_alive_timer m = connect_keep_alive opts"
    and "holds_field (will_field opts (ho_will_topic opts)) (mm_will_topic m)"
    and "holds_field (will_field opts (ho_will_message opts)) (mm_will_message m)"
    and "holds_field (ho_user_name opts) (mm_user_name m)"
    and "holds_field (ho_password opts) (mm_password m)"
proof -
  let ?b = "connect_body cid opts"
  let ?m0 = "mqtt_zero\<lparr>mm_cmd := MG_MQTT_CMD_CONNECT, mm_qos := MG_MQTT_GET_QOS 0\<rparr>"
  have cmd: "0 \<le> MG_MQTT_CMD_CONNECT" "MG_MQTT_CMD_CONNECT < 16" by (simp_all add: mqtt_cmds)
  have z: "(0 :: u8) = take_bit 4 0" and l: "length ?b < 2 ^ 28" using small by simp_all
  from parse_packet [OF rx l cmd z, of mqtt_zero] obtain p r where
    d: "drop p (mb_mem rx) = ?b @ r" and len: "length (mqtt_packet MG_MQTT_CMD_CONNECT 0 ?b) = p + length ?b"
    and P: "parse_mqtt rx mqtt_zero = do {
      m \<leftarrow> parse_body (mb_mem rx) p (p + length ?b) (push_bit 4 (word_of_int MG_MQTT_CMD_CONNECT) OR 0) ?m0;
      Some (int (p + length ?b), m) }" .
  have b: "parse_body (mb_mem rx) p f hd ?m0 = parse_connect (mb_mem rx) p f ?m0" for f hd
    by (simp add: parse_body_def mqtt_cmds)
  have c: "mm_cmd ?m0 = MG_MQTT_CMD_CONNECT" by simp
  show ?thesis
  proof (rule connect_parses [OF d plain small, of ?m0])
    fix m assume m: "parse_connect (mb_mem rx) p (p + length ?b) ?m0 = Some m"
    have "parse_mqtt rx mqtt_zero = Some (int (length (mqtt_packet MG_MQTT_CMD_CONNECT 0 ?b)), m)"
      unfolding P b m len Option.bind.bind_lunit by (rule refl)
    from that [OF this] show ?thesis
      if "mm_cmd m = mm_cmd ?m0" "mm_protocol_version m = 3" "ms_bytes (mm_client_id m) = cid"
        "mm_keep_alive_timer m = connect_keep_alive opts"
        "holds_field (will_field opts (ho_will_topic opts)) (mm_will_topic m)"
        "holds_field (will_field opts (ho_will_message opts)) (mm_will_message m)"
        "holds_field (ho_user_name opts) (mm_user_name m)" "holds_field (ho_password opts) (mm_password m)"
      using that c by simp
  qed
qed

text \<open>With a quality of service above 0 the sender puts the message id behind the topic but the
  parser looks for it in front: it reports the length of the topic instead.\<close>

lemma publish_qos_confused:
  assumes rx: "mbuf_inv rx"
      "mbuf_bytes rx = mqtt_packet MG_MQTT_CMD_PUBLISH flags (publish_body topic i flags payload) @ rest"
    and qos: "MG_MQTT_GET_QOS flags > 0" and fl: "flags = take_bit 4 flags"
    and small: "length (publish_body topic i flags payload) < 2 ^ 28"
    and p: "parse_mqtt rx mm = Some (n, m)"
  shows "mm_message_id m = of_nat (length topic)"
proof -
  let ?b = "publish_body topic i flags payload"
  have cmd: "0 \<le> MG_MQTT_CMD_PUBLISH" "MG_MQTT_CMD_PUBLISH < 16" by (simp_all add: mqtt_cmds)
  from parse_packet [OF rx small(1) cmd fl, of mm] obtain q r where
    d: "drop q (mb_mem rx) = ?b @ r"
    and P: "parse_mqtt rx mm = do {
      m \<leftarrow> parse_body (mb_mem rx) q (q + length ?b) (push_bit 4 (word_of_int MG_MQTT_CMD_PUBLISH) OR flags)
             (mm\<lparr>mm_cmd := MG_MQTT_CMD_PUBLISH, mm_qos := MG_MQTT_GET_QOS flags\<rparr>);
      Some (int (q + length ?b), m) }" .
  have "drop q (mb_mem rx) = be16 (of_nat (length topic)) @ topic @ be16 i @ payload @ r"
    using d qos by (simp add: publish_body_def be16_len_def)
  note g = getu16_ahead [OF this]
  from p show ?thesis
    unfolding P parse_body_def parse_publish_def take_bit_QOS using qos g
    by (auto simp: mqtt_cmds split: Option.bind_splits)
qed

text \<open>
  The end check lets a packet through that lacks its last byte: the message is delivered with
  a byte beyond the received data, nothing is removed, and it is delivered again later.
\<close>

definition short_read :: mbuf where
  "short_read = \<lparr>mb_addr = 64, mb_mem = [0x30, 5, 0, 1, 97, 120, 0xEE], mb_len = 6, mb_size = 7\<rparr>"

lemma parse_mqtt_off_by_one:
  "map_option (\<lambda>(n, m). (n, ms_bytes (mm_payload m))) (parse_mqtt short_read mqtt_zero) = Some (7, [120, 0xEE])"
  "mbuf_remove short_read 7 = short_read"
proof -
  have v: "mqtt_varlen [0x30, 5, 0, 1, 97, 120, 0xEE] 6 (Suc 0) 0 = Some (2, 5)"
    by (subst mqtt_varlen.simps) (simp add: rd_def int_shl_def)
  have c: "c_int 7 = 7" by (rule c_int_small) simp_all
  show "map_option (\<lambda>(n, m). (n, ms_bytes (mm_payload m))) (parse_mqtt short_read mqtt_zero) = Some (7, [120, 0xEE])"
    by (simp add: parse_mqtt_def short_read_def v c rd_def parse_body_def parse_publish_def mqtt_cmds
        MG_MQTT_GET_QOS_def scanto_def getu16_def un16_def Let_def ptr_diff_def ms_bytes_def bslice_def)
  show "mbuf_remove short_read 7 = short_read" by (simp add: mbuf_remove_def short_read_def)
qed

section \<open>Properties\<close>

text \<open>C24. A message published at quality of service 0 arrives: the publisher appends one packet to
  its queue, and a peer whose receive buffer starts with that packet hands its user a PUBLISH
  message with the same topic and payload and removes exactly the packet, whatever follows it.\<close>

theorem mqtt_publish_delivered:
  assumes "reliable K (io_ra io)" and "outq nc a" and "MG_MQTT_GET_QOS flags = 0" and "flags = take_bit 4 flags"
    and "length topic < 2 ^ 16" and "length (publish_body topic i flags payload) < 2 ^ 28"
    and "mbuf_grow (length a + 5 + length (publish_body topic i flags payload)) \<le> K"
  shows "\<exists>nc' pkt. mg_mqtt_publish io topic i flags payload nc = Some nc' \<and> outq nc' (a @ pkt) \<and>
    (\<forall>h n rc rest. quiet h \<and> mbuf_inv (nc_recv rc) \<and> mbuf_bytes (nc_recv rc) = pkt @ rest \<longrightarrow>
       (\<exists>m. delivers h n rc m rest \<and> mm_cmd m = MG_MQTT_CMD_PUBLISH \<and> mm_qos m = 0 \<and>
            ms_bytes (mm_topic m) = topic \<and> ms_bytes (mm_payload m) = payload))"
proof -
  let ?pkt = "mqtt_packet MG_MQTT_CMD_PUBLISH flags (publish_body topic i flags payload)"
  note nb = mqtt_packet_bounds [OF assms(6), of MG_MQTT_CMD_PUBLISH flags]
  obtain nc' where "mg_mqtt_publish io topic i flags payload nc = Some nc'" "outq nc' (a @ ?pkt)"
    using publish_sends [OF assms(1,2,6,7)] by blast
  moreover have "\<exists>m. delivers h n rc m rest \<and> mm_cmd m = MG_MQTT_CMD_PUBLISH \<and> mm_qos m = 0 \<and>
      ms_bytes (mm_topic m) = topic \<and> ms_bytes (mm_payload m) = payload"
    if "quiet h" "mbuf_inv (nc_recv rc)" "mbuf_bytes (nc_recv rc) = ?pkt @ rest" for h n rc rest
    using publish_parses [OF that(2,3) assms(3,4,5,6), of mqtt_zero] handler_delivers [OF that nb] by metis
  ultimately show ?thesis by blast
qed

theorem mqtt_publish_delivered_witness:
  "\<exists>nc' pkt. mg_mqtt_publish demo_io [1, 2] 9 0 [7] demo_conn = Some nc' \<and> outq nc' ([5, 6] @ pkt) \<and>
    (\<forall>h n rc rest. quiet (h :: (mg_mqtt_message, nat) handler) \<and> mbuf_inv (nc_recv rc) \<and>
         mbuf_bytes (nc_recv rc) = pkt @ rest \<longrightarrow>
       (\<exists>m. delivers h n rc m rest \<and> mm_cmd m = MG_MQTT_CMD_PUBLISH \<and> mm_qos m = 0 \<and>
            ms_bytes (mm_topic m) = [1, 2] \<and> ms_bytes (mm_payload m) = [7]))"
  by (rule mqtt_publish_delivered [of "2 ^ 20"])
    (simp_all add: demo_io_def arena_reliable [simplified] outq_def demo_simps MG_MQTT_GET_QOS_def publish_body_def
      mbuf_grow_def be16_len_def be16_def)

text \<open>C25. A subscription of at most 512 topics, as many as the broker's array takes, arrives: the peer gets a SUBSCRIBE message with
  the same id, and the broker's walk of it with \<open>mg_mqtt_next_subscribe_topic\<close> ends in bounds and gives the topics and qualities in order.\<close>

theorem mqtt_subscribe_delivered:
  assumes "reliable K (io_ra io)" and "outq nc a" and "\<forall>(t, q) \<in> set topics. length t < 2 ^ 16"
    and "length (subscribe_body topics i) < 2 ^ 28"
    and "mbuf_grow (length a + 5 + length (subscribe_body topics i)) \<le> K" and "length topics \<le> 512"
  shows "\<exists>nc' pkt. mg_mqtt_subscribe io topics i nc = Some nc' \<and> outq nc' (a @ pkt) \<and>
    (\<forall>h n rc rest. quiet h \<and> mbuf_inv (nc_recv rc) \<and> mbuf_bytes (nc_recv rc) = pkt @ rest \<longrightarrow>
       (\<exists>m ts. delivers h n rc m rest \<and> mm_cmd m = MG_MQTT_CMD_SUBSCRIBE \<and> mm_message_id m = i \<and>
            subscribe_topics m 0 0 = Some ts \<and> map (\<lambda>(s, q). (ms_bytes s, q)) ts = topics))"
proof -
  let ?pkt = "mqtt_packet MG_MQTT_CMD_SUBSCRIBE MG_MQTT_QOS1 (subscribe_body topics i)"
  note nb = mqtt_packet_bounds [OF assms(4), of MG_MQTT_CMD_SUBSCRIBE MG_MQTT_QOS1]
  obtain nc' where "mg_mqtt_subscribe io topics i nc = Some nc'" "outq nc' (a @ ?pkt)"
    using subscribe_sends [OF assms(1,2,4,5)] by blast
  moreover have "\<exists>m ts. delivers h n rc m rest \<and> mm_cmd m = MG_MQTT_CMD_SUBSCRIBE \<and> mm_message_id m = i \<and>
      subscribe_topics m 0 0 = Some ts \<and> map (\<lambda>(s, q). (ms_bytes s, q)) ts = topics"
    if "quiet h" "mbuf_inv (nc_recv rc)" "mbuf_bytes (nc_recv rc) = ?pkt @ rest" for h n rc rest
    using subscribe_parses [OF that(2,3) assms(3,4), of mqtt_zero] handler_delivers [OF that nb] assms(6)
    by (metis qoss_size_def)
  ultimately show ?thesis by blast
qed

theorem mqtt_subscribe_delivered_witness:
  "\<exists>nc' pkt. mg_mqtt_subscribe demo_io [([1], 0), ([2, 3], 1)] 9 demo_conn = Some nc' \<and> outq nc' ([5, 6] @ pkt) \<and>
    (\<forall>h n rc rest. quiet (h :: (mg_mqtt_message, nat) handler) \<and> mbuf_inv (nc_recv rc) \<and>
         mbuf_bytes (nc_recv rc) = pkt @ rest \<longrightarrow>
       (\<exists>m ts. delivers h n rc m rest \<and> mm_cmd m = MG_MQTT_CMD_SUBSCRIBE \<and> mm_message_id m = 9 \<and>
            subscribe_topics m 0 0 = Some ts \<and> map (\<lambda>(s, q). (ms_bytes s, q)) ts = [([1], 0), ([2, 3], 1)]))"
  by (rule mqtt_subscribe_delivered [of "2 ^ 20"])
    (simp_all add: demo_io_def arena_reliable [simplified] outq_def demo_simps subscribe_body_def
      mbuf_grow_def be16_len_def be16_def)


definition demo_opts :: mqtt_handshake_opts where
  "demo_opts = \<lparr>ho_flags = 2, ho_keep_alive = 0, ho_will_topic = None, ho_will_message = None,
     ho_user_name = Some [7, 8], ho_password = None\<rparr>"


end
