(* ===== verification/Coap.thy ===== *)
theory Coap
  imports Conn Str "HOL-Library.Multiset"
begin

text \<open>
  \<open>mongoose/src/coap.c\<close>: CoAP messages, their option list, the composer, the parser and the
  protocol handler.

  The option list is a list; the message's tail pointer is the position of an element in it.
  Parsed strings point into the receive buffer.  A result \<open>None\<close> is a read or a write outside
  a buffer's memory; a NULL pointer is an inner \<open>None\<close>.
\<close>

section \<open>Messages\<close>

definition MG_COAP_MSG_TYPE_FIELD :: u32 where "MG_COAP_MSG_TYPE_FIELD = 0x2"
definition MG_COAP_CODE_CLASS_FIELD :: u32 where "MG_COAP_CODE_CLASS_FIELD = 0x4"
definition MG_COAP_CODE_DETAIL_FIELD :: u32 where "MG_COAP_CODE_DETAIL_FIELD = 0x8"
definition MG_COAP_MSG_ID_FIELD :: u32 where "MG_COAP_MSG_ID_FIELD = 0x10"
definition MG_COAP_TOKEN_FIELD :: u32 where "MG_COAP_TOKEN_FIELD = 0x20"
definition MG_COAP_OPTIOMG_FIELD :: u32 where "MG_COAP_OPTIOMG_FIELD = 0x40"
definition MG_COAP_PAYLOAD_FIELD :: u32 where "MG_COAP_PAYLOAD_FIELD = 0x80"
definition MG_COAP_ERROR :: u32 where "MG_COAP_ERROR = 0x10000"
definition MG_COAP_FORMAT_ERROR :: u32 where "MG_COAP_FORMAT_ERROR = 0x30000"
definition MG_COAP_IGNORE :: u32 where "MG_COAP_IGNORE = 0x50000"
definition MG_COAP_NOT_ENOUGH_DATA :: u32 where "MG_COAP_NOT_ENOUGH_DATA = 0x90000"
definition MG_COAP_MSG_ACK :: u8 where "MG_COAP_MSG_ACK = 2"
definition MG_COAP_MSG_MAX :: u8 where "MG_COAP_MSG_MAX = 3"

lemmas coap_fields = MG_COAP_MSG_TYPE_FIELD_def MG_COAP_CODE_CLASS_FIELD_def MG_COAP_CODE_DETAIL_FIELD_def
  MG_COAP_MSG_ID_FIELD_def MG_COAP_TOKEN_FIELD_def MG_COAP_OPTIOMG_FIELD_def MG_COAP_PAYLOAD_FIELD_def
lemmas coap_errors = MG_COAP_ERROR_def MG_COAP_FORMAT_ERROR_def MG_COAP_IGNORE_def MG_COAP_NOT_ENOUGH_DATA_def

record mg_coap_option =
  co_number :: u32
  co_value :: mg_str

record mg_coap_message =
  cm_flags :: u32
  cm_msg_type :: u8
  cm_code_class :: u8
  cm_code_detail :: u8
  cm_msg_id :: u16
  cm_token :: mg_str
  cm_options :: "mg_coap_option list"
  cm_payload :: mg_str
  cm_tail :: nat

definition no_str :: mg_str where
  "no_str = \<lparr>ms_mem = [], ms_p = 0, ms_len = 0\<rparr>"

definition coap_zero :: mg_coap_message where
  "coap_zero = \<lparr>cm_flags = 0, cm_msg_type = 0, cm_code_class = 0, cm_code_detail = 0, cm_msg_id = 0,
     cm_token = no_str, cm_options = [], cm_payload = no_str, cm_tail = 0\<rparr>"

definition coap_flag :: "u32 \<Rightarrow> mg_coap_message \<Rightarrow> mg_coap_message" where
  "coap_flag f cm = cm\<lparr>cm_flags := cm_flags cm OR f\<rparr>"

section \<open>The option list\<close>

definition mg_coap_free_options :: "mg_coap_message \<Rightarrow> mg_coap_message" where
  "mg_coap_free_options cm = cm\<lparr>cm_options := []\<rparr>"

text \<open>The search for the first option with a greater number: the options before it and the rest.\<close>

fun coap_position :: "u32 \<Rightarrow> mg_coap_option list \<Rightarrow> mg_coap_option list \<times> mg_coap_option list" where
  "coap_position n [] = ([], [])"
| "coap_position n (x # xs) =
     (if co_number x > n then ([], x # xs) else let (a, b) = coap_position n xs in (x # a, b))"

text \<open>\<open>tail->next = new\<close> cuts the list off behind the tail; a tail outside the list is dangling.\<close>

definition mg_coap_add_option :: "mg_coap_message \<Rightarrow> u32 \<Rightarrow> mg_str \<Rightarrow> mg_coap_message option" where
  "mg_coap_add_option cm number value =
     (let new = \<lparr>co_number = number, co_value = value\<rparr>; os = cm_options cm in
      if os = [] then Some (cm\<lparr>cm_options := [new], cm_tail := 0\<rparr>)
      else if \<not> cm_tail cm < length os then None
      else if co_number (os ! cm_tail cm) \<le> number
        then Some (cm\<lparr>cm_options := take (cm_tail cm + 1) os @ [new], cm_tail := cm_tail cm + 1\<rparr>)
      else
        let (before, after) = coap_position number os in
        Some (cm\<lparr>cm_options := before @ [new] @ after,
                 cm_tail := (if length before \<le> cm_tail cm then cm_tail cm + 1 else cm_tail cm)\<rparr>))"

section \<open>Parsing\<close>

definition coap_parse_header :: "mbuf \<Rightarrow> mg_coap_message \<Rightarrow> (nat option \<times> mg_coap_message) option" where
  "coap_parse_header io cm =
     (if mb_len io < 4 then Some (None, coap_flag MG_COAP_NOT_ENOUGH_DATA cm)
      else do {
        b0 \<leftarrow> rd (mb_mem io) 0;
        if drop_bit 6 b0 \<noteq> 1 then Some (None, coap_flag MG_COAP_IGNORE cm)
        else do {
          let cm = coap_flag MG_COAP_MSG_TYPE_FIELD (cm\<lparr>cm_msg_type := drop_bit 4 (b0 AND 0x30)\<rparr>);
          let cm = cm\<lparr>cm_token := (cm_token cm)\<lparr>ms_len := unat (b0 AND 0x0F)\<rparr>\<rparr>;
          if ms_len (cm_token cm) > 8 then Some (None, coap_flag MG_COAP_FORMAT_ERROR cm)
          else do {
            b1 \<leftarrow> rd (mb_mem io) 1;
            let cm = coap_flag (MG_COAP_CODE_CLASS_FIELD OR MG_COAP_CODE_DETAIL_FIELD)
                       (cm\<lparr>cm_code_class := drop_bit 5 b1, cm_code_detail := b1 AND 0x1F\<rparr>);
            b2 \<leftarrow> rd (mb_mem io) 2;
            b3 \<leftarrow> rd (mb_mem io) 3;
            Some (Some 4, coap_flag MG_COAP_MSG_ID_FIELD (cm\<lparr>cm_msg_id := un16 b2 b3\<rparr>)) } } })"

definition coap_get_token :: "nat \<Rightarrow> mbuf \<Rightarrow> mg_coap_message \<Rightarrow> nat option \<times> mg_coap_message" where
  "coap_get_token p io cm =
     (let n = ms_len (cm_token cm) in
      if n \<noteq> 0 then
        if p + n > mb_len io then (None, coap_flag MG_COAP_NOT_ENOUGH_DATA cm)
        else (Some (p + n), coap_flag MG_COAP_TOKEN_FIELD
                (cm\<lparr>cm_token := \<lparr>ms_mem = mb_mem io, ms_p = p, ms_len = n\<rparr>\<rparr>))
      else (Some p, cm))"

text \<open>The number of bytes read, -1 when they are missing, and the delta or length as \<open>uint16_t\<close>.\<close>

definition coap_get_ext_opt :: "nat \<Rightarrow> mbuf \<Rightarrow> u16 \<Rightarrow> (int \<times> u16) option" where
  "coap_get_ext_opt p io opt_info =
     (if opt_info = 13 then
        if p < mb_len io then do { b \<leftarrow> rd (mb_mem io) p; Some (1, ucast b + 13) } else Some (-1, opt_info)
      else if opt_info = 14 then
        if p + 1 < mb_len io then do {
          a \<leftarrow> rd (mb_mem io) p;
          b \<leftarrow> rd (mb_mem io) (p + 1);
          Some (2, un16 a b + 269) }
        else Some (-1, opt_info)
      else Some (0, opt_info))"

text \<open>One turn of the option loop: whether it goes on, the pointer, the previous option, the message.\<close>

definition coap_option_step :: "mbuf \<Rightarrow> nat \<Rightarrow> u16 \<Rightarrow> mg_coap_message \<Rightarrow>
    (bool \<times> nat \<times> u16 \<times> mg_coap_message) option" where
  "coap_option_step io p prev_opt cm = do {
     b \<leftarrow> rd (mb_mem io) p;
     let option_delta = (ucast (drop_bit 4 (b AND 0xF0)) :: u16);
     let option_length = (ucast (b AND 0x0F) :: u16);
     if option_delta = 15 \<or> option_length = 15
     then Some (False, p, prev_opt, coap_flag MG_COAP_FORMAT_ERROR cm)
     else do {
       (n1, option_delta) \<leftarrow> coap_get_ext_opt (p + 1) io option_delta;
       if n1 = -1 then Some (False, p + 1, prev_opt, coap_flag MG_COAP_NOT_ENOUGH_DATA cm)
       else do {
         let p1 = p + 1 + nat n1;
         (n2, option_length) \<leftarrow> coap_get_ext_opt p1 io option_length;
         if n2 = -1 then Some (False, p1, prev_opt, coap_flag MG_COAP_NOT_ENOUGH_DATA cm)
         else do {
           let p2 = p1 + nat n2;
           let option_delta = option_delta + prev_opt;
           cm \<leftarrow> mg_coap_add_option cm (ucast option_delta)
                   \<lparr>ms_mem = mb_mem io, ms_p = p2, ms_len = unat option_length\<rparr>;
           if p2 + unat option_length > mb_len io
           then Some (False, p2, option_delta, coap_flag MG_COAP_NOT_ENOUGH_DATA cm)
           else Some (True, p2 + unat option_length, option_delta, cm) } } } }"

text \<open>Each turn moves the pointer on, so as many turns as there are bytes are enough; see
  \<open>coap_option_step_moves\<close>.\<close>

fun coap_options_loop :: "nat \<Rightarrow> mbuf \<Rightarrow> nat \<Rightarrow> u16 \<Rightarrow> mg_coap_message \<Rightarrow> (nat \<times> mg_coap_message) option" where
  "coap_options_loop fuel io p prev_opt cm =
     (if p < mb_len io \<and> rd (mb_mem io) p \<noteq> Some 0xFF then
        case fuel of
          0 \<Rightarrow> None
        | Suc fuel \<Rightarrow> do {
            (go, p, prev_opt, cm) \<leftarrow> coap_option_step io p prev_opt cm;
            if go then coap_options_loop fuel io p prev_opt cm else Some (p, cm) }
      else Some (p, cm))"

declare coap_options_loop.simps [simp del]

definition coap_get_options :: "nat \<Rightarrow> mbuf \<Rightarrow> mg_coap_message \<Rightarrow> (nat option \<times> mg_coap_message) option" where
  "coap_get_options p io cm =
     (if p = mb_len io then Some (None, cm)
      else do {
        (p, cm) \<leftarrow> coap_options_loop (mb_len io) io p 0 cm;
        if cm_flags cm AND MG_COAP_ERROR \<noteq> 0 then Some (None, mg_coap_free_options cm)
        else
          let cm = coap_flag MG_COAP_OPTIOMG_FIELD cm
          in if p = mb_len io then Some (None, cm) else Some (Some (p + 1), cm) })"

definition coap_get_payload :: "nat \<Rightarrow> mbuf \<Rightarrow> mg_coap_message \<Rightarrow> mg_coap_message" where
  "coap_get_payload p io cm =
     (let n = nat ((int (mb_len io) - int p) mod 2 ^ 64) in
      if n \<noteq> 0 then coap_flag MG_COAP_PAYLOAD_FIELD (cm\<lparr>cm_payload := \<lparr>ms_mem = mb_mem io, ms_p = p, ms_len = n\<rparr>\<rparr>)
      else cm\<lparr>cm_payload := (cm_payload cm)\<lparr>ms_len := 0\<rparr>\<rparr>)"

text \<open>\<open>mg_coap_parse\<close> returns the flags of the message it fills.\<close>

definition mg_coap_parse :: "mbuf \<Rightarrow> mg_coap_message option" where
  "mg_coap_parse io = do {
     (p, cm) \<leftarrow> coap_parse_header io coap_zero;
     case p of None \<Rightarrow> Some cm
     | Some p \<Rightarrow>
         (case coap_get_token p io cm of
            (None, cm) \<Rightarrow> Some cm
          | (Some p, cm) \<Rightarrow> do {
              (p, cm) \<leftarrow> coap_get_options p io cm;
              case p of None \<Rightarrow> Some cm | Some p \<Rightarrow> Some (coap_get_payload p io cm) }) }"

section \<open>Composing\<close>

definition coap_get_ext_opt_size :: "u32 \<Rightarrow> nat" where
  "coap_get_ext_opt_size value =
     (if value \<ge> 13 \<and> value \<le> 0xFF + 13 then 1
      else if value > 0xFF + 13 \<and> value \<le> 0xFFFF + 269 then 2 else 0)"

definition coap_split_opt :: "u32 \<Rightarrow> nat \<times> u8 \<times> u16" where
  "coap_split_opt value =
     (if value < 13 then (0, ucast value, 0)
      else if value \<ge> 13 \<and> value \<le> 0xFF + 13 then (1, 13, ucast (value - 13))
      else if value > 0xFF + 13 \<and> value \<le> 0xFFFF + 269 then (2, 14, ucast (value - 269))
      else (0, 0, 0))"

definition coap_add_uint16 :: "u16 \<Rightarrow> bytes" where
  "coap_add_uint16 val = [ucast (drop_bit 8 val), ucast (val AND 0x00FF)]"

definition coap_add_opt_info :: "u16 \<Rightarrow> nat \<Rightarrow> bytes" where
  "coap_add_opt_info val len = (if len = 1 then [ucast val] else if len = 2 then coap_add_uint16 val else [])"

fun coap_options_size :: "u32 \<Rightarrow> mg_coap_option list \<Rightarrow> nat \<Rightarrow> u32 \<times> nat" where
  "coap_options_size prev [] len = (0, len)"
| "coap_options_size prev (opt # rest) len =
     (let len = len + 1 + coap_get_ext_opt_size (co_number opt - prev)
                  + coap_get_ext_opt_size (of_nat (ms_len (co_value opt))) in
      if (rest \<noteq> [] \<and> co_number opt > co_number (hd rest)) \<or> ms_len (co_value opt) > 0xFFFF + 269 \<or>
         co_number opt - prev > 0xFFFF + 269
      then (MG_COAP_ERROR OR MG_COAP_OPTIOMG_FIELD, len)
      else coap_options_size (co_number opt) rest (len + ms_len (co_value opt)))"

definition coap_calculate_packet_size :: "mg_coap_message \<Rightarrow> u32 \<times> nat" where
  "coap_calculate_packet_size cm =
     (if cm_msg_type cm > MG_COAP_MSG_MAX then (MG_COAP_ERROR OR MG_COAP_MSG_TYPE_FIELD, 4)
      else if ms_len (cm_token cm) > 8 then (MG_COAP_ERROR OR MG_COAP_TOKEN_FIELD, 4)
      else if cm_code_class cm > 7 then (MG_COAP_ERROR OR MG_COAP_CODE_CLASS_FIELD, 4)
      else if cm_code_detail cm > 31 then (MG_COAP_ERROR OR MG_COAP_CODE_DETAIL_FIELD, 4)
      else coap_options_size 0 (cm_options cm)
             (4 + ms_len (cm_token cm) + (if ms_len (cm_payload cm) \<noteq> 0 then ms_len (cm_payload cm) + 1 else 0)))"

text \<open>\<open>memcpy\<close> from a string.\<close>

definition copy_str :: "mg_str \<Rightarrow> bytes option" where
  "copy_str s = (if ms_len s = 0 then Some [] else if ms_valid s then Some (ms_bytes s) else None)"

fun coap_put_options :: "u32 \<Rightarrow> mg_coap_option list \<Rightarrow> bytes option" where
  "coap_put_options prev [] = Some []"
| "coap_put_options prev (opt # rest) =
     (let (dn, delta_base, delta_ext) = coap_split_opt (co_number opt - prev);
          (ln, length_base, length_ext) = coap_split_opt (of_nat (ms_len (co_value opt)))
      in do {
        v \<leftarrow> copy_str (co_value opt);
        r \<leftarrow> coap_put_options (co_number opt) rest;
        Some ([push_bit 4 delta_base OR length_base] @ coap_add_opt_info delta_ext dn @
              coap_add_opt_info length_ext ln @ v @ r) })"

text \<open>The bytes the composer writes one after the other.\<close>

definition coap_packet :: "mg_coap_message \<Rightarrow> bytes option" where
  "coap_packet cm = do {
     t \<leftarrow> copy_str (cm_token cm);
     os \<leftarrow> coap_put_options 0 (cm_options cm);
     pl \<leftarrow> copy_str (cm_payload cm);
     Some ([(0x40 OR push_bit 4 (cm_msg_type cm)) OR of_nat (ms_len (cm_token cm)),
            push_bit 5 (cm_code_class cm) OR cm_code_detail cm] @ coap_add_uint16 (cm_msg_id cm) @
           t @ os @ (if ms_len (cm_payload cm) \<noteq> 0 then [0xFF] @ pl else [])) }"

text \<open>The result of the append is not checked, so a failed one ends in a write out of bounds.\<close>

definition mg_coap_compose :: "realloc \<Rightarrow> mg_coap_message \<Rightarrow> mbuf \<Rightarrow> (u32 \<times> mbuf) option" where
  "mg_coap_compose ra cm io =
     (let (res, packet_size) = coap_calculate_packet_size cm in
      if res \<noteq> 0 then Some (res, io)
      else do {
        (_, io') \<leftarrow> mbuf_append ra io None packet_size;
        out \<leftarrow> coap_packet cm;
        if mb_len io + length out > length (mb_mem io') then None
        else Some (0, io'\<lparr>mb_mem := overlay (mb_mem io') (mb_len io) out\<rparr>) })"

definition mg_coap_send_message :: "io \<Rightarrow> mg_coap_message \<Rightarrow> 'u mg_connection \<Rightarrow> (u32 \<times> 'u mg_connection) option" where
  "mg_coap_send_message io cm nc = do {
     (res, packet_out) \<leftarrow> mg_coap_compose (io_ra io) cm (mbuf_init (io_ra io) 0);
     if res \<noteq> 0 then Some (res, nc) else Some (0, mg_send io (mbuf_bytes packet_out) nc) }"

definition mg_coap_send_ack :: "io \<Rightarrow> u16 \<Rightarrow> 'u mg_connection \<Rightarrow> (u32 \<times> 'u mg_connection) option" where
  "mg_coap_send_ack io msg_id nc =
     mg_coap_send_message io (coap_zero\<lparr>cm_msg_type := MG_COAP_MSG_ACK, cm_msg_id := msg_id\<rparr>) nc"

section \<open>The protocol handler\<close>

definition coap_handler ::
  "(mg_coap_message, 'u) handler \<Rightarrow> mg_coap_message mg_event \<Rightarrow> 'u mg_connection \<Rightarrow> 'u mg_connection option"
where
  "coap_handler h ev nc =
     (let nc1 = h ev nc in
      case ev of
        EvRecv _ \<Rightarrow> do {
          cm \<leftarrow> mg_coap_parse (nc_recv nc1);
          let nc2 = (if cm_flags cm AND MG_COAP_IGNORE = 0 then
                       h (EvProto (if cm_flags cm AND MG_COAP_NOT_ENOUGH_DATA \<noteq> 0
                                   then coap_flag MG_COAP_FORMAT_ERROR cm else cm)) nc1
                     else nc1);
          Some (nc2\<lparr>nc_recv := mbuf_remove (nc_recv nc2) (mb_len (nc_recv nc2))\<rparr>) }
      | _ \<Rightarrow> Some nc1)"

definition mg_set_protocol_coap :: "'u mg_connection \<Rightarrow> ('d, 'u) handler \<Rightarrow> ('d, 'u) handlers \<Rightarrow> int \<times> ('d, 'u) handlers" where
  "mg_set_protocol_coap nc coap hs =
     (if \<not> has_flag nc MG_F_UDP then (-1, hs) else (0, hs\<lparr>proto_handler := Some coap\<rparr>))"

section \<open>The option list is kept in order\<close>

lemma coap_position_eq:
  "coap_position n xs = (takeWhile (\<lambda>x. co_number x \<le> n) xs, dropWhile (\<lambda>x. co_number x \<le> n) xs)"
  by (induction xs) (auto simp: not_le)

text \<open>The tail pointer points at the last option.\<close>

definition tail_ok :: "mg_coap_message \<Rightarrow> bool" where
  "tail_ok cm \<longleftrightarrow> (cm_options cm \<noteq> [] \<longrightarrow> cm_tail cm + 1 = length (cm_options cm))"

definition insert_option :: "mg_coap_option \<Rightarrow> mg_coap_option list \<Rightarrow> mg_coap_option list" where
  "insert_option new os = takeWhile (\<lambda>x. co_number x \<le> co_number new) os @ [new] @
     dropWhile (\<lambda>x. co_number x \<le> co_number new) os"

lemma tail_ok_fields [simp]:
  "tail_ok (coap_flag f cm) = tail_ok cm" "tail_ok (cm\<lparr>cm_token := t\<rparr>) = tail_ok cm"
  "tail_ok (cm\<lparr>cm_payload := t\<rparr>) = tail_ok cm" "tail_ok coap_zero"
  by (simp_all add: tail_ok_def coap_flag_def coap_zero_def)

lemma takeWhile_not_nth: "i < length xs \<Longrightarrow> \<not> P (xs ! i) \<Longrightarrow> length (takeWhile P xs) \<le> i"
  by (metis not_le nth_mem set_takeWhileD takeWhile_nth)

lemma sorted_le_last: "sorted (map f xs) \<Longrightarrow> x \<in> set xs \<Longrightarrow> f x \<le> f (last xs)"
  by (induction xs) auto

lemma dropWhile_greater:
  "sorted (map f xs) \<Longrightarrow> y \<in> set (dropWhile (\<lambda>y. f y \<le> b) xs) \<Longrightarrow> b < f y"
  by (induction xs) (auto split: if_splits intro: less_le_trans)

text \<open>On a list that is in order with its tail pointer right, an added option goes behind those
  with the same or a smaller number.\<close>

lemma add_option_inserts:
  assumes "tail_ok cm" and "sorted (map co_number (cm_options cm))"
  shows "\<exists>cm'. mg_coap_add_option cm n v = Some cm' \<and> tail_ok cm' \<and>
    cm_options cm' = insert_option \<lparr>co_number = n, co_value = v\<rparr> (cm_options cm) \<and>
    cm_flags cm' = cm_flags cm \<and> cm' = cm\<lparr>cm_options := cm_options cm', cm_tail := cm_tail cm'\<rparr>"
proof (cases "cm_options cm = []")
  case True
  then show ?thesis by (simp add: mg_coap_add_option_def tail_ok_def insert_option_def)
next
  case False
  let ?os = "cm_options cm" and ?new = "\<lparr>co_number = n, co_value = v\<rparr>"
  have t: "cm_tail cm + 1 = length ?os" "cm_tail cm < length ?os" using assms(1) False by (auto simp: tail_ok_def)
  have last: "?os ! cm_tail cm = last ?os" using t(1) False by (metis add_diff_cancel_right' last_conv_nth)
  show ?thesis
  proof (cases "co_number (last ?os) \<le> n")
    case True
    then have "\<forall>x \<in> set ?os. co_number x \<le> n" using sorted_le_last [OF assms(2)] order_trans by blast
    then have "insert_option ?new ?os = ?os @ [?new]" by (simp add: insert_option_def dropWhile_eq_Nil_conv takeWhile_eq_all_conv)
    then show ?thesis using True t False by (simp add: mg_coap_add_option_def last tail_ok_def Let_def)
  next
    case notle: False
    have "length (takeWhile (\<lambda>x. co_number x \<le> n) ?os) \<le> cm_tail cm"
      using takeWhile_not_nth [OF t(2), of "\<lambda>x. co_number x \<le> n"] notle last by simp
    moreover have "length (takeWhile (\<lambda>x. co_number x \<le> n) ?os) + length (dropWhile (\<lambda>x. co_number x \<le> n) ?os) = length ?os"
      by (metis length_append takeWhile_dropWhile_id)
    ultimately show ?thesis
      using notle t False by (simp add: mg_coap_add_option_def last coap_position_eq tail_ok_def insert_option_def Let_def)
  qed
qed

lemma set_insert_option: "set (insert_option x os) = insert x (set os)"
  unfolding insert_option_def by (metis (no_types, lifting) Un_insert_right append_Cons append_Nil list.simps(15) set_append takeWhile_dropWhile_id)

lemma sorted_insert_option:
  assumes "sorted (map co_number os)"
  shows "sorted (map co_number (insert_option x os))"
proof -
  let ?P = "\<lambda>y. co_number y \<le> co_number x"
  have s: "sorted (map co_number (takeWhile ?P os) @ map co_number (dropWhile ?P os))"
    using assms by (simp flip: map_append)
  have "co_number x \<le> co_number y" if "y \<in> set (dropWhile ?P os)" for y
    using dropWhile_greater [OF assms that] by simp
  with s [unfolded sorted_append] show ?thesis by (auto simp: insert_option_def sorted_append dest: set_takeWhileD)
qed

text \<open>The spec of a whole build: a stable sort by number.\<close>

fun add_options :: "mg_coap_message \<Rightarrow> (u32 \<times> mg_str) list \<Rightarrow> mg_coap_message option" where
  "add_options cm [] = Some cm"
| "add_options cm ((n, v) # os) = Option.bind (mg_coap_add_option cm n v) (\<lambda>cm. add_options cm os)"

definition as_option :: "u32 \<times> mg_str \<Rightarrow> mg_coap_option" where
  "as_option p = \<lparr>co_number = fst p, co_value = snd p\<rparr>"

lemma add_options_fold:
  assumes "tail_ok cm" and "sorted (map co_number (cm_options cm))"
  shows "\<exists>cm'. add_options cm os = Some cm' \<and> tail_ok cm' \<and> sorted (map co_number (cm_options cm')) \<and>
    cm_options cm' = fold (\<lambda>p. insert_option (as_option p)) os (cm_options cm)"
  using assms
proof (induction os arbitrary: cm)
  case (Cons p os)
  obtain n v where p: "p = (n, v)" by fastforce
  from add_option_inserts [OF Cons.prems, of n v] obtain cm1 where
    1: "mg_coap_add_option cm n v = Some cm1" "tail_ok cm1"
      "cm_options cm1 = insert_option (as_option p) (cm_options cm)"
    by (auto simp: as_option_def p)
  then have "sorted (map co_number (cm_options cm1))" using sorted_insert_option [OF Cons.prems(2)] by simp
  from Cons.IH [OF 1(2) this] show ?case using 1 by (simp add: p)
qed simp

lemma filter_insert_option:
  assumes "sorted (map co_number os)"
  shows "filter (\<lambda>y. k = co_number y) (insert_option x os) =
    (if k = co_number x then filter (\<lambda>y. k = co_number y) os @ [x] else filter (\<lambda>y. k = co_number y) os)"
proof -
  let ?P = "\<lambda>y. co_number y \<le> co_number x"
  have os: "filter (\<lambda>y. k = co_number y) os =
      filter (\<lambda>y. k = co_number y) (takeWhile ?P os) @ filter (\<lambda>y. k = co_number y) (dropWhile ?P os)"
    by (metis filter_append takeWhile_dropWhile_id)
  have "filter (\<lambda>y. co_number x = co_number y) (dropWhile ?P os) = []"
    using dropWhile_greater [OF assms] by (force simp: filter_empty_conv)
  then show ?thesis using os by (auto simp: insert_option_def)
qed

lemma mset_insert_option: "mset (insert_option x os) = add_mset x (mset os)"
proof -
  have "mset (takeWhile P os) + mset (dropWhile P os) = mset os" for P
    by (metis mset_append takeWhile_dropWhile_id)
  then show ?thesis by (simp add: insert_option_def)
qed

lemma fold_insert_option:
  assumes "sorted (map co_number acc)"
  shows "mset (fold (\<lambda>p. insert_option (as_option p)) os acc) = mset acc + mset (map as_option os) \<and>
    filter (\<lambda>y. k = co_number y) (fold (\<lambda>p. insert_option (as_option p)) os acc) =
      filter (\<lambda>y. k = co_number y) acc @ filter (\<lambda>y. k = co_number y) (map as_option os)"
  using assms
  by (induction os arbitrary: acc) (auto simp: mset_insert_option filter_insert_option sorted_insert_option)

lemma add_options_sorts:
  "\<exists>cm'. add_options coap_zero os = Some cm' \<and> tail_ok cm' \<and> cm_options cm' = sort_key co_number (map as_option os)"
proof -
  have z: "sorted (map co_number (cm_options coap_zero))" "cm_options coap_zero = []" by (simp_all add: coap_zero_def)
  from add_options_fold [OF _ z(1), of os] obtain cm' where
    1: "add_options coap_zero os = Some cm'" "tail_ok cm'" "sorted (map co_number (cm_options cm'))"
      "cm_options cm' = fold (\<lambda>p. insert_option (as_option p)) os []" by (auto simp: z(2))
  have "sort_key co_number (map as_option os) = cm_options cm'"
    using fold_insert_option [of "[]"] 1(3)
    by (intro properties_for_sort_key) (simp_all add: 1(4))
  with 1 show ?thesis by simp
qed

section \<open>The parser ends and stays inside the buffer\<close>

lemma add_option_total:
  assumes "tail_ok cm"
  shows "\<exists>cm'. mg_coap_add_option cm n v = Some cm' \<and> tail_ok cm' \<and> cm_flags cm' = cm_flags cm \<and>
    cm_token cm' = cm_token cm \<and> cm_payload cm' = cm_payload cm \<and>
    set (cm_options cm') \<subseteq> insert \<lparr>co_number = n, co_value = v\<rparr> (set (cm_options cm))"
proof (cases "cm_options cm = [] \<or> co_number (cm_options cm ! cm_tail cm) \<le> n")
  case True
  then show ?thesis using assms by (auto simp: mg_coap_add_option_def tail_ok_def Let_def dest: in_set_takeD)
next
  case False
  let ?os = "cm_options cm"
  have t: "cm_tail cm + 1 = length ?os" "cm_tail cm < length ?os" using assms False by (auto simp: tail_ok_def)
  have "length (takeWhile (\<lambda>x. co_number x \<le> n) ?os) \<le> cm_tail cm"
    using takeWhile_not_nth [OF t(2), of "\<lambda>x. co_number x \<le> n"] False by simp
  moreover have "length (takeWhile (\<lambda>x. co_number x \<le> n) ?os) + length (dropWhile (\<lambda>x. co_number x \<le> n) ?os) = length ?os"
    by (metis length_append takeWhile_dropWhile_id)
  ultimately show ?thesis
    using t False
    by (auto simp: mg_coap_add_option_def coap_position_eq tail_ok_def Let_def dest: set_takeWhileD set_dropWhileD)
qed

lemma rd_mbuf: "mbuf_inv io \<Longrightarrow> p < mb_len io \<Longrightarrow> \<exists>b. rd (mb_mem io) p = Some b"
  by (auto simp: rd_def dest: mbuf_inv_len)

lemma ext_opt_total:
  assumes "mbuf_inv io"
  shows "\<exists>n v. coap_get_ext_opt p io w = Some (n, v) \<and> (n = -1 \<or> (0 \<le> n \<and> n \<le> 2))"
  using rd_mbuf [OF assms, of p] rd_mbuf [OF assms, of "p + 1"]
  by (auto simp: coap_get_ext_opt_def)

definition str_inside :: "mbuf \<Rightarrow> mg_str \<Rightarrow> bool" where
  "str_inside io s \<longleftrightarrow> ms_len s = 0 \<or> ms_mem s = mb_mem io \<and> ms_p s + ms_len s \<le> mb_len io"

definition options_inside :: "mbuf \<Rightarrow> mg_coap_message \<Rightarrow> bool" where
  "options_inside io cm \<longleftrightarrow> (\<forall>o' \<in> set (cm_options cm). str_inside io (co_value o'))"

lemma error_flags: "cm_flags (coap_flag MG_COAP_FORMAT_ERROR cm) AND MG_COAP_ERROR \<noteq> 0"
  "cm_flags (coap_flag MG_COAP_NOT_ENOUGH_DATA cm) AND MG_COAP_ERROR \<noteq> 0"
  "cm_flags (coap_flag MG_COAP_IGNORE cm) AND MG_COAP_ERROR \<noteq> 0"
proof -
  have "(w OR e) AND 0x10000 \<noteq> 0" if "bit e 16" for w e :: u32
  proof -
    have "bit ((w OR e) AND 0x10000) 16" using that by (simp add: bit_simps)
    then show ?thesis by auto
  qed
  then show "cm_flags (coap_flag MG_COAP_FORMAT_ERROR cm) AND MG_COAP_ERROR \<noteq> 0"
    "cm_flags (coap_flag MG_COAP_NOT_ENOUGH_DATA cm) AND MG_COAP_ERROR \<noteq> 0"
    "cm_flags (coap_flag MG_COAP_IGNORE cm) AND MG_COAP_ERROR \<noteq> 0"
    by (simp_all add: coap_flag_def coap_errors)
qed

lemma coap_flag_strs: "cm_token (coap_flag f cm) = cm_token cm" "cm_payload (coap_flag f cm) = cm_payload cm"
  "cm_options (coap_flag f cm) = cm_options cm"
  by (simp_all add: coap_flag_def)

lemma coap_option_step_moves:
  assumes io: "mbuf_inv io" and p: "p < mb_len io" and t: "tail_ok cm"
  shows "\<exists>go p' prev' cm'. coap_option_step io p prev cm = Some (go, p', prev', cm') \<and> tail_ok cm' \<and>
    cm_token cm' = cm_token cm \<and> cm_payload cm' = cm_payload cm \<and>
    (go \<longrightarrow> p < p' \<and> p' \<le> mb_len io \<and> (options_inside io cm \<longrightarrow> options_inside io cm')) \<and>
    (\<not> go \<longrightarrow> cm_flags cm' AND MG_COAP_ERROR \<noteq> 0)"
proof -
  obtain b where b: "rd (mb_mem io) p = Some b" using rd_mbuf [OF io p] by blast
  let ?d = "ucast (drop_bit 4 (b AND 0xF0)) :: u16" and ?l = "ucast (b AND 0x0F) :: u16"
  obtain n1 d where 1: "coap_get_ext_opt (p + 1) io ?d = Some (n1, d)" using ext_opt_total [OF io] by blast
  obtain n2 l where 2: "coap_get_ext_opt (p + 1 + nat n1) io ?l = Some (n2, l)" using ext_opt_total [OF io] by blast
  obtain cm1 where 3: "mg_coap_add_option cm (ucast (d + prev))
      \<lparr>ms_mem = mb_mem io, ms_p = p + 1 + nat n1 + nat n2, ms_len = unat l\<rparr> = Some cm1" "tail_ok cm1"
    "cm_token cm1 = cm_token cm" "cm_payload cm1 = cm_payload cm"
    "set (cm_options cm1) \<subseteq> insert \<lparr>co_number = ucast (d + prev), co_value =
       \<lparr>ms_mem = mb_mem io, ms_p = p + 1 + nat n1 + nat n2, ms_len = unat l\<rparr>\<rparr> (set (cm_options cm))"
    using add_option_total [OF t] by blast
  have in1: "options_inside io cm1" if "options_inside io cm" "p + 1 + nat n1 + nat n2 + unat l \<le> mb_len io"
    unfolding options_inside_def
  proof
    fix o' assume "o' \<in> set (cm_options cm1)"
    then have "o' \<in> set (cm_options cm) \<or> co_value o' = \<lparr>ms_mem = mb_mem io, ms_p = p + 1 + nat n1 + nat n2, ms_len = unat l\<rparr>"
      using 3(5) by auto
    then show "str_inside io (co_value o')" using that by (auto simp: options_inside_def str_inside_def)
  qed
  show ?thesis
    unfolding coap_option_step_def b Option.bind.bind_lunit Let_def
    using 1 2 3(1-4) t in1 error_flags by (auto simp: Let_def coap_flag_strs simp del: add_Suc_right One_nat_def)
qed

lemma coap_options_loop_total:
  assumes io: "mbuf_inv io"
  shows "tail_ok cm \<Longrightarrow> options_inside io cm \<Longrightarrow> p \<le> mb_len io \<Longrightarrow> mb_len io - p \<le> fuel \<Longrightarrow>
    \<exists>p' cm'. coap_options_loop fuel io p prev cm = Some (p', cm') \<and>
      cm_token cm' = cm_token cm \<and> cm_payload cm' = cm_payload cm \<and>
      (cm_flags cm' AND MG_COAP_ERROR = 0 \<longrightarrow> options_inside io cm' \<and> p' \<le> mb_len io)"
proof (induction fuel arbitrary: p prev cm)
  case 0
  then show ?case by (subst coap_options_loop.simps) simp
next
  case (Suc fuel)
  show ?case
  proof (cases "p < mb_len io \<and> rd (mb_mem io) p \<noteq> Some 0xFF")
    case True
    from coap_option_step_moves [OF io _ Suc.prems(1), of p prev] True obtain go p' prev' cm' where
      s: "coap_option_step io p prev cm = Some (go, p', prev', cm')" "tail_ok cm'"
        "cm_token cm' = cm_token cm" "cm_payload cm' = cm_payload cm"
        "go \<longrightarrow> p < p' \<and> p' \<le> mb_len io \<and> (options_inside io cm \<longrightarrow> options_inside io cm')"
        "\<not> go \<longrightarrow> cm_flags cm' AND MG_COAP_ERROR \<noteq> 0"
      by blast
    have "mb_len io - p' \<le> fuel" if go using that s(5) Suc.prems(4) by linarith
    with Suc.IH [OF s(2), of p' prev'] s Suc.prems(2) show ?thesis
      using True by (subst coap_options_loop.simps) (cases go; auto)
  next
    case False
    then show ?thesis using Suc.prems by (subst coap_options_loop.simps) auto
  qed
qed

lemma coap_parse_header_total:
  assumes "mbuf_inv io"
  shows "\<exists>p cm'. coap_parse_header io cm = Some (p, cm') \<and> cm_options cm' = cm_options cm \<and>
    cm_payload cm' = cm_payload cm \<and>
    (case p of None \<Rightarrow> cm_flags cm' AND MG_COAP_ERROR \<noteq> 0 | Some p \<Rightarrow> p = 4 \<and> 4 \<le> mb_len io)"
proof (cases "mb_len io < 4")
  case False
  then obtain b0 b1 b2 b3 where "rd (mb_mem io) 0 = Some b0" "rd (mb_mem io) (Suc 0) = Some b1"
    "rd (mb_mem io) 2 = Some b2" "rd (mb_mem io) 3 = Some b3"
    using rd_mbuf [OF assms, of 0] rd_mbuf [OF assms, of 1] rd_mbuf [OF assms, of 2] rd_mbuf [OF assms, of 3] by auto
  then show ?thesis using False error_flags
    by (simp add: coap_parse_header_def Let_def) (simp add: coap_flag_def)
qed (use error_flags in \<open>simp add: coap_parse_header_def coap_flag_def\<close>)

text \<open>Every string of the message lies inside the datagram.\<close>

definition message_inside :: "mbuf \<Rightarrow> mg_coap_message \<Rightarrow> bool" where
  "message_inside io cm \<longleftrightarrow> str_inside io (cm_token cm) \<and> str_inside io (cm_payload cm) \<and> options_inside io cm"

lemma get_token_inside:
  assumes "coap_get_token p io cm = (r, cm')" and "p \<le> mb_len io"
  shows "case r of None \<Rightarrow> cm_flags cm' AND MG_COAP_ERROR \<noteq> 0
    | Some p' \<Rightarrow> p' \<le> mb_len io \<and> str_inside io (cm_token cm')"
    and "cm_options cm' = cm_options cm" and "cm_payload cm' = cm_payload cm"
  using assms error_flags
  by (auto simp: coap_get_token_def Let_def str_inside_def coap_flag_def split: if_splits)

lemma get_options_inside:
  assumes io: "mbuf_inv io" and "p \<le> mb_len io" and "cm_options cm = []"
    and "str_inside io (cm_token cm)"
  shows "\<exists>r cm'. coap_get_options p io cm = Some (r, cm')"
    and "coap_get_options p io cm = Some (r, cm') \<Longrightarrow> cm_flags cm' AND MG_COAP_ERROR = 0 \<Longrightarrow>
      options_inside io cm' \<and> cm_token cm' = cm_token cm \<and> cm_payload cm' = cm_payload cm \<and> (\<forall>q. r = Some q \<longrightarrow> q \<le> mb_len io)"
proof -
  have "tail_ok cm" "options_inside io cm" using assms(3) by (simp_all add: tail_ok_def options_inside_def)
  from coap_options_loop_total [OF io this assms(2), of "mb_len io" 0] obtain p' cm1 where
    L: "coap_options_loop (mb_len io) io p 0 cm = Some (p', cm1)"
      "cm_token cm1 = cm_token cm" "cm_payload cm1 = cm_payload cm"
      "cm_flags cm1 AND MG_COAP_ERROR = 0 \<longrightarrow> options_inside io cm1 \<and> p' \<le> mb_len io" by auto
  show "\<exists>r cm'. coap_get_options p io cm = Some (r, cm')"
    by (auto simp: coap_get_options_def Let_def L(1))
  show "options_inside io cm' \<and> cm_token cm' = cm_token cm \<and> cm_payload cm' = cm_payload cm \<and> (\<forall>q. r = Some q \<longrightarrow> q \<le> mb_len io)"
    if "coap_get_options p io cm = Some (r, cm')" "cm_flags cm' AND MG_COAP_ERROR = 0"
    using that L assms(3)
    by (auto simp: coap_get_options_def Let_def options_inside_def mg_coap_free_options_def coap_flag_def split: if_splits)
qed

lemma coap_parse_total:
  assumes io: "mbuf_inv io"
  shows "\<exists>cm. mg_coap_parse io = Some cm \<and> (cm_flags cm AND MG_COAP_ERROR = 0 \<longrightarrow> message_inside io cm)"
proof -
  obtain p cm where 1: "coap_parse_header io coap_zero = Some (p, cm)" "cm_options cm = []" "cm_payload cm = no_str"
    "case p of None \<Rightarrow> cm_flags cm AND MG_COAP_ERROR \<noteq> 0 | Some p \<Rightarrow> p = 4 \<and> 4 \<le> mb_len io"
    using coap_parse_header_total [OF io, of coap_zero] by (auto simp: coap_zero_def)
  show ?thesis
  proof (cases p)
    case None
    then show ?thesis using 1(4) by (simp add: mg_coap_parse_def 1(1))
  next
    case (Some q)
    then have q: "q = 4" "4 \<le> mb_len io" using 1(4) by simp_all
    obtain r cm1 where 2: "coap_get_token 4 io cm = (r, cm1)" by fastforce
    note gt = get_token_inside [OF 2 q(2)]
    show ?thesis
    proof (cases r)
      case None
      then show ?thesis using gt(1) by (simp add: mg_coap_parse_def 1 Some q 2)
    next
      case r: (Some p2)
      have in2: "p2 \<le> mb_len io" "cm_options cm1 = []" "str_inside io (cm_token cm1)" "cm_payload cm1 = no_str"
        using gt r 1(2,3) by simp_all
      note go = get_options_inside [OF io in2(1-3)]
      obtain p' cm' where 3: "coap_get_options p2 io cm1 = Some (p', cm')" using go(1) by blast
      show ?thesis
      proof (cases p')
        case None
        then have "mg_coap_parse io = Some cm'" by (simp add: mg_coap_parse_def 1 Some q 2 r 3)
        then show ?thesis using go(2) [OF 3] in2 by (auto simp: message_inside_def str_inside_def no_str_def)
      next
        case p': (Some p3)
        have e: "mg_coap_parse io = Some (coap_get_payload p3 io cm')" by (simp add: mg_coap_parse_def 1 Some q 2 r 3 p')
        have "cm_flags cm' AND MG_COAP_ERROR = 0" if "cm_flags (coap_get_payload p3 io cm') AND MG_COAP_ERROR = 0"
          using that by (auto simp: coap_get_payload_def Let_def coap_flag_def bit_eq_iff bit_and_iff bit_or_iff split: if_splits)
        moreover have "message_inside io (coap_get_payload p3 io cm')" if "cm_flags cm' AND MG_COAP_ERROR = 0"
        proof -
          have g: "options_inside io cm'" "cm_token cm' = cm_token cm1" "p3 \<le> mb_len io" using go(2) [OF 3 that] p' by simp_all
          have "nat ((int (mb_len io) - int p3) mod 2 ^ 64) \<le> mb_len io - p3"
            using g(3) zmod_le_nonneg_dividend [of "int (mb_len io) - int p3" "2 ^ 64"] by simp
          then show ?thesis using g in2(3)
            by (auto simp: message_inside_def coap_get_payload_def Let_def coap_flag_def str_inside_def options_inside_def)
        qed
        ultimately show ?thesis using e by blast
      qed
    qed
  qed
qed

section \<open>Composing and parsing\<close>

lemma u32_as_nat:
  assumes "(v :: u32) < 65536"
  obtains k where "v = of_nat k" and "k < 65536" and "unat v = k"
  using assms that [of "unat v"] by (simp add: word_less_nat_alt)

lemma of_nat_simps:
  "k < 65536 \<Longrightarrow> ucast (of_nat k :: u32) = (of_nat k :: u16)"
  "k < 65536 \<Longrightarrow> ucast (of_nat k :: u16) = (of_nat k :: u32)"
  "k < 256 \<Longrightarrow> ucast (of_nat k :: u8) = (of_nat k :: u16)"
  "k < 256 \<Longrightarrow> ucast (of_nat k :: u16) = (of_nat k :: u8)"
  "k < 256 \<Longrightarrow> ucast (of_nat k :: u32) = (of_nat k :: u8)"
  by (simp_all add: unsigned_of_nat take_bit_nat_eq_self)

lemma of_nat_less32: "k < 2 ^ 32 \<Longrightarrow> m < 2 ^ 32 \<Longrightarrow> (of_nat k :: u32) < of_nat m \<longleftrightarrow> k < m"
  by (simp add: word_less_nat_alt unat_of_nat take_bit_nat_eq_self)

lemma split_opt_nat:
  assumes "k < 65536"
  shows "coap_split_opt (of_nat k) =
    (if k < 13 then (0, of_nat k, 0) else if k \<le> 268 then (1, 13, of_nat (k - 13)) else (2, 14, of_nat (k - 269)))"
proof -
  have l: "(of_nat k :: u32) < 13 \<longleftrightarrow> k < 13" "(of_nat k :: u32) \<ge> 13 \<longleftrightarrow> k \<ge> 13"
    "(of_nat k :: u32) \<le> 268 \<longleftrightarrow> k \<le> 268" "(of_nat k :: u32) > 268 \<longleftrightarrow> k > 268" "(of_nat k :: u32) \<le> 65804"
    using assms by (simp_all add: word_less_nat_alt word_le_nat_alt unat_of_nat take_bit_nat_eq_self)
  have s: "(of_nat k :: u32) - 13 = of_nat (k - 13)" if "13 \<le> k" using that by (simp add: of_nat_diff)
  have s2: "(of_nat k :: u32) - 269 = of_nat (k - 269)" if "269 \<le> k" using that by (simp add: of_nat_diff)
  consider "k < 13" | "13 \<le> k" "k \<le> 268" | "269 \<le> k" by linarith
  then show ?thesis
  proof cases
    case 1
    then show ?thesis by (simp add: coap_split_opt_def l of_nat_simps)
  next
    case 2
    then show ?thesis using assms by (simp add: coap_split_opt_def l s [OF 2(1)] of_nat_simps del: of_nat_diff)
  next
    case 3
    then show ?thesis using assms by (simp add: coap_split_opt_def l s2 [OF 3] of_nat_simps del: of_nat_diff)
  qed
qed

lemma add_uint16_be16: "coap_add_uint16 v = be16 v"
proof -
  have "(ucast (v AND 255) :: u8) = ucast v" by (rule u8_eqI) (simp_all add: bit_simps)
  then show ?thesis by (simp add: coap_add_uint16_def be16_def)
qed

text \<open>The extended part of a delta or a length of \<open>k\<close>, and that the parser reads it back.\<close>

definition opt_ext :: "nat \<Rightarrow> bytes" where
  "opt_ext k = (case coap_split_opt (of_nat k) of (n, base, ext) \<Rightarrow> coap_add_opt_info ext n)"

definition opt_base :: "nat \<Rightarrow> u8" where
  "opt_base k = fst (snd (coap_split_opt (of_nat k)))"

lemma opt_base_small: "k < 65536 \<Longrightarrow> opt_base k \<le> 14"
  by (auto simp: opt_base_def split_opt_nat word_le_nat_alt unat_of_nat)

lemma opt_ext_cases:
  assumes "k < 65536"
  shows "opt_base k = (if k < 13 then of_nat k else if k \<le> 268 then 13 else 14)"
    and "opt_ext k = (if k < 13 then [] else if k \<le> 268 then [of_nat (k - 13)] else be16 (of_nat (k - 269)))"
  using assms
  by (auto simp: opt_base_def opt_ext_def split_opt_nat coap_add_opt_info_def add_uint16_be16 of_nat_simps
      simp del: of_nat_diff)

lemma length_opt_ext: "k < 65536 \<Longrightarrow> length (opt_ext k) = fst (coap_split_opt (of_nat k))"
  by (simp add: opt_ext_cases split_opt_nat)

lemma ext_opt_size: "k < 65536 \<Longrightarrow> coap_get_ext_opt_size (of_nat k) = length (opt_ext k)"
  by (auto simp: opt_ext_cases coap_get_ext_opt_size_def word_less_nat_alt word_le_nat_alt unat_of_nat take_bit_nat_eq_self)

lemma ext_opt_decodes:
  assumes k: "k < 65536" and d: "drop q (mb_mem io) = opt_ext k @ r" and fit: "q + length (opt_ext k) \<le> mb_len io"
  shows "coap_get_ext_opt q io (ucast (opt_base k)) = Some (int (length (opt_ext k)), of_nat k)"
proof -
  consider "k < 13" | "13 \<le> k" "k \<le> 268" | "269 \<le> k" by linarith
  then show ?thesis
  proof cases
    case 1
    then have "unat (of_nat k :: u16) = k" by (simp add: unat_of_nat take_bit_nat_eq_self)
    with 1 have "(of_nat k :: u16) \<noteq> 13" "(of_nat k :: u16) \<noteq> 14" by (auto dest: arg_cong [where f = unat])
    then show ?thesis using 1 k by (simp add: coap_get_ext_opt_def opt_ext_cases of_nat_simps)
  next
    case 2
    have "drop q (mb_mem io) = of_nat (k - 13) # r" using d 2 k by (simp add: opt_ext_cases del: of_nat_diff)
    then have rd: "rd (mb_mem io) q = Some (of_nat (k - 13))" by (rule rd_ahead)
    have "(of_nat (k - 13) :: u16) + 13 = of_nat k" using 2 by simp
    then show ?thesis using 2 k fit rd
      by (simp add: coap_get_ext_opt_def opt_ext_cases of_nat_simps del: of_nat_diff)
  next
    case 3
    have "drop q (mb_mem io) = be16 (of_nat (k - 269)) @ r" using d 3 k by (simp add: opt_ext_cases del: of_nat_diff)
    note b = be16_ahead [OF this]
    have "(of_nat (k - 269) :: u16) + 269 = of_nat k" using 3 by simp
    then show ?thesis using 3 k fit b
      by (simp add: coap_get_ext_opt_def opt_ext_cases bytes_simps del: of_nat_diff)
  qed
qed

lemma nibble: "(a :: u8) \<le> 14 \<Longrightarrow> a = take_bit 4 a"
proof -
  assume "a \<le> 14"
  then have "unat a < 2 ^ 4" by (simp add: word_le_nat_alt)
  then have "take_bit 4 (unat a) = unat a" by (rule take_bit_nat_eq_self)
  then show ?thesis by (metis unsigned_take_bit_eq word_unat_eq_iff)
qed

lemma option_nibbles:
  assumes "(a :: u8) \<le> 14" "(b :: u8) \<le> 14"
  shows "drop_bit 4 ((push_bit 4 a OR b) AND 0xF0) = a" and "(push_bit 4 a OR b) AND 0x0F = b"
    and "push_bit 4 a OR b \<noteq> 0xFF"
proof -
  have t: "a = take_bit 4 a" "b = take_bit 4 b" using assms nibble by blast+
  have n: "\<not> bit a 4" "\<not> bit a 5" "\<not> bit a 6" "\<not> bit a 7" "\<not> bit b 4" "\<not> bit b 5" "\<not> bit b 6" "\<not> bit b 7"
    by (subst t, simp add: bit_take_bit_iff)+
  show 1: "drop_bit 4 ((push_bit 4 a OR b) AND 0xF0) = a" and "(push_bit 4 a OR b) AND 0x0F = b"
    by (rule u8_eqI; simp add: bit_simps n u8_high_bit)+
  show "push_bit 4 a OR b \<noteq> 0xFF"
  proof
    assume e: "push_bit 4 a OR b = 0xFF"
    have "a = 15" using 1 unfolding e by simp
    then show False using assms(1) by (simp add: word_le_nat_alt)
  qed
qed

text \<open>The options a datagram can carry: in order, with numbers and lengths below \<open>2 ^ 16\<close>.\<close>

definition opt_view :: "mg_coap_option \<Rightarrow> u32 \<times> bytes" where
  "opt_view o' = (co_number o', ms_bytes (co_value o'))"

definition opt_ok :: "mg_coap_option \<Rightarrow> bool" where
  "opt_ok o' \<longleftrightarrow> co_number o' < 65536 \<and> ms_len (co_value o') < 65536 \<and> ms_valid (co_value o')"

definition opt_bytes :: "nat \<Rightarrow> mg_coap_option \<Rightarrow> bytes" where
  "opt_bytes prev o' =
     (let d = unat (co_number o') - prev; l = ms_len (co_value o')
      in [push_bit 4 (opt_base d) OR opt_base l] @ opt_ext d @ opt_ext l @ ms_bytes (co_value o'))"

fun opts_bytes :: "nat \<Rightarrow> mg_coap_option list \<Rightarrow> bytes" where
  "opts_bytes prev [] = []"
| "opts_bytes prev (o' # os) = opt_bytes prev o' @ opts_bytes (unat (co_number o')) os"

lemma copy_str_valid: "ms_valid s \<Longrightarrow> copy_str s = Some (ms_bytes s) \<and> length (ms_bytes s) = ms_len s"
  by (auto simp: copy_str_def ms_valid_def ms_bytes_def bslice_def)

lemma put_options_bytes:
  assumes "\<forall>o' \<in> set os. opt_ok o'" and "sorted (prev # map co_number os)" and "prev < 65536"
  shows "coap_put_options prev os = Some (opts_bytes (unat prev) os)"
    and "coap_options_size prev os len = (0, len + length (opts_bytes (unat prev) os))"
proof -
  have "coap_put_options prev os = Some (opts_bytes (unat prev) os) \<and>
    coap_options_size prev os len = (0, len + length (opts_bytes (unat prev) os))"
    using assms
  proof (induction os arbitrary: prev len)
    case (Cons o' os)
    let ?n = "co_number o'" and ?l = "ms_len (co_value o')"
    have ok: "?n < 65536" "?l < 65536" "ms_valid (co_value o')" using Cons.prems(1) by (simp_all add: opt_ok_def)
    have le: "prev \<le> ?n" using Cons.prems(2) by simp
    let ?d = "unat ?n - unat prev"
    have d16: "?d < 65536" using ok(1) by (simp add: word_less_nat_alt)
    then have d: "?n - prev = of_nat ?d"
      using unat_sub [OF le] by (simp only: word_unat_eq_iff) (simp add: unat_of_nat take_bit_nat_eq_self)
    note c = copy_str_valid [OF ok(3)]
    have nl: "\<not> (os \<noteq> [] \<and> ?n > co_number (hd os))" using Cons.prems(2) by (cases os) auto
    have nd: "\<not> of_nat ?d > (0xFFFF + 269 :: u32)"
      using d16 by (simp add: word_less_nat_alt unat_of_nat take_bit_nat_eq_self)
    have IH: "coap_put_options ?n os = Some (opts_bytes (unat ?n) os)"
      "coap_options_size ?n os len' = (0, len' + length (opts_bytes (unat ?n) os))" for len'
      using Cons.IH [of ?n] Cons.prems ok(1) by simp_all
    obtain dn db de where sd: "coap_split_opt (of_nat ?d) = (dn, db, de)" by (metis prod_cases3)
    obtain ln lb le' where sl: "coap_split_opt (of_nat ?l) = (ln, lb, le')" by (metis prod_cases3)
    have "opt_bytes (unat prev) o' = [push_bit 4 db OR lb] @ coap_add_opt_info de dn @ coap_add_opt_info le' ln @
        ms_bytes (co_value o')"
      by (simp add: opt_bytes_def Let_def opt_base_def opt_ext_def sd sl)
    then have 1: "coap_put_options prev (o' # os) = Some (opts_bytes (unat prev) (o' # os))"
      using c IH(1) by (simp add: d sd sl)
    have "length (opt_bytes (unat prev) o') = 1 + length (opt_ext ?d) + length (opt_ext ?l) + ?l"
      using c by (simp add: opt_bytes_def Let_def)
    then have 2: "coap_options_size prev (o' # os) len = (0, len + length (opts_bytes (unat prev) (o' # os)))"
      using nl nd ok(2) IH(2) by (auto simp: d Let_def ext_opt_size [OF d16] ext_opt_size [OF ok(2)])
    show ?case using 1 2 by blast
  qed simp
  then show "coap_put_options prev os = Some (opts_bytes (unat prev) os)"
    and "coap_options_size prev os len = (0, len + length (opts_bytes (unat prev) os))" by simp_all
qed

lemma ucast_not_15: "(b :: u8) \<le> 14 \<Longrightarrow> (ucast b :: u16) \<noteq> 15"
proof
  assume b: "b \<le> 14" "(ucast b :: u16) = 15"
  have "(ucast (ucast b :: u16) :: u8) = b" by (rule u8_eqI) (simp_all add: bit_simps)
  then have "b = 15" using b(2) by simp
  then show False using b(1) by (simp add: word_le_nat_alt)
qed

text \<open>One turn of the parser's loop reads one option back.\<close>

lemma option_step_reads:
  assumes io: "mbuf_inv io" and d: "drop p (mb_mem io) = opt_bytes prev o' @ r"
    and fit: "p + length (opt_bytes prev o') \<le> mb_len io"
    and ok: "opt_ok o'" and le: "prev \<le> unat (co_number o')"
    and cm: "tail_ok cm" "\<forall>x \<in> set (cm_options cm). co_number x \<le> co_number o'"
  obtains v where "coap_option_step io p (of_nat prev) cm =
      Some (True, p + length (opt_bytes prev o'), of_nat (unat (co_number o')),
        cm\<lparr>cm_options := cm_options cm @ [\<lparr>co_number = co_number o', co_value = v\<rparr>],
           cm_tail := length (cm_options cm)\<rparr>)"
    and "ms_bytes v = ms_bytes (co_value o')"
proof -
  let ?d = "unat (co_number o') - prev" and ?l = "ms_len (co_value o')"
  have ok': "co_number o' < 65536" "?l < 65536" "ms_valid (co_value o')" using ok by (simp_all add: opt_ok_def)
  have d16: "?d < 65536" using ok'(1) by (simp add: word_less_nat_alt)
  let ?b = "push_bit 4 (opt_base ?d) OR opt_base ?l"
  note nb = option_nibbles [OF opt_base_small [OF d16] opt_base_small [OF ok'(2)]]
  have vl: "length (ms_bytes (co_value o')) = ?l" using copy_str_valid [OF ok'(3)] by simp
  have d0: "drop p (mb_mem io) = ?b # opt_ext ?d @ opt_ext ?l @ ms_bytes (co_value o') @ r"
    using d by (simp add: opt_bytes_def Let_def)
  have len: "length (opt_bytes prev o') = 1 + length (opt_ext ?d) + length (opt_ext ?l) + ?l"
    using vl by (simp add: opt_bytes_def Let_def)
  have rb: "rd (mb_mem io) p = Some ?b" using d0 by (rule rd_ahead)
  have d1: "drop (p + 1) (mb_mem io) = opt_ext ?d @ opt_ext ?l @ ms_bytes (co_value o') @ r"
    using drop_past [of p "mb_mem io" "[?b]" _ 1] d0 by simp
  have d2: "drop (p + 1 + length (opt_ext ?d)) (mb_mem io) = opt_ext ?l @ ms_bytes (co_value o') @ r"
    using drop_past [OF d1 refl] .
  have d3: "drop (p + 1 + length (opt_ext ?d) + length (opt_ext ?l)) (mb_mem io) = ms_bytes (co_value o') @ r"
    using drop_past [OF d2 refl] .
  have e1: "coap_get_ext_opt (p + 1) io (ucast (opt_base ?d)) = Some (int (length (opt_ext ?d)), of_nat ?d)"
    using ext_opt_decodes [OF d16 d1] fit len by simp
  have e2: "coap_get_ext_opt (p + 1 + length (opt_ext ?d)) io (ucast (opt_base ?l)) = Some (int (length (opt_ext ?l)), of_nat ?l)"
    using ext_opt_decodes [OF ok'(2) d2] fit len by simp
  let ?p2 = "p + 1 + length (opt_ext ?d) + length (opt_ext ?l)"
  let ?v = "\<lparr>ms_mem = mb_mem io, ms_p = ?p2, ms_len = ?l\<rparr>"
  have num: "(of_nat ?d :: u16) + of_nat prev = of_nat (unat (co_number o'))"
    using le by (simp flip: of_nat_add)
  have n32: "(ucast (of_nat (unat (co_number o')) :: u16) :: u32) = co_number o'"
    using u32_as_nat [OF ok'(1)] by (metis of_nat_simps(1,2))
  have ul: "unat (of_nat ?l :: u16) = ?l" using ok'(2) by (simp add: unat_of_nat take_bit_nat_eq_self)
  have n15: "(ucast (opt_base ?d) :: u16) \<noteq> 15" "(ucast (opt_base ?l) :: u16) \<noteq> 15"
    using ucast_not_15 [OF opt_base_small [OF d16]] ucast_not_15 [OF opt_base_small [OF ok'(2)]] .
  have add: "mg_coap_add_option cm (co_number o') ?v =
      Some (cm\<lparr>cm_options := cm_options cm @ [\<lparr>co_number = co_number o', co_value = ?v\<rparr>], cm_tail := length (cm_options cm)\<rparr>)"
    using cm by (cases "cm_options cm = []") (auto simp: mg_coap_add_option_def tail_ok_def Let_def)
  have "coap_option_step io p (of_nat prev) cm =
      Some (True, p + length (opt_bytes prev o'), of_nat (unat (co_number o')),
        cm\<lparr>cm_options := cm_options cm @ [\<lparr>co_number = co_number o', co_value = ?v\<rparr>],
           cm_tail := length (cm_options cm)\<rparr>)"
    unfolding coap_option_step_def rb Option.bind.bind_lunit nb(1,2) Let_def
    using n15 e1 e2 add fit len by (simp add: num n32 n32 [simplified] ul add.assoc)
  moreover have "ms_bytes ?v = ms_bytes (co_value o')"
    using bslice_ahead [OF d3] vl by (simp add: ms_bytes_def)
  ultimately show ?thesis using that by blast
qed

lemma opt_bytes_front: "\<exists>b x. opt_bytes prev o' = b # x"
  by (simp add: opt_bytes_def Let_def)

lemma opt_bytes_not_marker:
  assumes "opt_ok o'" shows "hd (opt_bytes prev o') \<noteq> 0xFF"
proof -
  have "unat (co_number o') - prev < 65536" "ms_len (co_value o') < 65536"
    using assms by (simp_all add: opt_ok_def word_less_nat_alt less_imp_diff_less)
  from option_nibbles(3) [OF opt_base_small [OF this(1)] opt_base_small [OF this(2)]]
  show ?thesis by (simp add: opt_bytes_def Let_def)
qed

text \<open>The loop reads all options back and stops at the payload marker or the end.\<close>

lemma options_loop_reads:
  assumes io: "mbuf_inv io"
  shows "\<forall>o' \<in> set os. opt_ok o' \<Longrightarrow> sorted (of_nat prev # map co_number os) \<Longrightarrow> prev < 65536 \<Longrightarrow>
    drop p (mb_mem io) = opts_bytes prev os @ r \<Longrightarrow> p + length (opts_bytes prev os) \<le> mb_len io \<Longrightarrow>
    p + length (opts_bytes prev os) = mb_len io \<or> (\<exists>r'. r = 0xFF # r') \<Longrightarrow>
    length os \<le> fuel \<Longrightarrow> tail_ok cm \<Longrightarrow> \<forall>x \<in> set (cm_options cm). co_number x \<le> of_nat prev \<Longrightarrow>
    \<exists>os' t. coap_options_loop fuel io p (of_nat prev) cm =
        Some (p + length (opts_bytes prev os), cm\<lparr>cm_options := cm_options cm @ os', cm_tail := t\<rparr>) \<and>
      map opt_view os' = map opt_view os"
proof (induction os arbitrary: prev p fuel cm)
  case Nil
  have "\<not> (p < mb_len io \<and> rd (mb_mem io) p \<noteq> Some 0xFF)"
    using Nil.prems(4,6) rd_ahead [of p "mb_mem io" "0xFF"] by auto
  then have "coap_options_loop fuel io p (of_nat prev) cm = Some (p, cm)"
    by (subst coap_options_loop.simps) auto
  then show ?case by (intro exI [of _ "[]"] exI [of _ "cm_tail cm"]) simp
next
  case (Cons o' os)
  obtain fuel' where fuel: "fuel = Suc fuel'" "length os \<le> fuel'" using Cons.prems(7) by (cases fuel) auto
  have ok: "opt_ok o'" using Cons.prems(1) by simp
  have n: "unat (of_nat prev :: u32) = prev" using Cons.prems(3) by (simp add: unat_of_nat take_bit_nat_eq_self)
  have le: "prev \<le> unat (co_number o')" using Cons.prems(2) n by (simp add: word_le_nat_alt)
  have n16: "unat (co_number o') < 65536" using ok by (simp add: opt_ok_def word_less_nat_alt)
  have d: "drop p (mb_mem io) = opt_bytes prev o' @ opts_bytes (unat (co_number o')) os @ r"
    using Cons.prems(4) by simp
  have fit: "p + length (opt_bytes prev o') \<le> mb_len io" using Cons.prems(5) by simp
  have smaller: "\<forall>x \<in> set (cm_options cm). co_number x \<le> co_number o'"
    using Cons.prems(2,9) by (auto intro: order_trans)
  from option_step_reads [OF io d fit ok le Cons.prems(8) smaller] obtain v where
    s: "coap_option_step io p (of_nat prev) cm =
      Some (True, p + length (opt_bytes prev o'), of_nat (unat (co_number o')),
        cm\<lparr>cm_options := cm_options cm @ [\<lparr>co_number = co_number o', co_value = v\<rparr>],
           cm_tail := length (cm_options cm)\<rparr>)" and v: "ms_bytes v = ms_bytes (co_value o')" .
  let ?cm = "cm\<lparr>cm_options := cm_options cm @ [\<lparr>co_number = co_number o', co_value = v\<rparr>], cm_tail := length (cm_options cm)\<rparr>"
  let ?p = "p + length (opt_bytes prev o')"
  have "\<exists>os' t. coap_options_loop fuel' io ?p (of_nat (unat (co_number o'))) ?cm =
        Some (?p + length (opts_bytes (unat (co_number o')) os), ?cm\<lparr>cm_options := cm_options ?cm @ os', cm_tail := t\<rparr>) \<and>
      map opt_view os' = map opt_view os"
  proof (rule Cons.IH [OF _ _ n16 drop_past [OF d refl]])
    show "tail_ok ?cm" by (simp add: tail_ok_def)
    show "\<forall>x \<in> set (cm_options ?cm). co_number x \<le> of_nat (unat (co_number o'))" using smaller by auto
  qed (use Cons.prems fuel in \<open>auto simp: add.assoc\<close>)
  then obtain os' t where ih: "coap_options_loop fuel' io ?p (of_nat (unat (co_number o'))) ?cm =
        Some (?p + length (opts_bytes (unat (co_number o')) os), ?cm\<lparr>cm_options := cm_options ?cm @ os', cm_tail := t\<rparr>)"
      "map opt_view os' = map opt_view os" by blast
  have f: "hd (opt_bytes prev o') \<noteq> 0xFF" using opt_bytes_not_marker [OF ok] .
  obtain b x where bx: "opt_bytes prev o' = b # x" using opt_bytes_front by blast
  have "p < mb_len io" "rd (mb_mem io) p = Some b" "b \<noteq> 0xFF"
    using fit d f rd_ahead [of p "mb_mem io" b] by (simp_all add: bx)
  then have "coap_options_loop fuel io p (of_nat prev) cm =
      Some (?p + length (opts_bytes (unat (co_number o')) os), ?cm\<lparr>cm_options := cm_options ?cm @ os', cm_tail := t\<rparr>)"
    using fuel(1) by (subst coap_options_loop.simps) (simp add: s ih(1) del: of_nat_unat)
  moreover have "opt_view \<lparr>co_number = co_number o', co_value = v\<rparr> = opt_view o'"
    using v by (simp add: opt_view_def)
  ultimately show ?case
    using ih(2) by (intro exI [of _ "\<lparr>co_number = co_number o', co_value = v\<rparr> # os'"] exI [of _ t])
      (simp add: add.assoc)
qed

definition coap_ok :: "mg_coap_message \<Rightarrow> bool" where
  "coap_ok cm \<longleftrightarrow> cm_msg_type cm \<le> 3 \<and> cm_code_class cm \<le> 7 \<and> cm_code_detail cm \<le> 31 \<and>
     ms_len (cm_token cm) \<le> 8 \<and> ms_valid (cm_token cm) \<and> ms_valid (cm_payload cm) \<and>
     (\<forall>o' \<in> set (cm_options cm). opt_ok o') \<and> sorted (map co_number (cm_options cm))"

definition coap_head :: "mg_coap_message \<Rightarrow> bytes" where
  "coap_head cm =
     [(0x40 OR push_bit 4 (cm_msg_type cm)) OR of_nat (ms_len (cm_token cm)),
      push_bit 5 (cm_code_class cm) OR cm_code_detail cm] @ be16 (cm_msg_id cm)"

definition coap_body :: "mg_coap_message \<Rightarrow> bytes" where
  "coap_body cm = opts_bytes 0 (cm_options cm) @
     (if ms_len (cm_payload cm) \<noteq> 0 then [0xFF] @ ms_bytes (cm_payload cm) else [])"

definition coap_wire :: "mg_coap_message \<Rightarrow> bytes" where
  "coap_wire cm = coap_head cm @ ms_bytes (cm_token cm) @ coap_body cm"

lemma coap_packet_wire:
  assumes "coap_ok cm"
  shows "coap_packet cm = Some (coap_wire cm)" and "coap_calculate_packet_size cm = (0, length (coap_wire cm))"
proof -
  note ok = assms [unfolded coap_ok_def]
  have t: "copy_str (cm_token cm) = Some (ms_bytes (cm_token cm))" "length (ms_bytes (cm_token cm)) = ms_len (cm_token cm)"
    and pl: "copy_str (cm_payload cm) = Some (ms_bytes (cm_payload cm))" "length (ms_bytes (cm_payload cm)) = ms_len (cm_payload cm)"
    using ok copy_str_valid by blast+
  have s: "sorted (0 # map co_number (cm_options cm))" using ok by simp
  have ob: "coap_put_options 0 (cm_options cm) = Some (opts_bytes 0 (cm_options cm))"
    "coap_options_size 0 (cm_options cm) len = (0, len + length (opts_bytes 0 (cm_options cm)))" for len
    using put_options_bytes [OF _ s] ok by simp_all
  show "coap_packet cm = Some (coap_wire cm)"
    by (simp add: coap_packet_def t pl ob coap_wire_def coap_head_def coap_body_def add_uint16_be16)
  show "coap_calculate_packet_size cm = (0, length (coap_wire cm))"
    using ok by (auto simp: coap_calculate_packet_size_def ob t pl coap_wire_def coap_head_def coap_body_def
        MG_COAP_MSG_MAX_def not_less)
qed

lemma coap_compose_appends:
  assumes rel: "reliable K ra" and inv: "mbuf_inv io" and ok: "coap_ok cm"
    and fits: "mbuf_grow (mb_len io + length (coap_wire cm)) \<le> K"
  shows "\<exists>io'. mg_coap_compose ra cm io = Some (0, io') \<and> mbuf_inv io' \<and>
    mbuf_bytes io' = mbuf_bytes io @ coap_wire cm"
proof -
  note pk = coap_packet_wire [OF ok]
  from mbuf_append_room [OF rel inv fits] obtain m where
    m: "mbuf_append ra io None (length (coap_wire cm)) = Some (length (coap_wire cm), m)" "mbuf_inv m"
      "mb_len m = mb_len io + length (coap_wire cm)" "take (mb_len io) (mb_mem m) = mbuf_bytes io" by blast
  note ov = overlay_room [OF m(2,3)]
  have "mg_coap_compose ra cm io = Some (0, m\<lparr>mb_mem := overlay (mb_mem m) (mb_len io) (coap_wire cm)\<rparr>)"
    using ov(1) by (simp add: mg_coap_compose_def pk m(1))
  then show ?thesis using ov(2,3) m(4) by auto
qed

lemma u8_le_take: "(a :: u8) \<le> of_nat (2 ^ k - 1) \<Longrightarrow> k < 8 \<Longrightarrow> a = take_bit k a"
proof -
  assume a: "a \<le> of_nat (2 ^ k - 1)" "k < 8"
  have "(2 :: nat) ^ k \<le> 2 ^ 7" using a(2) by (intro power_increasing) simp_all
  then have "unat (of_nat (2 ^ k - 1) :: u8) = 2 ^ k - 1"
    by (subst unat_of_nat) (simp add: take_bit_nat_eq_self del: of_nat_diff)
  then have "unat a \<le> 2 ^ k - 1" using a(1) by (simp only: word_le_nat_alt)
  moreover have "(0 :: nat) < 2 ^ k" by simp
  ultimately have "unat a < 2 ^ k" by linarith
  then have "take_bit k (unat a) = unat a" by (rule take_bit_nat_eq_self)
  then show ?thesis by (metis unsigned_take_bit_eq word_unat_eq_iff)
qed

lemma head_bits:
  fixes t k c d :: u8
  assumes "t \<le> 3" "k \<le> 8" "c \<le> 7" "d \<le> 31"
  shows "drop_bit 6 ((0x40 OR push_bit 4 t) OR k) = 1" and "drop_bit 4 (((0x40 OR push_bit 4 t) OR k) AND 0x30) = t"
    and "((0x40 OR push_bit 4 t) OR k) AND 0x0F = k"
    and "drop_bit 5 (push_bit 5 c OR d) = c" and "(push_bit 5 c OR d) AND 0x1F = d"
proof -
  have "k \<le> 15" using assms(2) by (rule order_trans) simp
  then have e: "t = take_bit 2 t" "k = take_bit 4 k" "c = take_bit 3 c" "d = take_bit 5 d"
    using u8_le_take [of t 2] u8_le_take [of k 4] u8_le_take [of c 3] u8_le_take [of d 5] assms by simp_all
  have bt: "\<not> bit t 2" "\<not> bit t 3" "\<not> bit t 4" "\<not> bit t 5" "\<not> bit t 6" "\<not> bit t 7" by (subst e(1), simp add: bit_take_bit_iff)+
  have bk: "\<not> bit k 4" "\<not> bit k 5" "\<not> bit k 6" "\<not> bit k 7" by (subst e(2), simp add: bit_take_bit_iff)+
  have bc: "\<not> bit c 3" "\<not> bit c 4" "\<not> bit c 5" "\<not> bit c 6" "\<not> bit c 7" by (subst e(3), simp add: bit_take_bit_iff)+
  have bd: "\<not> bit d 5" "\<not> bit d 6" "\<not> bit d 7" by (subst e(4), simp add: bit_take_bit_iff)+
  show "drop_bit 6 ((0x40 OR push_bit 4 t) OR k) = 1" and "drop_bit 4 (((0x40 OR push_bit 4 t) OR k) AND 0x30) = t"
    and "((0x40 OR push_bit 4 t) OR k) AND 0x0F = k"
    by (rule u8_eqI; simp add: bit_simps bt bk u8_high_bit)+
  show "drop_bit 5 (push_bit 5 c OR d) = c" and "(push_bit 5 c OR d) AND 0x1F = d"
    by (rule u8_eqI; simp add: bit_simps bc bd u8_high_bit)+
qed

text \<open>What a message says, apart from where its strings lie.\<close>

definition coap_view :: "mg_coap_message \<Rightarrow> (u8 \<times> u8 \<times> u8 \<times> u16) \<times> bytes \<times> (u32 \<times> bytes) list \<times> bytes" where
  "coap_view cm = ((cm_msg_type cm, cm_code_class cm, cm_code_detail cm, cm_msg_id cm), ms_bytes (cm_token cm),
     map opt_view (cm_options cm), ms_bytes (cm_payload cm))"

text \<open>No error bit is set.\<close>

definition clean :: "mg_coap_message \<Rightarrow> bool" where
  "clean cm \<longleftrightarrow> cm_flags cm AND 0xF0000 = 0"

lemma clean_flag: "clean cm \<Longrightarrow> f AND 0xF0000 = 0 \<Longrightarrow> clean (coap_flag f cm)"
  by (simp add: clean_def coap_flag_def bit_eq_iff bit_and_iff bit_or_iff) blast

lemma clean_no_error:
  assumes "clean cm"
  shows "cm_flags cm AND MG_COAP_ERROR = 0" "cm_flags cm AND MG_COAP_IGNORE = 0" "cm_flags cm AND MG_COAP_NOT_ENOUGH_DATA = 0"
proof -
  have e: "MG_COAP_ERROR = 0xF0000 AND MG_COAP_ERROR" "MG_COAP_IGNORE = 0xF0000 AND MG_COAP_IGNORE"
    "MG_COAP_NOT_ENOUGH_DATA = 0xF0000 AND MG_COAP_NOT_ENOUGH_DATA" by (simp_all add: coap_errors)
  show "cm_flags cm AND MG_COAP_ERROR = 0" "cm_flags cm AND MG_COAP_IGNORE = 0" "cm_flags cm AND MG_COAP_NOT_ENOUGH_DATA = 0"
    using assms by (subst e, simp only: clean_def and.assoc [symmetric] and_zero_eq zero_and_eq)+
qed

lemma clean_fields: "MG_COAP_TOKEN_FIELD AND 0xF0000 = 0" "MG_COAP_OPTIOMG_FIELD AND 0xF0000 = 0"
  "MG_COAP_PAYLOAD_FIELD AND 0xF0000 = 0"
  by (simp_all add: coap_fields)

definition header_of :: "mg_coap_message \<Rightarrow> mg_coap_message" where
  "header_of cm = coap_zero\<lparr>cm_flags := 0x1E, cm_msg_type := cm_msg_type cm, cm_code_class := cm_code_class cm,
     cm_code_detail := cm_code_detail cm, cm_msg_id := cm_msg_id cm,
     cm_token := no_str\<lparr>ms_len := ms_len (cm_token cm)\<rparr>\<rparr>"

lemma parse_header_reads:
  assumes ok: "coap_ok cm" and d: "mb_mem rx = coap_head cm @ r" and len: "4 \<le> mb_len rx"
  shows "coap_parse_header rx coap_zero = Some (Some 4, header_of cm)"
proof -
  let ?k = "of_nat (ms_len (cm_token cm)) :: u8"
  have kn: "ms_len (cm_token cm) \<le> 8" using ok by (simp add: coap_ok_def)
  then have uk: "unat ?k = ms_len (cm_token cm)" by (simp add: unat_of_nat take_bit_nat_eq_self)
  then have k: "?k \<le> 8" using kn by (simp add: word_le_nat_alt)
  note hb = head_bits [OF _ k, of "cm_msg_type cm" "cm_code_class cm" "cm_code_detail cm"]
  have ok': "cm_msg_type cm \<le> 3" "cm_code_class cm \<le> 7" "cm_code_detail cm \<le> 31" using ok by (simp_all add: coap_ok_def)
  have rds: "rd (mb_mem rx) 0 = Some ((0x40 OR push_bit 4 (cm_msg_type cm)) OR ?k)"
    "rd (mb_mem rx) 1 = Some (push_bit 5 (cm_code_class cm) OR cm_code_detail cm)"
    "rd (mb_mem rx) 2 = Some (ucast (drop_bit 8 (cm_msg_id cm)))" "rd (mb_mem rx) 3 = Some (ucast (cm_msg_id cm))"
    by (simp_all add: d coap_head_def be16_def rd_def)
  show ?thesis
    unfolding coap_parse_header_def rds Option.bind.bind_lunit hb [OF ok'] Let_def
    using kn len
    by (simp add: uk bytes_simps coap_flag_def coap_fields header_of_def coap_zero_def)
qed

lemma get_token_reads:
  assumes ok: "coap_ok cm" and d: "drop 4 (mb_mem rx) = ms_bytes (cm_token cm) @ r"
    and len: "4 + ms_len (cm_token cm) \<le> mb_len rx"
  obtains m where "coap_get_token 4 rx (header_of cm) = (Some (4 + ms_len (cm_token cm)), m)"
    and "clean m" and "cm_options m = []" and "coap_view m = coap_view (cm\<lparr>cm_options := [], cm_payload := no_str\<rparr>)"
    and "cm_payload m = no_str"
proof -
  have l: "length (ms_bytes (cm_token cm)) = ms_len (cm_token cm)" using ok copy_str_valid by (simp add: coap_ok_def)
  have c: "clean (header_of cm)" by (simp add: clean_def header_of_def coap_errors)
  show ?thesis
  proof (cases "ms_len (cm_token cm) = 0")
    case True
    then show ?thesis using that [of "header_of cm"] c l
      by (simp add: coap_get_token_def header_of_def coap_view_def coap_zero_def Let_def ms_bytes_def no_str_def bslice_def)
  next
    case False
    let ?m = "coap_flag MG_COAP_TOKEN_FIELD ((header_of cm)\<lparr>cm_token :=
      \<lparr>ms_mem = mb_mem rx, ms_p = 4, ms_len = ms_len (cm_token cm)\<rparr>\<rparr>)"
    have "clean ((header_of cm)\<lparr>cm_token := t\<rparr>)" for t using c by (simp add: clean_def)
    then have cl: "clean ?m" using clean_fields(1) by (intro clean_flag)
    have "ms_bytes \<lparr>ms_mem = mb_mem rx, ms_p = 4, ms_len = ms_len (cm_token cm)\<rparr> = ms_bytes (cm_token cm)"
      using bslice_ahead [OF d] l by (simp add: ms_bytes_def)
    then show ?thesis using that [of ?m] cl False len
      by (simp add: coap_get_token_def header_of_def coap_view_def coap_zero_def Let_def coap_flag_def no_str_def)
  qed
qed

lemma opts_bytes_length: "length os \<le> length (opts_bytes prev os)"
proof (induction os arbitrary: prev)
  case (Cons o' os)
  have "1 \<le> length (opt_bytes prev o')" by (simp add: opt_bytes_def Let_def)
  with Cons [of "unat (co_number o')"] show ?case by simp
qed simp

lemma no_str_bytes [simp]: "ms_bytes no_str = []"
  by (simp add: ms_bytes_def no_str_def bslice_def)

text \<open>A datagram holding a composed message parses back to the message, without an error.\<close>

lemma coap_parse_wire:
  assumes rx: "mbuf_inv rx" "mbuf_bytes rx = coap_wire cm" and ok: "coap_ok cm"
    and small: "length (coap_wire cm) < 2 ^ 63"
  shows "\<exists>cm'. mg_coap_parse rx = Some cm' \<and> clean cm' \<and> coap_view cm' = coap_view cm"
proof -
  let ?T = "ms_bytes (cm_token cm)" and ?O = "opts_bytes 0 (cm_options cm)" and ?P = "ms_bytes (cm_payload cm)"
  let ?t = "ms_len (cm_token cm)"
  have lt: "length ?T = ?t" "length ?P = ms_len (cm_payload cm)" using ok copy_str_valid by (simp_all add: coap_ok_def)
  obtain slack where mem: "mb_mem rx = coap_head cm @ ?T @ coap_body cm @ slack"
    using rx(2) append_take_drop_id [of "mb_len rx" "mb_mem rx"]
    unfolding mbuf_bytes_def coap_wire_def by (metis append.assoc)
  have lh: "length (coap_head cm) = 4" by (simp add: coap_head_def)
  have len: "mb_len rx = 4 + ?t + length (coap_body cm)"
    using length_mbuf_bytes [OF rx(1)] rx(2) lh lt by (simp add: coap_wire_def)
  have d1: "drop 4 (mb_mem rx) = ?T @ coap_body cm @ slack" using mem lh by simp
  note H = parse_header_reads [OF ok mem]
  from get_token_reads [OF ok d1] len obtain m where
    T: "coap_get_token 4 rx (header_of cm) = (Some (4 + ?t), m)" and m: "clean m" "cm_options m = []"
      "coap_view m = coap_view (cm\<lparr>cm_options := [], cm_payload := no_str\<rparr>)" "cm_payload m = no_str" by auto
  have P: "mg_coap_parse rx = do {
      (p, cm) \<leftarrow> coap_get_options (4 + ?t) rx m;
      case p of None \<Rightarrow> Some cm | Some p \<Rightarrow> Some (coap_get_payload p rx cm) }"
    using H T len by (simp add: mg_coap_parse_def)
  show ?thesis
  proof (cases "coap_body cm = []")
    case True
    then have e: "cm_options cm = []" "?P = []"
      using opts_bytes_length [of "cm_options cm" 0] lt by (auto simp: coap_body_def split: if_splits)
    have "coap_get_options (4 + ?t) rx m = Some (None, m)" using len True by (simp add: coap_get_options_def)
    then have "mg_coap_parse rx = Some m" by (simp add: P)
    moreover have "coap_view m = coap_view cm" using m(3) e by (simp add: coap_view_def)
    ultimately show ?thesis using m(1) by blast
  next
    case False
    let ?r = "(if ms_len (cm_payload cm) \<noteq> 0 then [0xFF] @ ?P else []) @ slack"
    have d2: "drop (4 + ?t) (mb_mem rx) = ?O @ ?r"
      using drop_past [OF d1 lt(1)] by (simp add: coap_body_def)
    have lb: "length (coap_body cm) = length ?O + (if ms_len (cm_payload cm) \<noteq> 0 then 1 + ms_len (cm_payload cm) else 0)"
      using lt by (simp add: coap_body_def)
    have "\<exists>os' t. coap_options_loop (mb_len rx) rx (4 + ?t) (of_nat 0) m =
        Some (4 + ?t + length ?O, m\<lparr>cm_options := cm_options m @ os', cm_tail := t\<rparr>) \<and>
      map opt_view os' = map opt_view (cm_options cm)"
    proof (rule options_loop_reads [OF rx(1) _ _ _ d2])
      show "length (cm_options cm) \<le> mb_len rx" using opts_bytes_length [of "cm_options cm" 0] len lb by linarith
    qed (use ok len lb m(2) in \<open>auto simp: coap_ok_def tail_ok_def\<close>)
    then obtain os' t where
      L: "coap_options_loop (mb_len rx) rx (4 + ?t) 0 m = Some (4 + ?t + length ?O, m\<lparr>cm_options := os', cm_tail := t\<rparr>)"
      and os': "map opt_view os' = map opt_view (cm_options cm)" using m(2) by auto
    let ?m = "m\<lparr>cm_options := os', cm_tail := t\<rparr>"
    have cl: "clean ?m" using m(1) by (simp add: clean_def)
    let ?m' = "coap_flag MG_COAP_OPTIOMG_FIELD ?m"
    have cl': "clean ?m'" using clean_flag [OF cl clean_fields(2)] .
    have G: "coap_get_options (4 + ?t) rx m =
        (if 4 + ?t + length ?O = mb_len rx then Some (None, ?m') else Some (Some (4 + ?t + length ?O + 1), ?m'))"
      using False len L clean_no_error(1) [OF cl] by (simp add: coap_get_options_def Let_def)
    have v: "coap_view ?m' = coap_view (cm\<lparr>cm_payload := no_str\<rparr>)"
      using m(3,4) os' by (simp add: coap_view_def coap_flag_def)
    show ?thesis
    proof (cases "ms_len (cm_payload cm) = 0")
      case True
      then have "mg_coap_parse rx = Some ?m'" using len lb by (simp add: P G)
      moreover have "coap_view ?m' = coap_view cm"
        using v True lt(2) by (simp add: coap_view_def)
      ultimately show ?thesis using cl' by blast
    next
      case pl: False
      let ?q = "4 + ?t + length ?O + 1"
      have q: "int (mb_len rx) - int ?q = int (ms_len (cm_payload cm))" using len lb pl by simp
      have "ms_len (cm_payload cm) < 2 ^ 63" using small lb pl by (simp add: coap_wire_def)
      then have n: "nat ((int (mb_len rx) - int ?q) mod 2 ^ 64) = ms_len (cm_payload cm)" unfolding q by simp
      let ?pl = "\<lparr>ms_mem = mb_mem rx, ms_p = ?q, ms_len = ms_len (cm_payload cm)\<rparr>"
      let ?c = "coap_flag MG_COAP_PAYLOAD_FIELD (?m'\<lparr>cm_payload := ?pl\<rparr>)"
      have "drop (4 + ?t + length ?O) (mb_mem rx) = [0xFF] @ ?P @ slack"
        using drop_past [OF d2 refl] pl by simp
      from drop_past [OF this, of 1] have "drop ?q (mb_mem rx) = ?P @ slack" by simp
      from bslice_ahead [OF this lt(2)] have "ms_bytes ?pl = ?P" by (simp add: ms_bytes_def)
      then have view: "coap_view ?c = coap_view cm" using v by (simp add: coap_view_def coap_flag_def)
      have cp: "clean (?m'\<lparr>cm_payload := ?pl\<rparr>)" using cl' by (simp add: clean_def)
      have cc: "clean ?c" using cp clean_fields(3) by (rule clean_flag)
      have pay: "coap_get_payload ?q rx ?m' = ?c"
        unfolding coap_get_payload_def n Let_def using pl by simp
      have "mg_coap_parse rx = Some ?c"
        unfolding P G using pl lb len pay by simp
      then show ?thesis using view cc by blast
    qed
  qed
qed

section \<open>The handler\<close>

definition emptied :: "'u mg_connection \<Rightarrow> 'u mg_connection" where
  "emptied nc = nc\<lparr>nc_recv := mbuf_remove (nc_recv nc) (mb_len (nc_recv nc))\<rparr>"

lemma coap_handler_cases:
  assumes "mg_coap_parse (nc_recv (h (EvRecv n) nc)) = Some cm"
  shows "clean cm \<Longrightarrow> coap_handler h (EvRecv n) nc = Some (emptied (h (EvProto cm) (h (EvRecv n) nc)))"
    and "cm_flags cm AND MG_COAP_ERROR \<noteq> 0 \<Longrightarrow> coap_handler h (EvRecv n) nc = Some (emptied (h (EvRecv n) nc))"
proof -
  show "coap_handler h (EvRecv n) nc = Some (emptied (h (EvProto cm) (h (EvRecv n) nc)))" if "clean cm"
    using clean_no_error [OF that] assms by (simp add: coap_handler_def Let_def emptied_def)
  show "coap_handler h (EvRecv n) nc = Some (emptied (h (EvRecv n) nc))" if e: "cm_flags cm AND MG_COAP_ERROR \<noteq> 0"
  proof -
    have "cm_flags cm AND MG_COAP_IGNORE \<noteq> 0"
    proof
      assume "cm_flags cm AND MG_COAP_IGNORE = 0"
      then have "(cm_flags cm AND MG_COAP_IGNORE) AND MG_COAP_ERROR = 0" by simp
      then show False using e by (simp add: and.assoc coap_errors)
    qed
    then show ?thesis using assms by (simp add: coap_handler_def Let_def emptied_def)
  qed
qed

section \<open>Properties\<close>

text \<open>C27. Options added to an empty message in any order end up in a stable sort by their numbers, the
  order the protocol asks for, and the tail pointer is at the last one.\<close>

theorem coap_options_stable_sort:
  "\<exists>cm. add_options coap_zero os = Some cm \<and> tail_ok cm \<and> cm_options cm = sort_key co_number (map as_option os)"
  by (rule add_options_sorts)

text \<open>C28. The parser ends on every datagram, reads nothing outside the buffer and follows no dangling
  tail pointer; a message it reports without an error has all its strings inside the datagram.\<close>

theorem coap_parse_safe:
  assumes "mbuf_inv io"
  shows "\<exists>cm. mg_coap_parse io = Some cm \<and> (cm_flags cm AND MG_COAP_ERROR = 0 \<longrightarrow> message_inside io cm)"
  using assms by (rule coap_parse_total)

definition demo_datagram :: mbuf where
  "demo_datagram = \<lparr>mb_addr = 64, mb_mem = [0x40, 1, 0, 9, 0xB1, 97], mb_len = 6, mb_size = 6\<rparr>"

lemma demo_datagram_inv: "mbuf_inv demo_datagram"
  by (simp add: demo_datagram_def mbuf_inv_def USER_SPACE_def)

theorem coap_parse_safe_witness:
  "\<exists>cm. mg_coap_parse demo_datagram = Some cm \<and>
    (cm_flags cm AND MG_COAP_ERROR = 0 \<longrightarrow> message_inside demo_datagram cm)"
  by (rule coap_parse_safe [OF demo_datagram_inv])

text \<open>C29. A message within the limits of the protocol is composed behind what the buffer holds, and a peer
  that receives it as a datagram hands its user a message with the same type, code, id, token,
  options and payload and no error, and then empties its buffer.\<close>

theorem coap_roundtrip:
  assumes "reliable K ra" and "mbuf_inv io" and "coap_ok cm"
    and "mbuf_grow (mb_len io + length (coap_wire cm)) \<le> K"
  shows "\<exists>io' pkt. mg_coap_compose ra cm io = Some (0, io') \<and> mbuf_inv io' \<and> mbuf_bytes io' = mbuf_bytes io @ pkt \<and>
    (\<forall>h n rc. mbuf_inv (nc_recv (h (EvRecv n) rc)) \<and> mbuf_bytes (nc_recv (h (EvRecv n) rc)) = pkt \<longrightarrow>
       (\<exists>cm'. coap_handler h (EvRecv n) rc = Some (emptied (h (EvProto cm') (h (EvRecv n) rc))) \<and>
              clean cm' \<and> coap_view cm' = coap_view cm))"
proof -
  have "length (coap_wire cm) \<le> K" using assms(4) mbuf_grow_ge [of "mb_len io + length (coap_wire cm)"] by linarith
  moreover have "K \<le> 2 ^ 62" using assms(1) by (simp add: reliable_def)
  ultimately have small: "length (coap_wire cm) < 2 ^ 63" by simp
  show ?thesis
    using coap_compose_appends [OF assms] coap_parse_wire [OF _ _ assms(3) small] coap_handler_cases(1) by metis
qed

definition demo_message :: mg_coap_message where
  "demo_message = coap_zero\<lparr>cm_code_class := 2, cm_code_detail := 5, cm_msg_id := 77,
     cm_token := mg_mk_str [1, 2],
     cm_options := [\<lparr>co_number = 11, co_value = mg_mk_str [97]\<rparr>, \<lparr>co_number = 300, co_value = mg_mk_str []\<rparr>],
     cm_payload := mg_mk_str [7]\<rparr>"

lemma demo_message_ok: "coap_ok demo_message"
  by (simp add: coap_ok_def demo_message_def coap_zero_def opt_ok_def mg_mk_str_def ms_valid_def)

lemma demo_message_length: "length (coap_wire demo_message) \<le> 30"
proof -
  have "length (opt_ext k) \<le> 2" if "k < 65536" for k using that by (simp add: opt_ext_cases)
  from this [of 11] this [of 289] this [of 1] this [of 0]
  show ?thesis
    by (simp add: coap_wire_def coap_head_def coap_body_def demo_message_def coap_zero_def opt_bytes_def Let_def
        mg_mk_str_def ms_bytes_def bslice_def)
qed

theorem coap_roundtrip_witness:
  "\<exists>io' pkt. mg_coap_compose arena_realloc demo_message empty_mbuf = Some (0, io') \<and> mbuf_inv io' \<and>
    mbuf_bytes io' = mbuf_bytes empty_mbuf @ pkt \<and>
    (\<forall>h n (rc :: nat mg_connection). mbuf_inv (nc_recv (h (EvRecv n) rc)) \<and> mbuf_bytes (nc_recv (h (EvRecv n) rc)) = pkt \<longrightarrow>
       (\<exists>cm'. coap_handler h (EvRecv n) rc = Some (emptied (h (EvProto cm') (h (EvRecv n) rc))) \<and>
              clean cm' \<and> coap_view cm' = coap_view demo_message))"
proof (rule coap_roundtrip [OF arena_reliable _ demo_message_ok])
  have "mbuf_grow (length (coap_wire demo_message)) \<le> mbuf_grow 30" by (rule mbuf_grow_mono [OF demo_message_length])
  then show "mbuf_grow (mb_len empty_mbuf + length (coap_wire demo_message)) \<le> 2 ^ 20" by (simp add: mbuf_grow_def)
qed simp

text \<open>A datagram with any error, also one of the format that the handler means to report, is thrown
  away in silence: the user's handler sees no CoAP event for it.\<close>

lemma coap_malformed_dropped:
  assumes "mbuf_inv (nc_recv (h (EvRecv n) nc))"
    and "\<And>cm. mg_coap_parse (nc_recv (h (EvRecv n) nc)) = Some cm \<Longrightarrow> cm_flags cm AND MG_COAP_ERROR \<noteq> 0"
  shows "coap_handler h (EvRecv n) nc = Some (emptied (h (EvRecv n) nc))"
  using coap_parse_total [OF assms(1)] assms(2) coap_handler_cases(2) by blast

text \<open>C30. A message of an unknown version is silently ignored: when the two high bits of the first byte of a datagram of at least four
  bytes are not 01, the user's handler sees no CoAP event for it and the datagram is removed.\<close>

theorem coap_unknown_version_ignored:
  assumes "mbuf_inv (nc_recv (h (EvRecv n) nc))" and "mbuf_bytes (nc_recv (h (EvRecv n) nc)) = b0 # b" and "3 \<le> length b"
    and "drop_bit 6 b0 \<noteq> 1"
  shows "coap_handler h (EvRecv n) nc = Some (emptied (h (EvRecv n) nc))"
proof (rule coap_malformed_dropped [where h = h and n = n and nc = nc])
  show "mbuf_inv (nc_recv (h (EvRecv n) nc))" by (rule assms(1))
  let ?m = "nc_recv (h (EvRecv n) nc)"
  have "rd (mb_mem ?m) 0 = Some b0" using assms(2) by (cases "mb_mem ?m") (auto simp: mbuf_bytes_def rd_def take_Cons' split: if_splits)
  moreover have "4 \<le> mb_len ?m" using length_mbuf_bytes [OF assms(1)] assms(2,3) by simp
  ultimately show "cm_flags cm AND MG_COAP_ERROR \<noteq> 0" if "mg_coap_parse ?m = Some cm" for cm
    using that assms(4) error_flags(3) by (auto simp: mg_coap_parse_def coap_parse_header_def)
qed

definition demo_version :: "nat mg_connection" where
  "demo_version = (mg_create_connection_base 0 0 0)\<lparr>nc_recv :=
     \<lparr>mb_addr = 64, mb_mem = [0x80, 1, 0, 9], mb_len = 4, mb_size = 4\<rparr>\<rparr>"

theorem coap_unknown_version_ignored_witness:
  "coap_handler (\<lambda>ev nc. nc) (EvRecv 4) demo_version = Some (emptied demo_version)"
  using coap_unknown_version_ignored [of "\<lambda>ev nc. nc" 4 demo_version "0x80" "[1, 0, 9]"]
  by (simp add: demo_version_def mbuf_inv_def mbuf_bytes_def USER_SPACE_def)

end
