(* ===== verification/Dns.thy ===== *)
theory Dns
  imports Conn Str
begin

text \<open>
  \<open>mongoose/src/dns.c\<close> and \<open>mongoose/src/dns_server.c\<close>: encoding names, records and
  queries, parsing messages, expanding compressed names, the protocol handler and replies.

  \<open>None\<close> is a read or write outside the memory, or a failed assertion of a buffer.  Expanding
  a name may not end at all, so it runs on fuel and says how it stopped.
\<close>

section \<open>Messages\<close>

definition MG_DNS_A_RECORD :: int where "MG_DNS_A_RECORD = 0x01"
definition MG_DNS_CNAME_RECORD :: int where "MG_DNS_CNAME_RECORD = 0x05"
definition MG_MAX_DNS_QUESTIONS :: nat where "MG_MAX_DNS_QUESTIONS = 32"
definition MG_MAX_DNS_ANSWERS :: nat where "MG_MAX_DNS_ANSWERS = 32"

datatype dns_record_kind = MG_DNS_INVALID_RECORD | MG_DNS_QUESTION | MG_DNS_ANSWER

record mg_dns_resource_record =
  rr_name :: mg_str
  rr_rtype :: int
  rr_rclass :: int
  rr_ttl :: int
  rr_kind :: dns_record_kind
  rr_rdata :: mg_str

record mg_dns_message =
  dm_pkt :: mg_str
  dm_flags :: u16
  dm_transaction_id :: u16
  dm_num_questions :: nat
  dm_num_answers :: nat
  dm_questions :: "mg_dns_resource_record list"
  dm_answers :: "mg_dns_resource_record list"

definition null_name :: mg_str where
  "null_name = \<lparr>ms_mem = [], ms_p = 0, ms_len = 0\<rparr>"

definition rr_zero :: mg_dns_resource_record where
  "rr_zero = \<lparr>rr_name = null_name, rr_rtype = 0, rr_rclass = 0, rr_ttl = 0, rr_kind = MG_DNS_INVALID_RECORD,
     rr_rdata = null_name\<rparr>"

definition dns_zero :: mg_dns_message where
  "dns_zero = \<lparr>dm_pkt = null_name, dm_flags = 0, dm_transaction_id = 0, dm_num_questions = 0, dm_num_answers = 0,
     dm_questions = replicate MG_MAX_DNS_QUESTIONS rr_zero, dm_answers = replicate MG_MAX_DNS_ANSWERS rr_zero\<rparr>"

section \<open>Strings\<close>

text \<open>\<open>strlen\<close> and \<open>strchr\<close> on the memory from a pointer on; the search for a character
  stops at the NUL.\<close>

fun c_strlen :: "bytes \<Rightarrow> nat option" where
  "c_strlen [] = None"
| "c_strlen (x # xs) = (if x = 0 then Some 0 else map_option Suc (c_strlen xs))"

fun c_strchr :: "bytes \<Rightarrow> u8 \<Rightarrow> nat option option" where
  "c_strchr [] c = None"
| "c_strchr (x # xs) c =
     (if x = c then Some (Some 0) else if x = 0 then Some None
      else map_option (map_option Suc) (c_strchr xs c))"

definition dot :: u8 where "dot = 0x2E"

section \<open>Encoding\<close>

text \<open>The header as it lies in memory: the transaction id in the order of the host.\<close>

definition dns_header_bytes :: "mg_dns_message \<Rightarrow> bytes" where
  "dns_header_bytes msg =
     rev (be16 (dm_transaction_id msg)) @ be16 (dm_flags msg) @ be16 (of_nat (dm_num_questions msg)) @
     be16 (of_nat (dm_num_answers msg)) @ [0, 0, 0, 0]"

definition mg_dns_insert_header :: "realloc \<Rightarrow> mbuf \<Rightarrow> nat \<Rightarrow> mg_dns_message \<Rightarrow> (nat \<times> mbuf) option" where
  "mg_dns_insert_header ra io pos msg = mbuf_insert ra io pos (Some (dns_header_bytes msg)) 12"

text \<open>Copies from behind the header to the end of the last question.\<close>

definition mg_dns_copy_questions :: "realloc \<Rightarrow> mbuf \<Rightarrow> mg_dns_message \<Rightarrow> (nat \<times> mbuf) option" where
  "mg_dns_copy_questions ra io msg =
     (if dm_num_questions msg = 0 then Some (0, io)
      else if \<not> dm_num_questions msg - 1 < length (dm_questions msg) then None
      else
        let first = ms_p (dm_pkt msg) + 12;
            last_q = dm_questions msg ! (dm_num_questions msg - 1);
            fin = ms_p (rr_name last_q) + ms_len (rr_name last_q) + 4;
            mem = ms_mem (dm_pkt msg)
        in if fin < first \<or> length mem < fin then None
           else mbuf_append ra io (Some (bslice mem first (fin - first))) (fin - first))"

text \<open>The loop over the labels of a name; \<open>p\<close> points into its memory.  The flag is false when a
  label is longer than 127 bytes.  It does not end for a length short of the string.\<close>

partial_function (option) dns_encode_loop ::
  "realloc \<Rightarrow> bytes \<Rightarrow> nat \<Rightarrow> nat \<Rightarrow> mbuf \<Rightarrow> (bool \<times> mbuf) option"
where
  "dns_encode_loop ra mem p len io = do {
     f \<leftarrow> c_strchr (drop p mem) dot;
     let k = (case f of None \<Rightarrow> len | Some i \<Rightarrow> i);
     if k > 127 then Some (False, io)
     else if p + k > length mem then None
     else do {
       io \<leftarrow> mbuf_push ra (Some io) [of_nat k];
       io \<leftarrow> mbuf_push ra (Some io) (bslice mem p k);
       c \<leftarrow> rd mem (p + k);
       let n = (if c = dot then k + 1 else k);
       let p = p + n;
       let len = nat ((int len - int n) mod 2 ^ 64);
       if c \<noteq> 0 then dns_encode_loop ra mem p len io
       else do { io \<leftarrow> mbuf_push ra (Some io) [0]; Some (True, io) } } }"

definition mg_dns_encode_name :: "realloc \<Rightarrow> mbuf \<Rightarrow> bytes \<Rightarrow> nat \<Rightarrow> (int \<times> mbuf) option" where
  "mg_dns_encode_name ra io name len = do {
     (ok, io') \<leftarrow> dns_encode_loop ra name 0 len io;
     Some (if ok then int (mb_len io') - int (mb_len io) else -1, io') }"

text \<open>Two bytes written into the buffer at an offset.\<close>

definition mbuf_poke16 :: "mbuf \<Rightarrow> nat \<Rightarrow> u16 \<Rightarrow> mbuf option" where
  "mbuf_poke16 io off w =
     (if off + 2 \<le> length (mb_mem io) then Some (io\<lparr>mb_mem := overlay (mb_mem io) off (be16 w)\<rparr>) else None)"

definition dns_encode_answer ::
  "realloc \<Rightarrow> mbuf \<Rightarrow> mg_dns_resource_record \<Rightarrow> bytes \<Rightarrow> nat \<Rightarrow> (bool \<times> mbuf) option"
where
  "dns_encode_answer ra io rr rdata rlen = do {
     io \<leftarrow> mbuf_push ra (Some io) (be32 (word_of_int (rr_ttl rr)));
     if rr_rtype rr = MG_DNS_CNAME_RECORD then do {
       let off = mb_len io;
       io \<leftarrow> mbuf_push ra (Some io) (be16 (word_of_int (rr_rclass rr)));
       (clen, io) \<leftarrow> mg_dns_encode_name ra io rdata rlen;
       if clen = -1 then Some (False, io)
       else do { io \<leftarrow> mbuf_poke16 io off (word_of_int clen); Some (True, io) } }
     else if rlen > length rdata then None
     else do {
       io \<leftarrow> mbuf_push ra (Some io) (be16 (of_nat rlen));
       io \<leftarrow> mbuf_push ra (Some io) (take rlen rdata);
       Some (True, io) } }"

definition mg_dns_encode_record ::
  "realloc \<Rightarrow> mbuf \<Rightarrow> mg_dns_resource_record \<Rightarrow> bytes \<Rightarrow> nat \<Rightarrow> bytes \<Rightarrow> nat \<Rightarrow> (int \<times> mbuf) option"
where
  "mg_dns_encode_record ra io0 rr name nlen rdata rlen =
     (if rr_kind rr = MG_DNS_INVALID_RECORD then Some (-1, io0)
      else do {
        (n, io) \<leftarrow> mg_dns_encode_name ra io0 name nlen;
        if n = -1 then Some (-1, io)
        else do {
          io \<leftarrow> mbuf_push ra (Some io) (be16 (word_of_int (rr_rtype rr)));
          io \<leftarrow> mbuf_push ra (Some io) (be16 (word_of_int (rr_rclass rr)));
          (ok, io) \<leftarrow> (if rr_kind rr = MG_DNS_ANSWER then dns_encode_answer ra io rr rdata rlen else Some (True, io));
          Some (if ok then int (mb_len io) - int (mb_len io0) else -1, io) } })"

text \<open>The static counter of transaction ids is passed and returned.  The name is a C string.\<close>

definition mg_send_dns_query ::
  "io \<Rightarrow> int \<Rightarrow> bytes \<Rightarrow> int \<Rightarrow> 'u mg_connection \<Rightarrow> (int \<times> 'u mg_connection) option"
where
  "mg_send_dns_query io tid name query_type nc = do {
     let tid = tid + 1;
     let msg = dns_zero\<lparr>dm_transaction_id := word_of_int tid, dm_flags := 0x100, dm_num_questions := 1\<rparr>;
     (_, pkt) \<leftarrow> mg_dns_insert_header (io_ra io) (mbuf_init (io_ra io) 64) 0 msg;
     let rr = rr_zero\<lparr>rr_rtype := query_type, rr_rclass := 1, rr_kind := MG_DNS_QUESTION\<rparr>;
     nlen \<leftarrow> c_strlen name;
     (n, pkt) \<leftarrow> mg_dns_encode_record (io_ra io) pkt rr name nlen [] 0;
     if n = -1 then Some (tid, nc)
     else do {
       pkt \<leftarrow> (if \<not> has_flag nc MG_F_UDP
               then map_option snd (mbuf_insert (io_ra io) pkt 0 (Some (be16 (of_nat (mb_len pkt)))) 2)
               else Some pkt);
       Some (tid, mg_send io (mbuf_bytes pkt) nc) } }"

section \<open>Parsing\<close>

text \<open>The skip over a name: behind its last label, or on the second byte of a pointer.\<close>

function dns_skip_name :: "bytes \<Rightarrow> nat \<Rightarrow> nat \<Rightarrow> nat option" where
  "dns_skip_name mem fin data =
     (if data < fin then do {
        chunk_len \<leftarrow> rd mem data;
        if chunk_len = 0 then Some data
        else if chunk_len AND 0xC0 \<noteq> 0 then Some (data + 1)
        else dns_skip_name mem fin (data + unat chunk_len + 1) }
      else Some data)"
  by pat_completeness auto
termination by (relation "measure (\<lambda>(mem, fin, data). fin - data)") auto

declare dns_skip_name.simps [simp del]

definition rd16 :: "bytes \<Rightarrow> nat \<Rightarrow> u16 option" where
  "rd16 mem p = do { a \<leftarrow> rd mem p; b \<leftarrow> rd mem (p + 1); Some (un16 a b) }"

definition rd32 :: "bytes \<Rightarrow> nat \<Rightarrow> u32 option" where
  "rd32 mem p = do { a \<leftarrow> rd mem p; b \<leftarrow> rd mem (p + 1); c \<leftarrow> rd mem (p + 2); d \<leftarrow> rd mem (p + 3); Some (un32 a b c d) }"

definition mg_parse_dns_resource_record ::
  "bytes \<Rightarrow> nat \<Rightarrow> nat \<Rightarrow> mg_dns_resource_record \<Rightarrow> bool \<Rightarrow> (nat option \<times> mg_dns_resource_record) option"
where
  "mg_parse_dns_resource_record mem fin name rr reply = do {
     data \<leftarrow> dns_skip_name mem fin name;
     if data + 5 > fin then Some (None, rr)
     else do {
       let rr = rr\<lparr>rr_name := \<lparr>ms_mem = mem, ms_p = name, ms_len = data - name + 1\<rparr>\<rparr>;
       t \<leftarrow> rd16 mem (data + 1);
       c \<leftarrow> rd16 mem (data + 3);
       let rr = rr\<lparr>rr_rtype := uint t, rr_rclass := uint c, rr_kind := (if reply then MG_DNS_ANSWER else MG_DNS_QUESTION)\<rparr>;
       let data = data + 5;
       if reply then
         if data + 6 \<ge> fin then Some (None, rr)
         else do {
           ttl \<leftarrow> rd32 mem data;
           len \<leftarrow> rd16 mem (data + 4);
           let rr = rr\<lparr>rr_ttl := c_int (uint ttl), rr_rdata := \<lparr>ms_mem = mem, ms_p = data + 6, ms_len = unat len\<rparr>\<rparr>;
           Some (Some (data + 6 + unat len), rr) }
       else Some (Some data, rr) } }"

text \<open>The records of one section, from index \<open>i\<close> on, into their array.\<close>

fun dns_parse_records ::
  "bytes \<Rightarrow> nat \<Rightarrow> bool \<Rightarrow> nat \<Rightarrow> nat \<Rightarrow> nat \<Rightarrow> mg_dns_resource_record list \<Rightarrow>
     (nat option \<times> mg_dns_resource_record list) option"
where
  "dns_parse_records mem fin reply 0 i data rrs = Some (Some data, rrs)"
| "dns_parse_records mem fin reply (Suc n) i data rrs =
     (if \<not> i < length rrs then None
      else do {
        (data, rr) \<leftarrow> mg_parse_dns_resource_record mem fin data (rrs ! i) reply;
        let rrs = rrs[i := rr];
        case data of None \<Rightarrow> Some (None, rrs)
        | Some data \<Rightarrow> dns_parse_records mem fin reply n (i + 1) data rrs })"

definition dns_clip :: "u16 \<Rightarrow> nat \<Rightarrow> nat" where
  "dns_clip w n = (if unat w > n then n else unat w)"

definition mg_parse_dns :: "bytes \<Rightarrow> nat \<Rightarrow> (int \<times> mg_dns_message) option" where
  "mg_parse_dns mem len =
     (let msg = dns_zero\<lparr>dm_pkt := \<lparr>ms_mem = mem, ms_p = 0, ms_len = len\<rparr>\<rparr> in
      if len < 12 then Some (-1, msg)
      else do {
        t0 \<leftarrow> rd mem 0;
        t1 \<leftarrow> rd mem 1;
        fl \<leftarrow> rd16 mem 2;
        nq \<leftarrow> rd16 mem 4;
        na \<leftarrow> rd16 mem 6;
        let msg = msg\<lparr>dm_transaction_id := un16 t1 t0, dm_flags := fl,
                      dm_num_questions := dns_clip nq MG_MAX_DNS_QUESTIONS,
                      dm_num_answers := dns_clip na MG_MAX_DNS_ANSWERS\<rparr>;
        (data, qs) \<leftarrow> dns_parse_records mem len False (dm_num_questions msg) 0 12 (dm_questions msg);
        let msg = msg\<lparr>dm_questions := qs\<rparr>;
        case data of None \<Rightarrow> Some (-1, msg)
        | Some data \<Rightarrow> do {
            (data, as) \<leftarrow> dns_parse_records mem len True (dm_num_answers msg) 0 data (dm_answers msg);
            let msg = msg\<lparr>dm_answers := as\<rparr>;
            Some (case data of None \<Rightarrow> -1 | Some _ \<Rightarrow> 0, msg) } })"

section \<open>Expanding a name\<close>

text \<open>How a run on fuel stops: with a result, with a bad access, or not yet.\<close>

datatype 'a run = Done 'a | Fault | Running

text \<open>The loop of \<open>mg_dns_uncompress_name\<close>; \<open>out\<close> is what it has written to \<open>dst\<close>.  The result
  is the value returned and what \<open>dst\<close> then holds.\<close>

fun dns_uncompress_loop :: "nat \<Rightarrow> mg_str \<Rightarrow> nat \<Rightarrow> nat \<Rightarrow> bytes \<Rightarrow> (nat \<times> bytes) run" where
  "dns_uncompress_loop fuel pkt data dst_len out =
     (let mem = ms_mem pkt; fin = ms_p pkt + ms_len pkt in
      case fuel of 0 \<Rightarrow> Running
      | Suc fuel \<Rightarrow>
        (case rd mem data of None \<Rightarrow> Fault
         | Some b \<Rightarrow>
             if b = 0 then
               if out \<noteq> [] then Done (length out - 1, butlast out @ [0]) else Done (0, out)
             else
               let data = data + 1; leeway = dst_len - length out in
               if data \<ge> fin then Done (0, out)
               else if b AND 0xC0 \<noteq> 0 then
                 (case rd mem data of None \<Rightarrow> Fault
                  | Some c \<Rightarrow>
                      let off = un16 (b AND NOT 0xC0) c in
                      if unat off \<ge> ms_len pkt then Done (0, out)
                      else dns_uncompress_loop fuel pkt (ms_p pkt + unat off) dst_len out)
               else
                 let chunk_len = (if unat b > leeway then leeway else unat b) in
                 if data + chunk_len \<ge> fin then Done (0, out)
                 else if length mem < data + chunk_len then Fault
                 else
                   let out = out @ bslice mem data chunk_len in
                   if leeway - chunk_len = 0 then Done (length out, out)
                   else dns_uncompress_loop fuel pkt (data + chunk_len) dst_len (out @ [dot])))"

declare dns_uncompress_loop.simps [simp del]

definition mg_dns_uncompress_name :: "nat \<Rightarrow> mg_dns_message \<Rightarrow> mg_str \<Rightarrow> nat \<Rightarrow> (nat \<times> bytes) run" where
  "mg_dns_uncompress_name fuel msg name dst_len =
     (if ms_p name \<ge> ms_p (dm_pkt msg) + ms_len (dm_pkt msg) then Done (0, [])
      else dns_uncompress_loop fuel (dm_pkt msg) (ms_p name) dst_len [])"

section \<open>Looking at records\<close>

text \<open>The next answer of a type; \<open>prev\<close> is an index into the answers.\<close>

definition mg_dns_next_record :: "mg_dns_message \<Rightarrow> int \<Rightarrow> nat option \<Rightarrow> nat option" where
  "mg_dns_next_record msg query prev =
     (let start = (case prev of None \<Rightarrow> 0 | Some i \<Rightarrow> i + 1)
      in List.find (\<lambda>i. rr_rtype (dm_answers msg ! i) = query) [start ..< dm_num_answers msg])"

text \<open>The value returned and the bytes stored to \<open>data\<close>.\<close>

definition mg_dns_parse_record_data ::
  "nat \<Rightarrow> mg_dns_message \<Rightarrow> mg_dns_resource_record \<Rightarrow> nat \<Rightarrow> (int \<times> bytes) run"
where
  "mg_dns_parse_record_data fuel msg rr data_len =
     (let d = rr_rdata rr in
      if rr_rtype rr = MG_DNS_A_RECORD then
        if data_len < 4 then Done (-1, [])
        else if ms_p d + data_len > ms_p (dm_pkt msg) + ms_len (dm_pkt msg) then Done (-1, [])
        else if length (ms_mem d) < ms_p d + data_len then Fault
        else Done (0, bslice (ms_mem d) (ms_p d) data_len)
      else if rr_rtype rr = MG_DNS_CNAME_RECORD then
        (case mg_dns_uncompress_name fuel msg d data_len of
           Done (_, out) \<Rightarrow> Done (0, out) | Fault \<Rightarrow> Fault | Running \<Rightarrow> Running)
      else Done (-1, []))"

section \<open>The protocol handler\<close>

definition dns_handler ::
  "io \<Rightarrow> (mg_dns_message, 'u) handler \<Rightarrow> mg_dns_message mg_event \<Rightarrow> 'u mg_connection \<Rightarrow> 'u mg_connection option"
where
  "dns_handler io h ev nc =
     (let nc = h ev nc in
      case ev of
        EvRecv _ \<Rightarrow> do {
          let nc = (if \<not> has_flag nc MG_F_UDP then nc\<lparr>nc_recv := mbuf_remove (nc_recv nc) 2\<rparr> else nc);
          (res, msg) \<leftarrow> mg_parse_dns (mb_mem (nc_recv nc)) (mb_len (nc_recv nc));
          nc \<leftarrow> (if res = -1 then do {
                    (_, b) \<leftarrow> mg_dns_insert_header (io_ra io) (nc_recv nc) 0 (dns_zero\<lparr>dm_flags := 0x8081\<rparr>);
                    b \<leftarrow> (if \<not> has_flag nc MG_F_UDP
                          then map_option snd (mbuf_insert (io_ra io) b 0 (Some (be16 (of_nat (mb_len b)))) 2)
                          else Some b);
                    Some (mg_send io (mbuf_bytes b) (nc\<lparr>nc_recv := b\<rparr>)) }
                  else Some (h (EvProto msg) nc));
          Some (nc\<lparr>nc_recv := mbuf_remove (nc_recv nc) (mb_len (nc_recv nc))\<rparr>) }
      | _ \<Rightarrow> Some nc)"

section \<open>Replies\<close>

record mg_dns_reply =
  rep_msg :: mg_dns_message
  rep_io :: mbuf
  rep_start :: nat

definition mg_dns_create_reply :: "realloc \<Rightarrow> mbuf \<Rightarrow> mg_dns_message \<Rightarrow> mg_dns_reply option" where
  "mg_dns_create_reply ra io msg = do {
     let msg = msg\<lparr>dm_flags := dm_flags msg OR 0x8080\<rparr>;
     (_, io') \<leftarrow> mg_dns_copy_questions ra io msg;
     Some \<lparr>rep_msg = msg\<lparr>dm_num_answers := 0\<rparr>, rep_io = io', rep_start = mb_len io\<rparr> }"

text \<open>Sending a reply from a buffer of its own; its length is reset to the start.\<close>

definition mg_dns_send_reply :: "io \<Rightarrow> 'u mg_connection \<Rightarrow> mg_dns_reply \<Rightarrow> ('u mg_connection \<times> mg_dns_reply) option" where
  "mg_dns_send_reply io nc r = do {
     let sent = mb_len (rep_io r) - rep_start r;
     (_, b) \<leftarrow> mg_dns_insert_header (io_ra io) (rep_io r) (rep_start r) (rep_msg r);
     b \<leftarrow> (if \<not> has_flag nc MG_F_UDP
           then map_option snd (mbuf_insert (io_ra io) b (rep_start r) (Some (be16 (of_nat sent))) 2)
           else Some b);
     Some (mg_send io (drop (rep_start r) (mbuf_bytes b)) nc, r\<lparr>rep_io := b\<lparr>mb_len := rep_start r\<rparr>\<rparr>) }"

text \<open>The reply's name is the caller's, or the question's, expanded into a stack buffer that held
  \<open>stack\<close>.\<close>

definition mg_dns_reply_record ::
  "nat \<Rightarrow> realloc \<Rightarrow> mg_dns_reply \<Rightarrow> mg_dns_resource_record \<Rightarrow> bytes option \<Rightarrow> int \<Rightarrow> int \<Rightarrow> bytes \<Rightarrow> nat \<Rightarrow> bytes \<Rightarrow>
     (int \<times> mg_dns_reply) option"
where
  "mg_dns_reply_record fuel ra reply question name rtype ttl rdata rdata_len stack =
     (let msg = rep_msg reply in
      if dm_num_answers msg \<ge> MG_MAX_DNS_ANSWERS then Some (-1, reply)
      else do {
        name \<leftarrow> (case name of Some n \<Rightarrow> Some n
                 | None \<Rightarrow>
                     (case mg_dns_uncompress_name fuel msg (rr_name question) 511 of
                        Done (_, out) \<Rightarrow> Some (overlay (take 511 stack @ [0]) 0 out) | _ \<Rightarrow> None));
        let ans = question\<lparr>rr_kind := MG_DNS_ANSWER, rr_rtype := rtype, rr_ttl := ttl\<rparr>;
        let msg = msg\<lparr>dm_answers := (dm_answers msg)[dm_num_answers msg := ans]\<rparr>;
        nlen \<leftarrow> c_strlen name;
        (n, io) \<leftarrow> mg_dns_encode_record ra (rep_io reply) ans name nlen rdata rdata_len;
        if n = -1 then Some (-1, reply\<lparr>rep_msg := msg, rep_io := io\<rparr>)
        else Some (0, reply\<lparr>rep_msg := msg\<lparr>dm_num_answers := dm_num_answers msg + 1\<rparr>, rep_io := io\<rparr>) })"

section \<open>Reading stays in bounds\<close>

lemma dns_skip_name_total:
  "fin \<le> length mem \<Longrightarrow> \<exists>d. dns_skip_name mem fin data = Some d \<and> data \<le> d"
proof (induction mem fin data rule: dns_skip_name.induct)
  case (1 mem fin data)
  show ?case
  proof (cases "data < fin")
    case True
    then have r: "rd mem data = Some (mem ! data)" using 1(2) by (simp add: rd_def)
    show ?thesis
      using 1(1) [OF True r] 1(2) True r
      by (subst dns_skip_name.simps) (force simp del: dns_skip_name.simps)
  next
    case False
    then show ?thesis by (subst dns_skip_name.simps) simp
  qed
qed

lemma rd16_in: "p + 2 \<le> length mem \<Longrightarrow> \<exists>w. rd16 mem p = Some w"
  by (simp add: rd16_def rd_def)

lemma rd32_in: "p + 4 \<le> length mem \<Longrightarrow> \<exists>w. rd32 mem p = Some w"
  by (simp add: rd32_def rd_def)

lemma parse_record_total:
  assumes "fin \<le> length mem"
  shows "\<exists>d r. mg_parse_dns_resource_record mem fin name rr reply = Some (d, r)"
proof -
  obtain d where d: "dns_skip_name mem fin name = Some d" using dns_skip_name_total [OF assms] by blast
  show ?thesis
  proof (cases "d + 5 > fin")
    case True
    then show ?thesis by (simp add: mg_parse_dns_resource_record_def d)
  next
    case False
    obtain t c where "rd16 mem (d + 1) = Some t" "rd16 mem (d + 3) = Some c"
      using rd16_in [of "d + 1" mem] rd16_in [of "d + 3" mem] False assms by auto
    moreover have "\<exists>x y. rd32 mem (d + 5) = Some x \<and> rd16 mem (d + 5 + 4) = Some y" if "\<not> d + 5 + 6 \<ge> fin"
      using rd32_in [of "d + 5" mem] rd16_in [of "d + 5 + 4" mem] that assms by auto
    ultimately show ?thesis
      by (cases "d + 5 + 6 \<ge> fin"; cases reply) (auto simp: mg_parse_dns_resource_record_def d False Let_def)
  qed
qed

lemma parse_records_total:
  "fin \<le> length mem \<Longrightarrow> i + n \<le> length rrs \<Longrightarrow>
    \<exists>d rs. dns_parse_records mem fin reply n i data rrs = Some (d, rs) \<and> length rs = length rrs"
proof (induction n arbitrary: i data rrs)
  case (Suc n)
  obtain d r where p: "mg_parse_dns_resource_record mem fin data (rrs ! i) reply = Some (d, r)"
    using parse_record_total [OF Suc.prems(1)] by blast
  from Suc.IH [OF Suc.prems(1), of "i + 1" "rrs[i := r]"] Suc.prems(2)
  show ?case by (cases d) (auto simp: p)
qed simp

lemma dns_parse_total:
  assumes "len \<le> length mem"
  shows "\<exists>r m. mg_parse_dns mem len = Some (r, m) \<and> (r = 0 \<or> r = -1) \<and>
    dm_num_questions m \<le> length (dm_questions m) \<and> dm_num_answers m \<le> length (dm_answers m) \<and>
    dm_pkt m = \<lparr>ms_mem = mem, ms_p = 0, ms_len = len\<rparr>"
proof (cases "len < 12")
  case True
  then show ?thesis by (simp add: mg_parse_dns_def dns_zero_def)
next
  case False
  have t: "rd mem 0 = Some (mem ! 0)" "rd mem 1 = Some (mem ! 1)" using False assms by (auto simp: rd_def)
  obtain fl nq na where w: "rd16 mem 2 = Some fl" "rd16 mem 4 = Some nq" "rd16 mem 6 = Some na"
    using rd16_in [of 2 mem] rd16_in [of 4 mem] rd16_in [of 6 mem] False assms by auto
  have c: "dns_clip x 32 \<le> 32" for x by (simp add: dns_clip_def)
  let ?z = "replicate 32 rr_zero"
  obtain d qs where q: "dns_parse_records mem len False (dns_clip nq 32) 0 12 ?z = Some (d, qs)" "length qs = 32"
    using parse_records_total [OF assms, of 0 "dns_clip nq 32" ?z False 12] c by auto
  show ?thesis
  proof (cases d)
    case None
    then show ?thesis
      using False t w q c [of nq] c [of na]
      by (simp add: mg_parse_dns_def Let_def dns_zero_def MG_MAX_DNS_QUESTIONS_def MG_MAX_DNS_ANSWERS_def)
  next
    case (Some d')
    obtain e as where a: "dns_parse_records mem len True (dns_clip na 32) 0 d' ?z = Some (e, as)" "length as = 32"
      using parse_records_total [OF assms, of 0 "dns_clip na 32" ?z True d'] c by auto
    show ?thesis
      using False t w q a Some c [of nq] c [of na]
      by (simp add: mg_parse_dns_def Let_def dns_zero_def MG_MAX_DNS_QUESTIONS_def MG_MAX_DNS_ANSWERS_def split: option.split)
  qed
qed

text \<open>Expanding a name inside a packet that lies inside its memory.\<close>

lemma uncompress_loop_bounds:
  assumes pkt: "ms_p pkt + ms_len pkt \<le> length (ms_mem pkt)"
  shows "data < ms_p pkt + ms_len pkt \<Longrightarrow> length out \<le> dst_len \<Longrightarrow>
    dns_uncompress_loop fuel pkt data dst_len out \<noteq> Fault \<and>
    (\<forall>r w. dns_uncompress_loop fuel pkt data dst_len out = Done (r, w) \<longrightarrow> r \<le> dst_len \<and> length w \<le> dst_len)"
proof (induction fuel arbitrary: data out)
  case 0
  show ?case by (subst (1 2) dns_uncompress_loop.simps) simp
next
  case (Suc fuel)
  let ?mem = "ms_mem pkt" and ?fin = "ms_p pkt + ms_len pkt"
  have r: "rd ?mem data = Some (?mem ! data)" using Suc.prems(1) pkt by (simp add: rd_def)
  let ?b = "?mem ! data" and ?d = "data + 1"
  consider (fin) "?b = 0" | (stop) "?b \<noteq> 0" "?d \<ge> ?fin" | (ptr) "?b \<noteq> 0" "?d < ?fin" "?b AND 0xC0 \<noteq> 0"
    | (lab) "?b \<noteq> 0" "?d < ?fin" "?b AND 0xC0 = 0" by linarith
  then show ?case
  proof cases
    case fin
    then show ?thesis using Suc.prems(2) by (subst (1 2) dns_uncompress_loop.simps) (auto simp: r Let_def)
  next
    case stop
    then show ?thesis using Suc.prems(2) by (subst (1 2) dns_uncompress_loop.simps) (auto simp: r Let_def)
  next
    case ptr
    have "rd ?mem ?d = Some (?mem ! ?d)" using ptr(2) pkt by (simp add: rd_def)
    then have e: "dns_uncompress_loop (Suc fuel) pkt data dst_len out =
        (let off = un16 (?b AND NOT 0xC0) (?mem ! ?d) in
         if unat off \<ge> ms_len pkt then Done (0, out)
         else dns_uncompress_loop fuel pkt (ms_p pkt + unat off) dst_len out)"
      using ptr by (subst dns_uncompress_loop.simps) (simp add: r Let_def not_le)
    show ?thesis
      unfolding e Let_def
      using Suc.IH [OF _ Suc.prems(2), of "ms_p pkt + unat (un16 (?b AND NOT 0xC0) (?mem ! ?d))"] Suc.prems(2)
      by simp
  next
    case lab
    let ?leeway = "dst_len - length out"
    let ?k = "if unat ?b > ?leeway then ?leeway else unat ?b"
    have k: "?k \<le> ?leeway" by simp
    show ?thesis
    proof (cases "?d + ?k \<ge> ?fin")
      case True
      then show ?thesis using lab Suc.prems(2) by (subst (1 2) dns_uncompress_loop.simps) (simp add: r Let_def)
    next
      case False
      let ?out = "out @ bslice ?mem ?d ?k"
      have m: "\<not> length ?mem < ?d + ?k" using False pkt by simp
      have l: "length ?out = length out + ?k" using m by (simp add: bslice_def)
      show ?thesis
      proof (cases "?leeway - ?k = 0")
        case True
        then have "dns_uncompress_loop (Suc fuel) pkt data dst_len out = Done (length ?out, ?out)"
          using lab False m by (subst dns_uncompress_loop.simps) (simp add: r Let_def)
        then show ?thesis using l k Suc.prems(2) by simp
      next
        case more: False
        then have e: "dns_uncompress_loop (Suc fuel) pkt data dst_len out =
            dns_uncompress_loop fuel pkt (?d + ?k) dst_len (?out @ [dot])"
          using lab False m by (subst dns_uncompress_loop.simps) (simp add: r Let_def)
        have o: "length (?out @ [dot]) \<le> dst_len" using l more Suc.prems(2) by simp
        have "?d + ?k < ?fin" using False by (simp only: not_le)
        then show ?thesis unfolding e using o by (rule Suc.IH)
      qed
    qed
  qed
qed

text \<open>A name that points at itself: expanding it never ends.\<close>

definition self_pointer :: mg_str where
  "self_pointer = \<lparr>ms_mem = replicate 12 0 @ [0xC0, 12, 0, 1, 0, 1], ms_p = 0, ms_len = 18\<rparr>"

lemma dns_uncompress_diverges: "dns_uncompress_loop fuel self_pointer 12 dst_len [] = Running"
proof (induction fuel)
  case 0
  show ?case by (subst dns_uncompress_loop.simps) simp
next
  case (Suc fuel)
  have r: "rd (ms_mem self_pointer) 12 = Some 0xC0" "rd (ms_mem self_pointer) 13 = Some 12"
    by (simp_all add: rd_def self_pointer_def nth_append)
  have o: "unat (un16 0 12) = 12" "(0xC0 :: u8) AND 0xC0 \<noteq> 0" by (simp_all add: un16_def)
  have s: "ms_p self_pointer = 0" "ms_len self_pointer = 18" by (simp_all add: self_pointer_def)
  show ?case
    by (subst dns_uncompress_loop.simps) (simp add: r o s Let_def Suc)
qed

section \<open>Names on the wire\<close>

definition label_ok :: "bytes \<Rightarrow> bool" where
  "label_ok l \<longleftrightarrow> l \<noteq> [] \<and> length l \<le> 63 \<and> 0 \<notin> set l \<and> dot \<notin> set l"

fun host_name :: "bytes list \<Rightarrow> bytes" where
  "host_name [] = []"
| "host_name [l] = l"
| "host_name (l # ls) = l @ [dot] @ host_name ls"

definition label_bytes :: "bytes \<Rightarrow> bytes" where
  "label_bytes l = of_nat (length l) # l"

definition wire_name :: "bytes list \<Rightarrow> bytes" where
  "wire_name ls = concat (map label_bytes ls) @ [0]"

lemma strchr_hit: "0 \<notin> set l \<Longrightarrow> c \<notin> set l \<Longrightarrow> c_strchr (l @ c # r) c = Some (Some (length l))"
  by (induction l) auto

lemma strchr_miss: "0 \<notin> set l \<Longrightarrow> c \<notin> set l \<Longrightarrow> c \<noteq> 0 \<Longrightarrow> c_strchr (l @ 0 # r) c = Some None"
  by (induction l) auto

lemma dot_not_0 [simp]: "dot \<noteq> 0" by (simp add: dot_def)

lemma has_pushed:
  assumes "reliable K ra" and "mbuf_has (Some io) bs" and "mbuf_grow (length bs + length b) \<le> K"
  obtains io' where "mbuf_push ra (Some io) b = Some io'" and "mbuf_has (Some io') (bs @ b)"
  using mbuf_has_push [OF assms] by (auto simp: mbuf_has_def)

text \<open>One turn of the encoder.\<close>

lemma encode_step:
  assumes rel: "reliable K ra" and has: "mbuf_has (Some io) bs" and lab: "label_ok l"
    and d: "drop p mem = l @ c # r" and c: "c = dot \<or> c = 0 \<and> len = length l"
    and fits: "mbuf_grow (length bs + length l + 2) \<le> K"
  obtains io' where "mbuf_has (Some io') (bs @ label_bytes l)"
    and "dns_encode_loop ra mem p len io =
      (if c \<noteq> 0 then dns_encode_loop ra mem (p + length l + 1) (nat ((int len - int (length l + 1)) mod 2 ^ 64)) io'
       else do { io \<leftarrow> mbuf_push ra (Some io') [0]; Some (True, io) })"
proof -
  have l: "l \<noteq> []" "length l \<le> 63" "0 \<notin> set l" "dot \<notin> set l" using lab by (simp_all add: label_ok_def)
  have k: "(case c_strchr (drop p mem) dot of Some f \<Rightarrow> (case f of None \<Rightarrow> len | Some i \<Rightarrow> i) | None \<Rightarrow> 0) = length l"
    and f: "\<exists>f. c_strchr (drop p mem) dot = Some f"
    using strchr_hit [OF l(3,4)] strchr_miss [OF l(3,4) dot_not_0] c d by auto
  then obtain f where f: "c_strchr (drop p mem) dot = Some f" "(case f of None \<Rightarrow> len | Some i \<Rightarrow> i) = length l" by auto
  have g: "mbuf_grow (length bs + length [of_nat (length l) :: u8]) \<le> K"
    using order_trans [OF mbuf_grow_mono fits] by simp
  obtain io1 where 1: "mbuf_push ra (Some io) [of_nat (length l)] = Some io1" "mbuf_has (Some io1) (bs @ [of_nat (length l)])"
    using has_pushed [OF rel has g] .
  have g2: "mbuf_grow (length (bs @ [of_nat (length l)]) + length l) \<le> K"
    using order_trans [OF mbuf_grow_mono fits, of "length bs + 1 + length l"] by simp
  obtain io2 where 2: "mbuf_push ra (Some io1) l = Some io2" "mbuf_has (Some io2) ((bs @ [of_nat (length l)]) @ l)"
    using has_pushed [OF rel 1(2) g2] .
  have s: "bslice mem p (length l) = l" using bslice_ahead [OF d refl] .
  have "drop (p + length l) mem = c # r" using drop_past [OF d refl] .
  then have rc: "rd mem (p + length l) = Some c" by (rule rd_ahead)
  have fit: "\<not> p + length l > length mem" using ahead_fits [OF d l(1)] by simp
  show ?thesis
  proof (rule that [of io2])
    show "mbuf_has (Some io2) (bs @ label_bytes l)" using 2(2) by (simp add: label_bytes_def)
    show "dns_encode_loop ra mem p len io =
      (if c \<noteq> 0 then dns_encode_loop ra mem (p + length l + 1) (nat ((int len - int (length l + 1)) mod 2 ^ 64)) io2
       else do { io \<leftarrow> mbuf_push ra (Some io2) [0]; Some (True, io) })"
      using f l(2) 1(1) 2(1) c fit
      by (subst dns_encode_loop.simps) (auto simp: Let_def s rc add.assoc)
  qed
qed

lemma encode_name_loop:
  assumes rel: "reliable K ra"
  shows "ls \<noteq> [] \<Longrightarrow> \<forall>l \<in> set ls. label_ok l \<Longrightarrow> drop p mem = host_name ls @ 0 # r \<Longrightarrow> len = length (host_name ls) \<Longrightarrow>
    len < 2 ^ 63 \<Longrightarrow> mbuf_has (Some io) bs \<Longrightarrow> mbuf_grow (length bs + length (wire_name ls)) \<le> K \<Longrightarrow>
    \<exists>io'. dns_encode_loop ra mem p len io = Some (True, io') \<and> mbuf_has (Some io') (bs @ wire_name ls)"
proof (induction ls arbitrary: p len io bs rule: host_name.induct)
  case (2 l)
  have lab: "label_ok l" using 2(2) by simp
  have d: "drop p mem = l @ 0 # r" using 2(3) by simp
  have "mbuf_grow (length bs + length l + 2) \<le> K" using 2(7) by (simp add: wire_name_def label_bytes_def)
  then obtain io1 where 1: "mbuf_has (Some io1) (bs @ label_bytes l)"
      "dns_encode_loop ra mem p len io = do { io \<leftarrow> mbuf_push ra (Some io1) [0]; Some (True, io) }"
    using encode_step [OF rel 2(6) lab d, of len] 2(4) by auto
  have "mbuf_grow (length (bs @ label_bytes l) + length [0 :: u8]) \<le> K" using 2(7) by (simp add: wire_name_def add.assoc)
  from has_pushed [OF rel 1(1) this] obtain io2 where
    "mbuf_push ra (Some io1) [0] = Some io2" "mbuf_has (Some io2) ((bs @ label_bytes l) @ [0])" .
  then show ?case by (simp add: 1(2) wire_name_def)
next
  case (3 l l' ls)
  let ?ls = "l' # ls"
  have lab: "label_ok l" "\<forall>l \<in> set ?ls. label_ok l" using 3(3) by simp_all
  have d: "drop p mem = l @ dot # (host_name ?ls @ 0 # r)" using 3(4) by simp
  have w: "wire_name (l # ?ls) = label_bytes l @ wire_name ?ls" by (simp add: wire_name_def)
  have len: "nat ((int len - int (length l + 1)) mod 2 ^ 64) = length (host_name ?ls)"
    using 3(5,6) by simp
  have "mbuf_grow (length bs + length l + 2) \<le> K"
    by (rule order_trans [OF mbuf_grow_mono 3(8)]) (simp add: w label_bytes_def wire_name_def)
  then obtain io1 where 1: "mbuf_has (Some io1) (bs @ label_bytes l)"
      "dns_encode_loop ra mem p len io = dns_encode_loop ra mem (p + length l + 1) (length (host_name ?ls)) io1"
    using encode_step [OF rel 3(7) lab(1) d, of len] len by auto
  have d': "drop (p + length l + 1) mem = host_name ?ls @ 0 # r"
    using drop_past [of p mem "l @ [dot]" "host_name ?ls @ 0 # r" "length l + 1"] d by (simp add: add.assoc)
  have "length (host_name ?ls) < 2 ^ 63" using 3(5,6) by simp
  moreover have "mbuf_grow (length (bs @ label_bytes l) + length (wire_name ?ls)) \<le> K" using 3(8) by (simp add: w add.assoc)
  ultimately show ?case
    using "3.IH" [OF _ lab(2) d' refl _ 1(1)] by (simp add: 1(2) w)
qed simp

lemma label_len:
  assumes "label_ok l"
  shows "(of_nat (length l) :: u8) \<noteq> 0" and "(of_nat (length l) :: u8) AND 0xC0 = 0"
    and "unat (of_nat (length l) :: u8) = length l"
proof -
  have l: "0 < length l" "length l \<le> 63" using assms by (auto simp: label_ok_def)
  show u: "unat (of_nat (length l) :: u8) = length l" using l by (simp add: unat_of_nat take_bit_nat_eq_self)
  then show "(of_nat (length l) :: u8) \<noteq> 0" using l by auto
  have t: "(of_nat (length l) :: u8) = take_bit 6 (of_nat (length l))"
    using l by (simp add: take_bit_of_nat take_bit_nat_eq_self)
  have "(take_bit 6 x) AND 0xC0 = 0" for x :: u8 by (rule u8_eqI) (simp_all add: bit_simps)
  with t show "(of_nat (length l) :: u8) AND 0xC0 = 0" by metis
qed

lemma skip_name_wire:
  "\<forall>l \<in> set ls. label_ok l \<Longrightarrow> drop p mem = wire_name ls @ r \<Longrightarrow> p + length (wire_name ls) \<le> fin \<Longrightarrow>
    dns_skip_name mem fin p = Some (p + length (wire_name ls) - 1)"
proof (induction ls arbitrary: p)
  case Nil
  then have "rd mem p = Some 0" "p < fin" using rd_ahead [of p mem 0 r] by (simp_all add: wire_name_def)
  then show ?case by (subst dns_skip_name.simps) (simp add: wire_name_def)
next
  case (Cons l ls)
  have lab: "label_ok l" using Cons.prems(1) by simp
  note ll = label_len [OF lab]
  have w: "wire_name (l # ls) = label_bytes l @ wire_name ls" by (simp add: wire_name_def)
  have "drop p mem = of_nat (length l) # l @ wire_name ls @ r" using Cons.prems(2) by (simp add: w label_bytes_def)
  then have rd: "rd mem p = Some (of_nat (length l))" by (rule rd_ahead)
  have lt: "p < fin" using Cons.prems(3) by (simp add: w label_bytes_def)
  have d: "drop (p + (length l + 1)) mem = wire_name ls @ r"
    using drop_past [of p mem "label_bytes l" "wire_name ls @ r" "length l + 1"] Cons.prems(2) by (simp add: w label_bytes_def)
  have IH: "dns_skip_name mem fin (p + (length l + 1)) = Some (p + (length l + 1) + length (wire_name ls) - 1)"
    using Cons.IH [OF _ d] Cons.prems(1,3) by (simp add: w label_bytes_def)
  have "0 < length (wire_name ls)" by (simp add: wire_name_def)
  then show ?case using IH ll lt rd
    by (subst dns_skip_name.simps) (simp add: w label_bytes_def add.assoc)
qed

lemma host_name_step: "ls \<noteq> [] \<Longrightarrow> host_name (l # ls) = l @ [dot] @ host_name ls"
  by (cases ls) simp_all

text \<open>What the expansion has written after some labels: each with its dot.\<close>

definition dotted :: "bytes list \<Rightarrow> bytes" where
  "dotted ls = concat (map (\<lambda>l. l @ [dot]) ls)"

lemma dotted_host: "ls \<noteq> [] \<Longrightarrow> dotted ls = host_name ls @ [dot]"
  by (induction ls rule: host_name.induct) (simp_all add: dotted_def)

lemma uncompress_wire:
  "\<forall>l \<in> set ls. label_ok l \<Longrightarrow> drop p (ms_mem pkt) = wire_name ls @ r \<Longrightarrow>
    p + length (wire_name ls) \<le> ms_p pkt + ms_len pkt \<Longrightarrow> length out + length (dotted ls) \<le> dst_len \<Longrightarrow>
    length ls < fuel \<Longrightarrow>
    dns_uncompress_loop fuel pkt p dst_len out =
      (if out @ dotted ls \<noteq> [] then Done (length (out @ dotted ls) - 1, butlast (out @ dotted ls) @ [0]) else Done (0, []))"
proof (induction ls arbitrary: p out fuel)
  case Nil
  then have "rd (ms_mem pkt) p = Some 0" using rd_ahead [of p "ms_mem pkt" 0 r] by (simp add: wire_name_def)
  moreover obtain f where "fuel = Suc f" using Nil.prems(5) by (cases fuel) auto
  ultimately show ?case by (subst dns_uncompress_loop.simps) (simp add: Let_def dotted_def)
next
  case (Cons l ls)
  obtain f where f: "fuel = Suc f" "length ls < f" using Cons.prems(5) by (cases fuel) auto
  have lab: "label_ok l" using Cons.prems(1) by simp
  note ll = label_len [OF lab]
  have w: "wire_name (l # ls) = label_bytes l @ wire_name ls" by (simp add: wire_name_def)
  have pos: "0 < length (wire_name ls)" by (simp add: wire_name_def)
  have d0: "drop p (ms_mem pkt) = of_nat (length l) # l @ wire_name ls @ r" using Cons.prems(2) by (simp add: w label_bytes_def)
  then have rd: "rd (ms_mem pkt) p = Some (of_nat (length l))" by (rule rd_ahead)
  have d1: "drop (p + 1) (ms_mem pkt) = l @ wire_name ls @ r"
    using drop_past [of p "ms_mem pkt" "[of_nat (length l)]" _ 1] d0 by simp
  have d2: "drop (p + 1 + length l) (ms_mem pkt) = wire_name ls @ r" using drop_past [OF d1 refl] .
  have sl: "bslice (ms_mem pkt) (p + 1) (length l) = l" using bslice_ahead [OF d1 refl] .
  have dl: "length (dotted (l # ls)) = length l + 1 + length (dotted ls)" by (simp add: dotted_def)
  have fit: "p + 1 + length l < ms_p pkt + ms_len pkt" 
    using Cons.prems(3) pos by (simp add: w label_bytes_def del: length_greater_0_conv)
  have mem: "\<not> length (ms_mem pkt) < p + 1 + length l" using d2 pos by (metis Nil_is_append_conv drop_eq_Nil length_greater_0_conv less_imp_le_nat)
  have lee: "\<not> length l > dst_len - length out" "dst_len - length out - length l \<noteq> 0" using Cons.prems(4) dl by simp_all
  have e: "dns_uncompress_loop fuel pkt p dst_len out =
      dns_uncompress_loop f pkt (p + 1 + length l) dst_len ((out @ l) @ [dot])"
    using fit mem lee sl ll rd by (subst dns_uncompress_loop.simps) (simp add: f(1) Let_def)
  have "dns_uncompress_loop f pkt (p + 1 + length l) dst_len ((out @ l) @ [dot]) =
      (if ((out @ l) @ [dot]) @ dotted ls \<noteq> [] then Done (length (((out @ l) @ [dot]) @ dotted ls) - 1,
         butlast (((out @ l) @ [dot]) @ dotted ls) @ [0]) else Done (0, []))"
  proof (rule Cons.IH [OF _ d2 _ _ f(2)])
    show "\<forall>l \<in> set ls. label_ok l" using Cons.prems(1) by simp
    show "p + 1 + length l + length (wire_name ls) \<le> ms_p pkt + ms_len pkt"
      using Cons.prems(3) by (simp add: w label_bytes_def)
    show "length ((out @ l) @ [dot]) + length (dotted ls) \<le> dst_len" using Cons.prems(4) dl by simp
  qed
  then show ?case unfolding e by (simp add: dotted_def)
qed

text \<open>A name on the wire expands to the host name.\<close>

lemma uncompress_host:
  assumes "ls \<noteq> []" and "\<forall>l \<in> set ls. label_ok l" and "drop (ms_p name) (ms_mem (dm_pkt msg)) = wire_name ls @ r"
    and "ms_p name + length (wire_name ls) \<le> ms_p (dm_pkt msg) + ms_len (dm_pkt msg)"
    and "length (host_name ls) < dst_len" and "length ls < fuel"
  shows "mg_dns_uncompress_name fuel msg name dst_len = Done (length (host_name ls), host_name ls @ [0])"
proof -
  have "0 < length (wire_name ls)" by (simp add: wire_name_def)
  then have n: "\<not> ms_p name \<ge> ms_p (dm_pkt msg) + ms_len (dm_pkt msg)" using assms(4) by linarith
  have "length [] + length (dotted ls) \<le> dst_len" using assms(5) by (simp add: dotted_host [OF assms(1)])
  from uncompress_wire [OF assms(2,3,4) this assms(6)] n show ?thesis
    by (simp add: mg_dns_uncompress_name_def dotted_host [OF assms(1)])
qed

section \<open>Queries\<close>

definition query_bytes :: "u16 \<Rightarrow> bytes list \<Rightarrow> u16 \<Rightarrow> bytes" where
  "query_bytes tid ls t =
     rev (be16 tid) @ be16 0x100 @ be16 1 @ be16 0 @ [0, 0, 0, 0] @ wire_name ls @ be16 t @ be16 1"

lemma strlen_host: "0 \<notin> set s \<Longrightarrow> c_strlen (s @ 0 # r) = Some (length s)"
  by (induction s) auto

lemma host_no_nul: "\<forall>l \<in> set ls. label_ok l \<Longrightarrow> 0 \<notin> set (host_name ls)"
  by (induction ls rule: host_name.induct) (auto simp: label_ok_def)

lemma init_has:
  assumes "reliable K ra"
  shows "mbuf_has (Some (mbuf_init ra n)) []"
proof -
  have "realloc_ok ra" using assms by (simp add: reliable_def)
  from mbuf_resize_inv [OF this empty_mbuf_inv(1), of n] show ?thesis
    by (simp add: mbuf_has_def mbuf_init_def empty_mbuf_def [symmetric])
qed

lemma insert_front:
  assumes rel: "reliable K ra" and has: "mbuf_has (Some m) bs" and fits: "mbuf_grow (length bs + length b) \<le> K"
  obtains m' where "mbuf_insert ra m 0 (Some b) (length b) = Some (length b, m')" and "mbuf_has (Some m') (b @ bs)"
proof -
  have m: "mbuf_inv m" "mbuf_bytes m = bs" using has by (simp_all add: mbuf_has_def)
  then have "mb_len m = length bs" using length_mbuf_bytes by metis
  with mbuf_insert_reliable [OF rel m(1), of 0 b] fits m(2) that show ?thesis by (auto simp: mbuf_has_def)
qed

lemma has_bytes: "mbuf_has (Some m) bs \<Longrightarrow> mbuf_bytes m = bs"
  by (simp add: mbuf_has_def)

lemma length_wire_name: "ls \<noteq> [] \<Longrightarrow> length (wire_name ls) = length (host_name ls) + 2"
proof (induction ls rule: host_name.induct)
  case (3 l l' ls)
  then show ?case by (simp add: wire_name_def label_bytes_def)
qed (simp_all add: wire_name_def label_bytes_def)

lemma query_sends:
  assumes rel: "reliable K (io_ra io)" and q: "outq nc a" and udp: "has_flag nc MG_F_UDP"
    and ls: "ls \<noteq> []" "\<forall>l \<in> set ls. label_ok l" and len: "length (host_name ls) < 2 ^ 30"
    and fits: "mbuf_grow (length a + length (wire_name ls) + 16) \<le> K"
  obtains nc' where "mg_send_dns_query io tid (host_name ls @ [0]) t nc = Some (tid + 1, nc')"
    and "outq nc' (a @ query_bytes (word_of_int (tid + 1)) ls (word_of_int t))"
proof -
  let ?msg = "dns_zero\<lparr>dm_transaction_id := word_of_int (tid + 1), dm_flags := 0x100, dm_num_questions := 1\<rparr>"
  let ?h = "dns_header_bytes ?msg"
  have h: "length ?h = 12" by (simp add: dns_header_bytes_def)
  have fit: "mbuf_grow n \<le> K" if "n \<le> length a + length (wire_name ls) + 16" for n
    using order_trans [OF mbuf_grow_mono [OF that] fits] .
  obtain m1 where 1: "mbuf_insert (io_ra io) (mbuf_init (io_ra io) 64) 0 (Some ?h) 12 = Some (12, m1)" "mbuf_has (Some m1) ?h"
    using insert_front [OF rel init_has [OF rel], of ?h 64] fit [of 12] h by auto
  have nul: "c_strlen (host_name ls @ [0]) = Some (length (host_name ls))" using strlen_host [OF host_no_nul [OF ls(2)]] .
  have "mbuf_grow (length ?h + length (wire_name ls)) \<le> K" using fit h by simp
  then obtain m2 where 2: "dns_encode_loop (io_ra io) (host_name ls @ [0]) 0 (length (host_name ls)) m1 = Some (True, m2)"
      "mbuf_has (Some m2) (?h @ wire_name ls)"
    using encode_name_loop [OF rel ls, of 0 "host_name ls @ [0]" "[]" "length (host_name ls)" m1 ?h] 1(2) len by fastforce
  have g: "mbuf_grow (length (?h @ wire_name ls) + length (be16 (word_of_int t))) \<le> K"
    "mbuf_grow (length ((?h @ wire_name ls) @ be16 (word_of_int t)) + length (be16 1)) \<le> K" using fit h by simp_all
  obtain m3 where 3: "mbuf_push (io_ra io) (Some m2) (be16 (word_of_int t)) = Some m3"
      "mbuf_has (Some m3) ((?h @ wire_name ls) @ be16 (word_of_int t))" using has_pushed [OF rel 2(2) g(1)] .
  obtain m4 where 4: "mbuf_push (io_ra io) (Some m3) (be16 1) = Some m4"
      "mbuf_has (Some m4) (((?h @ wire_name ls) @ be16 (word_of_int t)) @ be16 1)" using has_pushed [OF rel 3(2) g(2)] .
  have b: "mbuf_bytes m4 = query_bytes (word_of_int (tid + 1)) ls (word_of_int t)"
    using has_bytes [OF 4(2)] by (simp add: query_bytes_def dns_header_bytes_def dns_zero_def)
  have lens: "int (mb_len m2) - int (mb_len m1) \<noteq> -1"
    using 1(2) 2(2) length_mbuf_bytes [of m1] length_mbuf_bytes [of m2] by (simp add: mbuf_has_def)
  have lens': "int (mb_len m4) - int (mb_len m1) \<noteq> -1"
    using 1(2) 4(2) length_mbuf_bytes [of m1] length_mbuf_bytes [of m4] by (simp add: mbuf_has_def)
  let ?rr = "rr_zero\<lparr>rr_rtype := t, rr_rclass := 1, rr_kind := MG_DNS_QUESTION\<rparr>"
  have E: "mg_dns_encode_record (io_ra io) m1 ?rr (host_name ls @ [0]) (length (host_name ls)) [] 0 =
      Some (int (mb_len m4) - int (mb_len m1), m4)"
    using lens by (simp add: mg_dns_encode_record_def mg_dns_encode_name_def 2(1) 3(1) 4(1))
  have e: "mg_send_dns_query io tid (host_name ls @ [0]) t nc = Some (tid + 1, mg_send io (mbuf_bytes m4) nc)"
    unfolding mg_send_dns_query_def Let_def mg_dns_insert_header_def 1(1) Option.bind.bind_lunit prod.case nul E
    using udp lens' by simp
  have "outq (mg_send io (mbuf_bytes m4) nc) (a @ mbuf_bytes m4)"
  proof (rule outq_send [OF rel q])
    have "length (mbuf_bytes m4) = length (wire_name ls) + 16" by (simp add: b query_bytes_def)
    then show "mbuf_grow (length (a @ mbuf_bytes m4)) \<le> K" and "length (mbuf_bytes m4) < 2 ^ 31"
      using fit len length_wire_name [OF ls(1)] by simp_all
  qed
  with that e show ?thesis unfolding b by blast
qed

text \<open>The receiver's view of a query.\<close>

lemma query_parses:
  assumes mem: "mem = query_bytes tid ls t @ r" and ls: "ls \<noteq> []" "\<forall>l \<in> set ls. label_ok l"
  obtains m where "mg_parse_dns mem (length (query_bytes tid ls t)) = Some (0, m)"
    and "dm_transaction_id m = tid" and "dm_flags m = 0x100" and "dm_num_questions m = 1" and "dm_num_answers m = 0"
    and "rr_rtype (dm_questions m ! 0) = uint t" and "rr_rclass (dm_questions m ! 0) = 1"
    and "rr_kind (dm_questions m ! 0) = MG_DNS_QUESTION"
    and "dm_pkt m = \<lparr>ms_mem = mem, ms_p = 0, ms_len = length (query_bytes tid ls t)\<rparr>"
    and "ms_p (rr_name (dm_questions m ! 0)) = 12"
proof -
  let ?len = "length (query_bytes tid ls t)"
  have len: "?len = 16 + length (wire_name ls)" by (simp add: query_bytes_def)
  have pos: "0 < length (wire_name ls)" by (simp add: wire_name_def)
  have hd: "drop 0 mem = (rev (be16 tid) @ be16 0x100 @ be16 1 @ be16 0 @ [0, 0, 0, 0]) @ wire_name ls @ be16 t @ be16 1 @ r"
    by (simp add: mem query_bytes_def)
  have rds: "rd mem 0 = Some (ucast tid)" "rd mem 1 = Some (ucast (drop_bit 8 tid))" "rd16 mem 2 = Some 0x100"
    "rd16 mem 4 = Some 1" "rd16 mem 6 = Some 0"
    by (simp_all add: mem query_bytes_def be16_def rd_def rd16_def un16_def)
  have d: "drop 12 mem = wire_name ls @ be16 t @ be16 1 @ r" using drop_past [OF hd, of 12] by simp
  have sk: "dns_skip_name mem ?len 12 = Some (12 + length (wire_name ls) - 1)"
    using skip_name_wire [OF ls(2) d, of ?len] len by simp
  let ?e = "12 + length (wire_name ls)"
  have d1: "drop ?e mem = be16 t @ be16 1 @ r" using drop_past [OF d refl] .
  have d2: "drop (?e + 2) mem = be16 1 @ r" using be16_ahead(3) [OF d1] .
  have t: "rd16 mem ?e = Some t" "rd16 mem (?e + 2) = Some 1"
    using be16_ahead(1,2) [OF d1] be16_ahead(1,2) [OF d2] by (simp_all add: rd16_def bytes_simps) (simp add: un16_def)
  have e1: "?e - 1 + 1 = ?e" "?e - 1 + 3 = ?e + 2" "\<not> ?e - 1 + 5 > ?len" "?e - 1 + 5 = ?e + 4" using pos len by linarith+
  let ?q = "rr_zero\<lparr>rr_name := \<lparr>ms_mem = mem, ms_p = 12, ms_len = ?e - 1 - 12 + 1\<rparr>, rr_rtype := uint t, rr_rclass := 1,
    rr_kind := MG_DNS_QUESTION\<rparr>"
  have R: "mg_parse_dns_resource_record mem ?len 12 rr_zero False = Some (Some (?e + 4), ?q)"
    unfolding mg_parse_dns_resource_record_def sk Option.bind.bind_lunit Let_def e1 t using e1(3) by simp
  have z: "dns_parse_records mem ?len False 1 0 12 (replicate 32 rr_zero) = Some (Some (?e + 4), (replicate 32 rr_zero)[0 := ?q])"
    by (simp add: R)
  have P: "mg_parse_dns mem ?len = Some (0, dns_zero\<lparr>dm_pkt := \<lparr>ms_mem = mem, ms_p = 0, ms_len = ?len\<rparr>,
      dm_transaction_id := tid, dm_flags := 0x100, dm_num_questions := 1, dm_num_answers := 0,
      dm_questions := (replicate 32 rr_zero)[0 := ?q]\<rparr>)"
    using len rds z
    by (simp add: mg_parse_dns_def Let_def dns_clip_def bytes_simps dns_zero_def MG_MAX_DNS_QUESTIONS_def MG_MAX_DNS_ANSWERS_def)
  show ?thesis
    by (rule that [OF P]) simp_all
qed

section \<open>Replies over TCP\<close>

text \<open>The length that precedes a reply over TCP was taken before the header was inserted: it is 12
  short of the message that follows.\<close>

lemma dns_tcp_reply_length:
  assumes rel: "reliable K (io_ra io)" and q: "outq nc a" and tcp: "\<not> has_flag nc MG_F_UDP"
    and r: "mbuf_has (Some (rep_io r)) bs" "rep_start r = 0"
    and fits: "mbuf_grow (length a + length bs + 14) \<le> K" and small: "length bs < 2 ^ 30"
  shows "\<exists>nc' r' hd. mg_dns_send_reply io nc r = Some (nc', r') \<and> length hd = 12 \<and>
    outq nc' (a @ be16 (of_nat (length bs)) @ hd @ bs)"
proof -
  let ?h = "dns_header_bytes (rep_msg r)"
  have h: "length ?h = 12" by (simp add: dns_header_bytes_def)
  have fit: "mbuf_grow n \<le> K" if "n \<le> length a + length bs + 14" for n
    using order_trans [OF mbuf_grow_mono [OF that] fits] .
  have l: "mb_len (rep_io r) = length bs" using r(1) length_mbuf_bytes by (auto simp: mbuf_has_def)
  obtain m1 where 1: "mbuf_insert (io_ra io) (rep_io r) 0 (Some ?h) 12 = Some (12, m1)" "mbuf_has (Some m1) (?h @ bs)"
    using insert_front [OF rel r(1), of ?h] fit h by auto
  have "mbuf_grow (length (?h @ bs) + length (be16 (of_nat (length bs)))) \<le> K" using fit h by simp
  from insert_front [OF rel 1(2) this] obtain m2 where
    2: "mbuf_insert (io_ra io) m1 0 (Some (be16 (of_nat (length bs)))) 2 = Some (2, m2)"
      "mbuf_has (Some m2) (be16 (of_nat (length bs)) @ ?h @ bs)" by auto
  have "mg_dns_send_reply io nc r = Some (mg_send io (mbuf_bytes m2) nc, r\<lparr>rep_io := m2\<lparr>mb_len := 0\<rparr>\<rparr>)"
    using tcp r(2) by (simp add: mg_dns_send_reply_def Let_def mg_dns_insert_header_def l 1(1) 2(1))
  moreover have "outq (mg_send io (mbuf_bytes m2) nc) (a @ mbuf_bytes m2)"
    by (rule outq_send [OF rel q]) (use fit has_bytes [OF 2(2)] h small in simp_all)
  ultimately show ?thesis using has_bytes [OF 2(2)] h by metis
qed

section \<open>Properties\<close>

text \<open>C31. A query sent over UDP for a host name of labels of at most 63 bytes, of less than 1 GiB in all, is parsed by the receiver
  as one question with the query's id, its type and the class 1 of the internet, and expanding the question's name into a buffer
  with room for it ends and gives the host name back.\<close>

theorem dns_query_delivered:
  assumes "reliable K (io_ra io)" and "outq nc a" and "has_flag nc MG_F_UDP"
    and "ls \<noteq> []" and "\<forall>l \<in> set ls. label_ok l" and "length (host_name ls) < 2 ^ 30"
    and "mbuf_grow (length a + length (wire_name ls) + 16) \<le> K"
  shows "\<exists>nc' pkt. mg_send_dns_query io tid (host_name ls @ [0]) t nc = Some (tid + 1, nc') \<and> outq nc' (a @ pkt) \<and>
    (\<forall>r. \<exists>m. mg_parse_dns (pkt @ r) (length pkt) = Some (0, m) \<and> dm_transaction_id m = word_of_int (tid + 1) \<and>
       dm_num_questions m = 1 \<and> dm_num_answers m = 0 \<and> rr_rtype (dm_questions m ! 0) = uint (word_of_int t :: u16) \<and>
       rr_rclass (dm_questions m ! 0) = 1 \<and> rr_kind (dm_questions m ! 0) = MG_DNS_QUESTION \<and>
       (\<forall>fuel dst_len. length ls < fuel \<and> length (host_name ls) < dst_len \<longrightarrow>
          mg_dns_uncompress_name fuel m (rr_name (dm_questions m ! 0)) dst_len =
            Done (length (host_name ls), host_name ls @ [0])))"
proof -
  let ?pkt = "query_bytes (word_of_int (tid + 1)) ls (word_of_int t)"
  obtain nc' where "mg_send_dns_query io tid (host_name ls @ [0]) t nc = Some (tid + 1, nc')" "outq nc' (a @ ?pkt)"
    using query_sends [OF assms] by blast
  moreover have "\<exists>m. mg_parse_dns (?pkt @ r) (length ?pkt) = Some (0, m) \<and> dm_transaction_id m = word_of_int (tid + 1) \<and>
       dm_num_questions m = 1 \<and> dm_num_answers m = 0 \<and> rr_rtype (dm_questions m ! 0) = uint (word_of_int t :: u16) \<and>
       rr_rclass (dm_questions m ! 0) = 1 \<and> rr_kind (dm_questions m ! 0) = MG_DNS_QUESTION \<and>
       (\<forall>fuel dst_len. length ls < fuel \<and> length (host_name ls) < dst_len \<longrightarrow>
          mg_dns_uncompress_name fuel m (rr_name (dm_questions m ! 0)) dst_len =
            Done (length (host_name ls), host_name ls @ [0]))" for r
  proof (rule query_parses [OF refl assms(4,5), where r = r])
    fix m
    assume m: "mg_parse_dns (?pkt @ r) (length ?pkt) = Some (0, m)" "dm_transaction_id m = word_of_int (tid + 1)"
      "dm_num_questions m = 1" "dm_num_answers m = 0" "rr_rtype (dm_questions m ! 0) = uint (word_of_int t :: u16)"
      "rr_rclass (dm_questions m ! 0) = 1" "rr_kind (dm_questions m ! 0) = MG_DNS_QUESTION"
      "dm_pkt m = \<lparr>ms_mem = ?pkt @ r, ms_p = 0, ms_len = length ?pkt\<rparr>" "ms_p (rr_name (dm_questions m ! 0)) = 12"
    have "drop 12 (?pkt @ r) = wire_name ls @ (be16 (word_of_int t) @ be16 1 @ r)" by (simp add: query_bytes_def be16_def)
    moreover have "12 + length (wire_name ls) \<le> length ?pkt" by (simp add: query_bytes_def)
    ultimately have "mg_dns_uncompress_name fuel m (rr_name (dm_questions m ! 0)) dst_len =
        Done (length (host_name ls), host_name ls @ [0])" if "length ls < fuel" "length (host_name ls) < dst_len" for fuel dst_len
      using that by (intro uncompress_host [OF assms(4,5)]) (simp_all add: m(8,9))
    then show ?thesis using m by blast
  qed
  ultimately show ?thesis by blast
qed

definition demo_udp :: "bytes mg_connection" where
  "demo_udp = set_flag MG_F_UDP demo_conn"

theorem dns_query_delivered_witness:
  "\<exists>nc' pkt. mg_send_dns_query demo_io 160 (host_name [[97, 98], [99]] @ [0]) 1 demo_udp = Some (160 + 1, nc') \<and>
    outq nc' ([5, 6] @ pkt) \<and>
    (\<forall>r. \<exists>m. mg_parse_dns (pkt @ r) (length pkt) = Some (0, m) \<and> dm_transaction_id m = word_of_int (160 + 1) \<and>
       dm_num_questions m = 1 \<and> dm_num_answers m = 0 \<and> rr_rtype (dm_questions m ! 0) = uint (word_of_int 1 :: u16) \<and>
       rr_rclass (dm_questions m ! 0) = 1 \<and> rr_kind (dm_questions m ! 0) = MG_DNS_QUESTION \<and>
       (\<forall>fuel dst_len. length [[97, 98], [99 :: u8]] < fuel \<and> length (host_name [[97, 98], [99]]) < dst_len \<longrightarrow>
          mg_dns_uncompress_name fuel m (rr_name (dm_questions m ! 0)) dst_len =
            Done (length (host_name [[97, 98], [99]]), host_name [[97, 98], [99]] @ [0])))"
proof (rule dns_query_delivered)
  show "reliable (2 ^ 20) (io_ra demo_io)" using arena_reliable by (simp add: demo_io_def)
  show "outq demo_udp [5, 6]" using demo_simps(1,2) by (simp add: outq_def demo_udp_def set_flag_def)
  show "has_flag demo_udp MG_F_UDP" by (simp add: demo_udp_def MG_F_UDP_def)
qed (simp_all add: label_ok_def dot_def wire_name_def label_bytes_def mbuf_grow_def)

text \<open>C32. Parsing a message reads nothing outside the buffer it is given and fills no more records than the
  message has room for, whatever the buffer holds.\<close>

theorem dns_parse_in_bounds:
  assumes "len \<le> length mem"
  shows "\<exists>r m. mg_parse_dns mem len = Some (r, m) \<and> (r = 0 \<or> r = -1) \<and>
    dm_num_questions m \<le> length (dm_questions m) \<and> dm_num_answers m \<le> length (dm_answers m) \<and>
    dm_pkt m = \<lparr>ms_mem = mem, ms_p = 0, ms_len = len\<rparr>"
  using assms by (rule dns_parse_total)

theorem dns_parse_in_bounds_witness:
  "\<exists>r m. mg_parse_dns (replicate 12 0xFF) 12 = Some (r, m) \<and> (r = 0 \<or> r = -1) \<and>
    dm_num_questions m \<le> length (dm_questions m) \<and> dm_num_answers m \<le> length (dm_answers m) \<and>
    dm_pkt m = \<lparr>ms_mem = replicate 12 0xFF, ms_p = 0, ms_len = 12\<rparr>"
  by (rule dns_parse_in_bounds) simp

text \<open>C33. Expanding any name of a packet never reads outside the packet's memory and, when it ends, has
  written at most \<open>dst_len\<close> bytes, the result included, however the pointers in the name go.\<close>

theorem dns_uncompress_bounds:
  assumes "ms_p (dm_pkt msg) + ms_len (dm_pkt msg) \<le> length (ms_mem (dm_pkt msg))"
  shows "mg_dns_uncompress_name fuel msg name dst_len \<noteq> Fault \<and>
    (\<forall>r w. mg_dns_uncompress_name fuel msg name dst_len = Done (r, w) \<longrightarrow> r \<le> dst_len \<and> length w \<le> dst_len)"
  using uncompress_loop_bounds [OF assms, of "ms_p name" "[]" dst_len fuel]
  by (auto simp: mg_dns_uncompress_name_def not_le)

theorem dns_uncompress_bounds_witness:
  "\<exists>r w. mg_dns_uncompress_name 9 (dns_zero\<lparr>dm_pkt := \<lparr>ms_mem = [1, 0x61, 0, 0], ms_p = 0, ms_len = 4\<rparr>\<rparr>)
      \<lparr>ms_mem = [1, 0x61, 0, 0], ms_p = 0, ms_len = 4\<rparr> 5 = Done (r, w) \<and> r \<le> 5 \<and> length w \<le> 5"
proof -
  let ?p = "\<lparr>ms_mem = [1, 0x61, 0, 0], ms_p = 0, ms_len = 4\<rparr> :: mg_str"
  have "mg_dns_uncompress_name 9 (dns_zero\<lparr>dm_pkt := ?p\<rparr>) ?p 5 = Done (1, [0x61, 0])"
    by code_simp
  then show ?thesis
    using dns_uncompress_bounds [of "dns_zero\<lparr>dm_pkt := ?p\<rparr>" 9 ?p 5] by fastforce
qed

end
