(* ===== verification/Websocket.thy ===== *)
theory Websocket
  imports Conn Sha1 Util
begin

text \<open>
  \<open>mongoose/src/http_websocket.c\<close>: receiving frames, with the reassembly of fragmented
  messages inside the receive buffer, sending frames, the handshake and the protocol handler.

  Pointers of \<open>mg_deliver_websocket_data\<close> are indices into the block of the receive buffer.
  \<open>None\<close> is a read or write outside that block or through a pointer into a block that is gone.
  Random masks are arguments.
\<close>

section \<open>Constants and messages\<close>

definition WEBSOCKET_OP_CONTINUE :: nat where "WEBSOCKET_OP_CONTINUE = 0"
definition WEBSOCKET_OP_TEXT :: nat where "WEBSOCKET_OP_TEXT = 1"
definition WEBSOCKET_OP_BINARY :: nat where "WEBSOCKET_OP_BINARY = 2"
definition WEBSOCKET_OP_CLOSE :: nat where "WEBSOCKET_OP_CLOSE = 8"
definition WEBSOCKET_OP_PING :: nat where "WEBSOCKET_OP_PING = 9"
definition WEBSOCKET_OP_PONG :: nat where "WEBSOCKET_OP_PONG = 10"
definition WEBSOCKET_DONT_FIN :: nat where "WEBSOCKET_DONT_FIN = 0x100"

definition MG_WEBSOCKET_PING_INTERVAL_SECONDS :: int where "MG_WEBSOCKET_PING_INTERVAL_SECONDS = 5"

text \<open>The data pointer and the size are one \<open>mg_str\<close>.\<close>

record websocket_message =
  wm_data :: mg_str
  wm_flags :: u8

datatype ws_event = WsFrame websocket_message | WsControlFrame websocket_message

definition mg_is_ws_fragment :: "u8 \<Rightarrow> bool" where
  "mg_is_ws_fragment flags \<longleftrightarrow> flags AND 0x80 = 0 \<or> flags AND 0x0f = 0"

definition mg_is_ws_first_fragment :: "u8 \<Rightarrow> bool" where
  "mg_is_ws_first_fragment flags \<longleftrightarrow> flags AND 0x80 = 0 \<and> flags AND 0x0f \<noteq> 0"

definition mg_handle_incoming_websocket_frame ::
  "(ws_event, 'u) handler \<Rightarrow> websocket_message \<Rightarrow> 'u mg_connection \<Rightarrow> 'u mg_connection"
where
  "mg_handle_incoming_websocket_frame h wsm nc =
     (if wm_flags wsm AND 0x8 \<noteq> 0 then mg_call_user (Some h) (EvProto (WsControlFrame wsm)) nc
      else mg_call_user (Some h) (EvProto (WsFrame wsm)) nc)"

section \<open>Receiving\<close>

text \<open>A 32-bit word in the order of the host, and reads through a pointer into the block at \<open>addr\<close>
  after a handler has run.\<close>

definition rd32le :: "bytes \<Rightarrow> nat \<Rightarrow> u32 option" where
  "rd32le mem i = do {
     a \<leftarrow> rd mem i; b \<leftarrow> rd mem (i + 1); c \<leftarrow> rd mem (i + 2); d \<leftarrow> rd mem (i + 3); Some (un32 d c b a) }"

definition ws_block :: "nat \<Rightarrow> 'u mg_connection \<Rightarrow> bytes option" where
  "ws_block addr nc = (if mb_addr (nc_recv nc) = addr then Some (mb_mem (nc_recv nc)) else None)"

record ws_head =
  wh_header_len :: nat
  wh_mask_len :: nat
  wh_data_len :: nat

text \<open>The frame header at \<open>buf\<close>; all lengths are zero if it is not complete.\<close>

definition ws_parse_header :: "bytes \<Rightarrow> nat \<Rightarrow> nat \<Rightarrow> ws_head option" where
  "ws_parse_header mem buf buf_len =
     (if buf_len < 2 then Some \<lparr>wh_header_len = 0, wh_mask_len = 0, wh_data_len = 0\<rparr>
      else do {
        x \<leftarrow> rd mem (buf + 1);
        let len = unat (x AND 127);
        let mask_len = (if x AND 128 \<noteq> 0 then 4 else 0);
        if len < 126 \<and> buf_len \<ge> mask_len then
          Some \<lparr>wh_header_len = 2 + mask_len, wh_mask_len = mask_len, wh_data_len = len\<rparr>
        else if len = 126 \<and> buf_len \<ge> 4 + mask_len then do {
          a \<leftarrow> rd mem (buf + 2); b \<leftarrow> rd mem (buf + 3);
          Some \<lparr>wh_header_len = 4 + mask_len, wh_mask_len = mask_len, wh_data_len = unat (un16 a b)\<rparr> }
        else if buf_len \<ge> 10 + mask_len then do {
          a \<leftarrow> rd mem (buf + 2); b \<leftarrow> rd mem (buf + 3); c \<leftarrow> rd mem (buf + 4); d \<leftarrow> rd mem (buf + 5);
          e \<leftarrow> rd mem (buf + 6); f \<leftarrow> rd mem (buf + 7); g \<leftarrow> rd mem (buf + 8); i \<leftarrow> rd mem (buf + 9);
          Some \<lparr>wh_header_len = 10 + mask_len, wh_mask_len = mask_len,
                wh_data_len = unat (un32 a b c d) * 2 ^ 32 + unat (un32 e f g i)\<rparr> }
        else Some \<lparr>wh_header_len = 0, wh_mask_len = mask_len, wh_data_len = 0\<rparr> })"

text \<open>The masking loops: byte \<open>i\<close> is combined with byte \<open>i mod 4\<close> of the mask.\<close>

definition ws_xor :: "bytes \<Rightarrow> bytes \<Rightarrow> bytes" where
  "ws_xor mk d = map (\<lambda>i. d ! i XOR mk ! (i mod 4)) [0..<length d]"

definition ws_unmask :: "bytes \<Rightarrow> nat \<Rightarrow> nat \<Rightarrow> bytes option" where
  "ws_unmask mem data n =
     (if data + n > length mem then None
      else Some (overlay mem data (ws_xor (bslice mem (data - 4) 4) (bslice mem data n))))"

text \<open>
  The reassembly of a fragment whose data lies at \<open>data\<close>: \<open>buf\<close> is where the frame starts, \<open>e\<close> the
  end of the received bytes.  The result is the pointer \<open>buf\<close> and the connection afterwards.  The
  size of the message so far lies in the block behind its first byte.
\<close>

definition ws_first_fragment :: "realloc \<Rightarrow> 'u mg_connection \<Rightarrow> (nat \<times> 'u mg_connection) option" where
  "ws_first_fragment ra nc =
     (let m = mbuf_resize ra (nc_recv nc) (mb_size (nc_recv nc) + 4) in
      if mb_addr m \<noteq> mb_addr (nc_recv nc) \<or> length (mb_mem m) < 5 then None
      else do {
        x \<leftarrow> rd (mb_mem m) 0;
        Some (5, nc\<lparr>nc_recv := m\<lparr>mb_mem := overlay (overlay (mb_mem m) 0 [x AND NOT 0x0f]) 1 (le32 0)\<rparr>\<rparr>) })"

definition ws_append_fragment :: "nat \<Rightarrow> nat \<Rightarrow> nat \<Rightarrow> nat \<Rightarrow> 'u mg_connection \<Rightarrow> 'u mg_connection option" where
  "ws_append_fragment buf data n e nc =
     (let m = nc_recv nc; mem = mb_mem m; k = e - data in
      if data + k > length mem \<or> buf + k > length mem then None
      else do {
        let mem = overlay mem buf (bslice mem data k);
        sz \<leftarrow> rd32le mem 1;
        let mem = overlay mem 1 (le32 (sz + of_nat n));
        Some (nc\<lparr>nc_recv := m\<lparr>mb_mem := mem,
                 mb_len := nat ((int (mb_len m) - (int data - int buf)) mod 2 ^ 64)\<rparr>\<rparr>) })"

definition ws_reassemble ::
  "realloc \<Rightarrow> (ws_event, 'u) handler \<Rightarrow> u8 \<Rightarrow> nat \<Rightarrow> nat \<Rightarrow> nat \<Rightarrow> nat \<Rightarrow> 'u mg_connection \<Rightarrow>
     (nat \<times> 'u mg_connection) option"
where
  "ws_reassemble ra h flags buf data n e nc = do {
     (buf, nc) \<leftarrow> (if mg_is_ws_first_fragment flags then ws_first_fragment ra nc else Some (buf, nc));
     nc \<leftarrow> ws_append_fragment buf data n e nc;
     if flags AND 0x80 \<noteq> 0 then do {
       let mem = mb_mem (nc_recv nc);
       sz \<leftarrow> rd32le mem 1;
       let nc' = mg_handle_incoming_websocket_frame h
                   \<lparr>wm_data = \<lparr>ms_mem = mem, ms_p = 5, ms_len = unat sz\<rparr>, wm_flags = flags\<rparr> nc;
       mem' \<leftarrow> ws_block (mb_addr (nc_recv nc)) nc';
       sz' \<leftarrow> rd32le mem' 1;
       Some (buf, nc'\<lparr>nc_recv := mbuf_remove (nc_recv nc') (5 + unat sz')\<rparr>) }
     else Some (buf, nc) }"

definition ws_whole_frame ::
  "(ws_event, 'u) handler \<Rightarrow> u8 \<Rightarrow> nat \<Rightarrow> nat \<Rightarrow> nat \<Rightarrow> 'u mg_connection \<Rightarrow> 'u mg_connection"
where
  "ws_whole_frame h flags data n frame_len nc =
     (let nc' = mg_handle_incoming_websocket_frame h
                  \<lparr>wm_data = \<lparr>ms_mem = mb_mem (nc_recv nc), ms_p = data, ms_len = n\<rparr>, wm_flags = flags\<rparr> nc
      in nc'\<lparr>nc_recv := mbuf_remove (nc_recv nc') frame_len\<rparr>)"

text \<open>Where the next frame starts: behind the message that is being reassembled.\<close>

definition ws_frame_start :: "bool \<Rightarrow> bytes \<Rightarrow> nat \<Rightarrow> nat option" where
  "ws_frame_start reass mem buf_len =
     (if reass then do {
        x \<leftarrow> rd mem 0;
        if \<not> mg_is_ws_first_fragment x \<and> buf_len \<ge> 5 then do {
          sz \<leftarrow> rd32le mem 1;
          if buf_len \<ge> 5 + unat sz then Some (5 + unat sz) else Some 0 }
        else Some 0 }
      else Some 0)"

definition mg_deliver_websocket_data ::
  "realloc \<Rightarrow> (ws_event, 'u) handler \<Rightarrow> 'u mg_connection \<Rightarrow> (bool \<times> 'u mg_connection) option"
where
  "mg_deliver_websocket_data ra h nc = do {
     let m = nc_recv nc;
     let mem = mb_mem m;
     reass \<leftarrow> (if mb_len m > 0 then do {
                 x \<leftarrow> rd mem 0; Some (mg_is_ws_fragment x \<and> \<not> has_flag nc MG_F_WEBSOCKET_NO_DEFRAG) }
               else Some False);
     buf \<leftarrow> ws_frame_start reass mem (mb_len m);
     let buf_len = mb_len m - buf;
     hd \<leftarrow> ws_parse_header mem buf buf_len;
     let frame_len = (wh_header_len hd + wh_data_len hd) mod 2 ^ 64;
     if frame_len > 0 \<and> frame_len \<le> buf_len then do {
       let data = buf + wh_header_len hd;
       flags \<leftarrow> rd mem buf;
       mem \<leftarrow> (if wh_mask_len hd > 0 then ws_unmask mem data (wh_data_len hd) else Some mem);
       let nc = nc\<lparr>nc_recv := m\<lparr>mb_mem := mem\<rparr>\<rparr>;
       (buf, nc) \<leftarrow> (if reass then ws_reassemble ra h flags buf data (wh_data_len hd) (mb_len m) nc
                      else Some (buf, ws_whole_frame h flags data (wh_data_len hd) frame_len nc));
       mem \<leftarrow> ws_block (mb_addr m) nc;
       x \<leftarrow> rd mem buf;
       Some (True, if unat (x AND 0x0f) = WEBSOCKET_OP_CLOSE then set_flag MG_F_SEND_AND_CLOSE nc else nc) }
     else Some (False, nc) }"

text \<open>The empty loop of \<open>mg_ws_handler\<close> delivers until there is no complete frame.  A loop that
  does not end is \<open>None\<close> as well.\<close>

partial_function (option) ws_deliver_all ::
  "realloc \<Rightarrow> (ws_event, 'u) handler \<Rightarrow> 'u mg_connection \<Rightarrow> 'u mg_connection option"
where
  "ws_deliver_all ra h nc = do {
     (ok, nc) \<leftarrow> mg_deliver_websocket_data ra h nc;
     if ok then ws_deliver_all ra h nc else Some nc }"

section \<open>Sending\<close>

record ws_mask_ctx =
  wc_pos :: nat
  wc_mask :: u32

definition ws_header_bytes :: "nat \<Rightarrow> nat \<Rightarrow> bool \<Rightarrow> bytes" where
  "ws_header_bytes op len masked =
     (let b0 = (if op AND WEBSOCKET_DONT_FIN \<noteq> 0 then 0 else 0x80) + of_nat (op AND 0x0f);
          m = (if masked then 0x80 else 0)
      in if len < 126 then [b0, of_nat len OR m]
         else if len < 65535 then [b0, 126 OR m] @ be16 (of_nat len)
         else [b0, 127 OR m] @ be32 (of_nat (len div 2 ^ 32)) @ be32 (of_nat (len mod 2 ^ 32)))"

text \<open>A connection without a listener is a client, whose frames are masked.\<close>

definition mg_send_ws_header ::
  "io \<Rightarrow> u32 \<Rightarrow> bool \<Rightarrow> nat \<Rightarrow> nat \<Rightarrow> 'u mg_connection \<Rightarrow> ws_mask_ctx \<times> 'u mg_connection"
where
  "mg_send_ws_header io mk client op len nc =
     (if client then
        let nc = mg_send io (le32 mk) (mg_send io (ws_header_bytes op len True) nc)
        in (\<lparr>wc_pos = mb_len (nc_send nc), wc_mask = mk\<rparr>, nc)
      else (\<lparr>wc_pos = 0, wc_mask = mk\<rparr>, mg_send io (ws_header_bytes op len False) nc))"

definition mg_ws_mask_frame :: "mbuf \<Rightarrow> ws_mask_ctx \<Rightarrow> mbuf option" where
  "mg_ws_mask_frame m ctx =
     (if wc_pos ctx = 0 then Some m
      else if mb_len m < wc_pos ctx \<or> mb_len m > length (mb_mem m) then None
      else Some (m\<lparr>mb_mem := overlay (mb_mem m) (wc_pos ctx)
                     (ws_xor (le32 (wc_mask ctx)) (bslice (mb_mem m) (wc_pos ctx) (mb_len m - wc_pos ctx)))\<rparr>))"

definition mg_send_websocket_frame ::
  "io \<Rightarrow> u32 \<Rightarrow> bool \<Rightarrow> nat \<Rightarrow> bytes \<Rightarrow> 'u mg_connection \<Rightarrow> 'u mg_connection option"
where
  "mg_send_websocket_frame io mk client op data nc = do {
     let (ctx, nc) = mg_send_ws_header io mk client op (length data) nc;
     let nc = mg_send io data nc;
     m \<leftarrow> mg_ws_mask_frame (nc_send nc) ctx;
     let nc = nc\<lparr>nc_send := m\<rparr>;
     Some (if op = WEBSOCKET_OP_CLOSE then set_flag MG_F_SEND_AND_CLOSE nc else nc) }"

text \<open>The length of all pieces is added up in an \<open>int\<close>.\<close>

definition mg_send_websocket_framev ::
  "io \<Rightarrow> u32 \<Rightarrow> bool \<Rightarrow> nat \<Rightarrow> bytes list \<Rightarrow> 'u mg_connection \<Rightarrow> 'u mg_connection option"
where
  "mg_send_websocket_framev io mk client op strv nc = do {
     let len = fold (\<lambda>s len. c_int (len + int (length s))) strv 0;
     let (ctx, nc) = mg_send_ws_header io mk client op (nat (len mod 2 ^ 64)) nc;
     let nc = mg_sends io strv nc;
     m \<leftarrow> mg_ws_mask_frame (nc_send nc) ctx;
     let nc = nc\<lparr>nc_send := m\<rparr>;
     Some (if op = WEBSOCKET_OP_CLOSE then set_flag MG_F_SEND_AND_CLOSE nc else nc) }"

section \<open>The protocol handler\<close>

definition mg_ws_handler ::
  "io \<Rightarrow> u32 \<Rightarrow> bool \<Rightarrow> (ws_event, 'u) handler \<Rightarrow> ws_event mg_event \<Rightarrow> 'u mg_connection \<Rightarrow> 'u mg_connection option"
where
  "mg_ws_handler io mk client h ev nc =
     (let nc = mg_call_user (Some h) ev nc in
      case ev of
        EvRecv _ \<Rightarrow> ws_deliver_all (io_ra io) h nc
      | EvPoll now \<Rightarrow>
          if has_flag nc MG_F_IS_WEBSOCKET \<and> now > nc_last_io_time nc + MG_WEBSOCKET_PING_INTERVAL_SECONDS
          then mg_send_websocket_frame io mk client WEBSOCKET_OP_PING [] nc
          else Some nc
      | _ \<Rightarrow> Some nc)"

section \<open>The handshake\<close>

text \<open>\<open>ctx\<close> is the uninitialised context on the stack.  A string given by the program is its bytes;
  \<open>c_str\<close> is what \<open>%s\<close> prints of a buffer.\<close>

definition c_str :: "bytes \<Rightarrow> bytes" where
  "c_str b = takeWhile (\<lambda>x. x \<noteq> 0) b"

definition mg_hash_sha1_v :: "cs_sha1_ctx \<Rightarrow> bytes list \<Rightarrow> bytes option" where
  "mg_hash_sha1_v ctx msgs =
     Option.bind (hash_feed (\<lambda>c d. cs_sha1_update c d (of_nat (length d))) (cs_sha1_init ctx) msgs) cs_sha1_final"

definition ws_magic :: bytes where
  "ws_magic = str ''258EAFA5-E914-47DA-95CA-C5AB0DC85B11''"

definition crlf :: bytes where "crlf = [13, 10]"

definition mg_ws_handshake :: "io \<Rightarrow> cs_sha1_ctx \<Rightarrow> bytes \<Rightarrow> 'u mg_connection \<Rightarrow> 'u mg_connection option" where
  "mg_ws_handshake io ctx key nc = do {
     sha \<leftarrow> mg_hash_sha1_v ctx [key, ws_magic];
     b64_sha \<leftarrow> cs_base64_encode sha;
     Some (mg_send io (str ''HTTP/1.1 101 Switching Protocols'' @ crlf @ str ''Upgrade: websocket'' @ crlf @
       str ''Connection: Upgrade'' @ crlf @ str ''Sec-WebSocket-Accept: '' @ c_str b64_sha @ crlf @ crlf) nc) }"

text \<open>No host is \<open>MG_WS_NO_HOST_HEADER_MAGIC\<close>; the nonce is four random words.\<close>

definition mg_send_websocket_handshake3 ::
  "io \<Rightarrow> u32 \<times> u32 \<times> u32 \<times> u32 \<Rightarrow> bytes \<Rightarrow> bytes option \<Rightarrow> bytes option \<Rightarrow> bytes option \<Rightarrow>
     bytes option \<Rightarrow> bytes option \<Rightarrow> 'u mg_connection \<Rightarrow> 'u mg_connection option"
where
  "mg_send_websocket_handshake3 io nonce path host protocol extra_headers user pass nc =
     (case nonce of (n0, n1, n2, n3) \<Rightarrow> do {
        key \<leftarrow> cs_base64_encode (le32 n0 @ le32 n1 @ le32 n2 @ le32 n3);
        auth \<leftarrow> (case user of None \<Rightarrow> Some (mbuf_init (io_ra io) 0)
                 | Some u \<Rightarrow> mg_basic_auth_header (io_ra io) u pass (mbuf_init (io_ra io) 0));
        let nc = mg_send io (str ''GET '' @ path @ str '' HTTP/1.1'' @ crlf @ str ''Upgrade: websocket'' @ crlf @
          str ''Connection: Upgrade'' @ crlf @ c_str (mbuf_bytes auth) @ str ''Sec-WebSocket-Version: 13'' @ crlf @
          str ''Sec-WebSocket-Key: '' @ c_str key @ crlf) nc;
        let nc = (case host of None \<Rightarrow> nc | Some hs \<Rightarrow> mg_send io (str ''Host: '' @ hs @ crlf) nc);
        let nc = (case protocol of None \<Rightarrow> nc | Some p \<Rightarrow> mg_send io (str ''Sec-WebSocket-Protocol: '' @ p @ crlf) nc);
        let nc = (case extra_headers of None \<Rightarrow> nc
                  | Some x \<Rightarrow> if x = [] then nc else mg_send io x nc);
        Some (mg_send io crlf nc) })"

definition mg_send_websocket_handshake2 ::
  "io \<Rightarrow> u32 \<times> u32 \<times> u32 \<times> u32 \<Rightarrow> bytes \<Rightarrow> bytes option \<Rightarrow> bytes option \<Rightarrow> bytes option \<Rightarrow>
     'u mg_connection \<Rightarrow> 'u mg_connection option"
where
  "mg_send_websocket_handshake2 io nonce path host protocol extra_headers nc =
     mg_send_websocket_handshake3 io nonce path host protocol extra_headers None None nc"

definition mg_send_websocket_handshake ::
  "io \<Rightarrow> u32 \<times> u32 \<times> u32 \<times> u32 \<Rightarrow> bytes \<Rightarrow> bytes option \<Rightarrow> 'u mg_connection \<Rightarrow> 'u mg_connection option"
where
  "mg_send_websocket_handshake io nonce path extra_headers nc =
     mg_send_websocket_handshake2 io nonce path None None extra_headers nc"

section \<open>Frames on the wire\<close>

lemma length_ws_xor [simp]: "length (ws_xor mk d) = length d"
  by (simp add: ws_xor_def)

lemma ws_xor_Nil [simp]: "ws_xor mk [] = []"
  by (simp add: ws_xor_def)

lemma ws_xor_twice [simp]: "ws_xor mk (ws_xor mk d) = d"
  by (rule nth_equalityI) (simp_all add: ws_xor_def xor.assoc)

text \<open>The frame that carries \<open>d\<close>: its first byte, the length in the shortest of three forms, the mask
  of a client and the data.\<close>

definition ws_head_bytes :: "u8 \<Rightarrow> nat \<Rightarrow> bool \<Rightarrow> bytes" where
  "ws_head_bytes b0 len masked =
     (let m = (if masked then 0x80 else 0)
      in if len < 126 then [b0, of_nat len OR m]
         else if len < 65535 then [b0, 126 OR m] @ be16 (of_nat len)
         else [b0, 127 OR m] @ be32 (of_nat (len div 2 ^ 32)) @ be32 (of_nat (len mod 2 ^ 32)))"

definition ws_wire :: "u8 \<Rightarrow> u32 option \<Rightarrow> bytes \<Rightarrow> bytes" where
  "ws_wire b0 mk d = ws_head_bytes b0 (length d) (mk \<noteq> None) @
     (case mk of None \<Rightarrow> d | Some k \<Rightarrow> le32 k @ ws_xor (le32 k) d)"

definition ws_head_len :: "u32 option \<Rightarrow> bytes \<Rightarrow> nat" where
  "ws_head_len mk d = length (ws_head_bytes 0 (length d) False) + (if mk = None then 0 else 4)"

lemma ws_head_len_bounds: "2 \<le> ws_head_len mk d" "ws_head_len mk d \<le> 14" "mk \<noteq> None \<Longrightarrow> 6 \<le> ws_head_len mk d"
  by (auto simp: ws_head_len_def ws_head_bytes_def Let_def)

lemma length_ws_wire: "length (ws_wire b0 mk d) = ws_head_len mk d + length d"
  by (auto simp: ws_wire_def ws_head_len_def ws_head_bytes_def Let_def split: option.splits)

lemma ws_wire_nonempty [simp]: "ws_wire b0 mk d \<noteq> []"
  using ws_head_len_bounds(1) [of mk d] length_ws_wire [of b0 mk d] by auto

lemma ws_first_byte: "\<exists>xs. ws_wire b0 mk d = b0 # xs"
  by (auto simp: ws_wire_def ws_head_bytes_def Let_def)

lemma len_byte:
  assumes "len < 128" and "m = 0 \<or> m = 0x80"
  shows "unat ((of_nat len OR m) AND (127 :: u8)) = len" and "(of_nat len OR m) AND (128 :: u8) = m"
proof -
  have t: "take_bit 7 (of_nat len :: u8) = of_nat len"
    using assms(1) by (simp add: take_bit_of_nat take_bit_nat_eq_self)
  have "(of_nat len OR m) AND (127 :: u8) = take_bit 7 (of_nat len)"
    using assms(2) by (auto intro!: u8_eqI simp: bit_simps)
  then show "unat ((of_nat len OR m) AND (127 :: u8)) = len"
    using t assms(1) by (simp add: unat_of_nat_small)
  have "\<not> bit (of_nat len :: u8) 7" using t by (metis bit_take_bit_iff less_irrefl)
  then show "(of_nat len OR m) AND (128 :: u8) = m"
    using assms(2) by (auto intro!: u8_eqI simp: bit_simps)
qed

lemma len_code:
  assumes "m = 0 \<or> m = (0x80 :: u8)"
  shows "unat ((126 OR m) AND 127) = 126" "(126 OR m) AND 128 = m"
    "unat ((127 OR m) AND 127) = 127" "(127 OR m) AND 128 = m"
  using assms by auto

lemma ws_parse_header_wire:
  assumes "drop p mem = ws_wire b0 mk d @ r" and "length d < 2 ^ 63" and "length (ws_wire b0 mk d) \<le> n"
  shows "ws_parse_header mem p n = Some \<lparr>wh_header_len = ws_head_len mk d,
    wh_mask_len = (if mk = None then 0 else 4), wh_data_len = length d\<rparr>"
proof -
  let ?m = "if mk = None then 0 else 0x80 :: u8" and ?k = "if mk = None then 0 else 4 :: nat"
  obtain t where t: "drop p mem = ws_head_bytes b0 (length d) (mk \<noteq> None) @ t"
    using assms(1) by (simp add: ws_wire_def)
  have m: "?m = 0 \<or> ?m = 0x80" by simp
  have mask: "(if ?m \<noteq> 0 then 4 else 0) = ?k" by simp
  have n: "ws_head_len mk d + length d \<le> n" "2 \<le> n"
    using assms(3) ws_head_len_bounds(1) [of mk d] by (simp_all add: length_ws_wire)
  consider (short) "length d < 126" | (mid) "126 \<le> length d" "length d < 65535" | (long) "65535 \<le> length d"
    by linarith
  then show ?thesis
  proof cases
    case short
    then have "rd mem (p + 1) = Some (of_nat (length d) OR ?m)"
      using t by (intro rd_at [where a = "[b0]" and b = t]) (auto simp: ws_head_bytes_def Let_def)
    moreover have "ws_head_len mk d = 2 + ?k" using short by (simp add: ws_head_len_def ws_head_bytes_def Let_def)
    ultimately show ?thesis
      using n short len_byte [OF _ m, of "length d"]
      by (simp add: ws_parse_header_def Let_def mask del: unsigned_or_eq unsigned_and_eq)
  next
    case mid
    have x: "drop p mem = [b0, 126 OR ?m] @ be16 (of_nat (length d)) @ t"
      using t mid by (simp add: ws_head_bytes_def Let_def)
    have "rd mem (p + 1) = Some (126 OR ?m)" using x by (intro rd_at [where a = "[b0]"]) auto
    moreover have "rd mem (p + 2) = Some (ucast (drop_bit 8 (of_nat (length d) :: u16)))"
      "rd mem (p + 3) = Some (ucast (of_nat (length d) :: u16))"
      using be16_ahead(1,2) [OF drop_past [OF x, of 2]] by (simp_all add: numeral_eq_Suc)
    moreover have "ws_head_len mk d = 4 + ?k" using mid by (simp add: ws_head_len_def ws_head_bytes_def Let_def)
    moreover have "unat (of_nat (length d) :: u16) = length d" using mid by (simp add: unat_of_nat_small)
    ultimately show ?thesis
      using n mid len_code [OF m] unfolding ws_parse_header_def
      by (simp add: Let_def mask un16_be16 del: unsigned_or_eq unsigned_and_eq)
  next
    case long
    obtain hi lo :: u32 where hl: "hi = of_nat (length d div 2 ^ 32)" "lo = of_nat (length d mod 2 ^ 32)" by blast
    have x: "drop p mem = [b0, 127 OR ?m] @ be32 hi @ be32 lo @ t"
      using t long by (simp add: ws_head_bytes_def Let_def hl)
    have v: "unat hi * 2 ^ 32 + unat lo = length d"
      using assms(2) by (simp add: hl unat_of_nat_small less_mult_imp_div_less)
    have "rd mem (p + 1) = Some (127 OR ?m)" using x by (intro rd_at [where a = "[b0]"]) auto
    moreover have "rd mem (p + 2) = Some (ucast (drop_bit 24 hi))" "rd mem (p + 3) = Some (ucast (drop_bit 16 hi))"
      "rd mem (p + 4) = Some (ucast (drop_bit 8 hi))" "rd mem (p + 5) = Some (ucast hi)"
      "rd mem (p + 6) = Some (ucast (drop_bit 24 lo))" "rd mem (p + 7) = Some (ucast (drop_bit 16 lo))"
      "rd mem (p + 8) = Some (ucast (drop_bit 8 lo))" "rd mem (p + 9) = Some (ucast lo)"
      using be32_ahead [OF drop_past [OF x, of 2]] be32_ahead [OF be32_ahead(5) [OF drop_past [OF x, of 2]]]
      by (simp_all add: numeral_eq_Suc)
    moreover have "ws_head_len mk d = 10 + ?k" using long by (simp add: ws_head_len_def ws_head_bytes_def Let_def)
    ultimately show ?thesis
      using n long len_code [OF m] v unfolding ws_parse_header_def
      by (simp add: Let_def mask un32_be32 del: unsigned_or_eq unsigned_and_eq)
  qed
qed

section \<open>One frame\<close>

text \<open>A frame after its data has been unmasked in place.\<close>

definition ws_plain :: "u8 \<Rightarrow> u32 option \<Rightarrow> bytes \<Rightarrow> bytes" where
  "ws_plain b0 mk d = ws_head_bytes b0 (length d) (mk \<noteq> None) @ (case mk of None \<Rightarrow> [] | Some k \<Rightarrow> le32 k)"

lemma length_ws_plain [simp]: "length (ws_plain b0 mk d) = ws_head_len mk d"
  by (auto simp: ws_plain_def ws_head_len_def ws_head_bytes_def Let_def split: option.splits)

lemma ws_plain_first: "\<exists>xs. ws_plain b0 mk d = b0 # xs"
  by (auto simp: ws_plain_def ws_head_bytes_def Let_def)

lemma ws_unmask_wire:
  assumes "mem = a @ ws_wire b0 mk d @ s" and "p = length a + ws_head_len mk d"
  shows "(if 0 < (if mk = None then 0 else 4::nat) then ws_unmask mem p (length d) else Some mem) =
    Some (a @ ws_plain b0 mk d @ d @ s)"
proof (cases mk)
  case None
  with assms show ?thesis by (simp add: ws_wire_def ws_plain_def)
next
  case (Some k)
  let ?h = "ws_head_bytes b0 (length d) True"
  have m: "mem = (a @ ?h) @ le32 k @ ws_xor (le32 k) d @ s" "mem = (a @ ?h @ le32 k) @ ws_xor (le32 k) d @ s"
    using assms Some by (simp_all add: ws_wire_def)
  have l: "ws_head_len mk d = length ?h + 4" "p = length (a @ ?h @ le32 k)" "p - 4 = length (a @ ?h)"
    using assms(2) Some by (simp_all add: ws_head_len_def ws_head_bytes_def Let_def)
  have "bslice mem (p - 4) 4 = le32 k" "bslice mem p (length d) = ws_xor (le32 k) d"
    by (subst m(1), rule bslice_append_mid, use l in simp_all) (subst m(2), rule bslice_append_mid, use l in simp_all)
  moreover have "overlay mem p d = (a @ ?h @ le32 k) @ d @ s"
    by (subst m(2), subst overlay_append, use l in simp_all)
  moreover have "p + length d \<le> length mem" by (subst m(2)) (use l in simp)
  ultimately show ?thesis using Some by (simp add: ws_unmask_def ws_plain_def)
qed

text \<open>What is in the receive buffer.\<close>

definition inq :: "'u mg_connection \<Rightarrow> bytes \<Rightarrow> bool" where
  "inq nc b \<longleftrightarrow> mbuf_inv (nc_recv nc) \<and> mbuf_bytes (nc_recv nc) = b"

lemma inq_mem:
  assumes "inq nc b"
  obtains t where "mb_mem (nc_recv nc) = b @ t" and "mb_len (nc_recv nc) = length b"
proof
  have inv: "mbuf_inv (nc_recv nc)" and b: "b = take (mb_len (nc_recv nc)) (mb_mem (nc_recv nc))"
    using assms by (simp_all add: inq_def mbuf_bytes_def)
  then show "mb_mem (nc_recv nc) = b @ drop (mb_len (nc_recv nc)) (mb_mem (nc_recv nc))"
    by (simp only: append_take_drop_id)
  show "mb_len (nc_recv nc) = length b" using length_mbuf_bytes [OF inv] assms by (simp add: inq_def)
qed

lemma inqI:
  assumes "mb_mem (nc_recv nc) = b @ t" "mb_len (nc_recv nc) = length b"
    "mb_size (nc_recv nc) = length (b @ t)" "mb_addr (nc_recv nc) < USER_SPACE"
    "b \<noteq> [] \<Longrightarrow> mb_addr (nc_recv nc) \<noteq> 0" "b = [] \<Longrightarrow> mb_addr (nc_recv nc) = 0 \<Longrightarrow> t = []"
  shows "inq nc b"
  using assms by (cases "b = []") (auto simp: inq_def mbuf_inv_def mbuf_bytes_def)

lemma rd32le_at:
  assumes "mem = a @ le32 w @ b" and "length a = i"
  shows "rd32le mem i = Some w"
proof -
  have "drop i mem = ucast w # ucast (drop_bit 8 w) # ucast (drop_bit 16 w) # ucast (drop_bit 24 w) # b"
    using assms by (simp add: le32_def be32_def)
  then have "rd mem i = Some (ucast w)" "rd mem (i + 1) = Some (ucast (drop_bit 8 w))"
    "rd mem (i + 2) = Some (ucast (drop_bit 16 w))" "rd mem (i + 3) = Some (ucast (drop_bit 24 w))"
    by (auto intro: rd_at [where p = i and a = "[]"] rd_at [where p = i and a = "[ucast w]"]
      rd_at [where p = i and a = "[ucast w, ucast (drop_bit 8 w)]"]
      rd_at [where p = i and a = "[ucast w, ucast (drop_bit 8 w), ucast (drop_bit 16 w)]"])
  then show ?thesis by (simp add: rd32le_def un32_be32)
qed

lemma overlay_in:
  assumes "mem = a @ x @ b" "length a = i" "length y = length x"
  shows "overlay mem i y = a @ y @ b"
  using assms by (simp add: overlay_def)

lemma ws_append_fragment_spec:
  assumes m: "mb_mem (nc_recv nc) = [f] @ le32 s @ acc @ x @ d @ t" and "mb_len (nc_recv nc) = e"
    and "buf = 5 + length acc" "data = buf + length x" "e = data + length d" "e < 2 ^ 64"
  shows "ws_append_fragment buf data n e nc = Some (nc\<lparr>nc_recv := (nc_recv nc)\<lparr>
    mb_mem := [f] @ le32 (s + of_nat n) @ acc @ d @ drop (length d) (x @ d @ t),
    mb_len := 5 + length acc + length d\<rparr>\<rparr>)"
proof -
  let ?a = "[f] @ le32 s @ acc" and ?m = "mb_mem (nc_recv nc)"
  have l: "length ?a = buf" "length (?a @ x) = data" "e - data = length d" using assms by simp_all
  have sl: "bslice ?m data (length d) = d"
    using bslice_append_mid [OF l(2) refl, of d t] m by simp
  have o: "overlay ?m buf d = [f] @ le32 s @ acc @ d @ drop (length d) (x @ d @ t)"
    using overlay_append [OF l(1), of "x @ d @ t" d] m by simp
  have "rd32le (overlay ?m buf d) 1 = Some s" by (rule rd32le_at [OF o]) simp
  moreover have "overlay (overlay ?m buf d) 1 (le32 (s + of_nat n)) =
      [f] @ le32 (s + of_nat n) @ acc @ d @ drop (length d) (x @ d @ t)"
    by (rule overlay_in [OF o]) simp_all
  moreover have "data + length d \<le> length ?m" "buf + length d \<le> length ?m" using m l by simp_all
  moreover have "nat ((int e - (int data - int buf)) mod 2 ^ 64) = 5 + length acc + length d"
    using assms by (simp add: nat_eq_iff)
  ultimately show ?thesis using assms(2) l(3) sl by (simp add: ws_append_fragment_def Let_def)
qed

section \<open>What the user sees\<close>

text \<open>A handler that leaves the receive buffer and the defragmentation flag alone and logs the frames
  it is given: whether it is a control frame, the flags and the data.\<close>

fun ws_view :: "ws_event mg_event \<Rightarrow> (bool \<times> u8 \<times> bytes) list" where
  "ws_view (EvProto (WsFrame m)) = [(False, wm_flags m, ms_bytes (wm_data m))]"
| "ws_view (EvProto (WsControlFrame m)) = [(True, wm_flags m, ms_bytes (wm_data m))]"
| "ws_view _ = []"

definition ws_listener :: "(ws_event, (bool \<times> u8 \<times> bytes) list) handler \<Rightarrow> bool" where
  "ws_listener h \<longleftrightarrow> (\<forall>ev nc. nc_recv (h ev nc) = nc_recv nc \<and> nc_user (h ev nc) = nc_user nc @ ws_view ev \<and>
     has_flag (h ev nc) MG_F_WEBSOCKET_NO_DEFRAG = has_flag nc MG_F_WEBSOCKET_NO_DEFRAG)"

text \<open>The state of a delivery: the address of the buffer, its contents and the log.\<close>

definition wsq :: "nat \<Rightarrow> (bool \<times> u8 \<times> bytes) list mg_connection \<Rightarrow> bytes \<Rightarrow> (bool \<times> u8 \<times> bytes) list \<Rightarrow> bool" where
  "wsq a nc b lg \<longleftrightarrow> inq nc b \<and> mb_addr (nc_recv nc) = a \<and> nc_user nc = lg \<and>
     \<not> has_flag nc MG_F_WEBSOCKET_NO_DEFRAG"

lemma call_user_no_defrag:
  "has_flag (mg_call_user (Some h) ev nc) MG_F_WEBSOCKET_NO_DEFRAG = has_flag (h ev nc) MG_F_WEBSOCKET_NO_DEFRAG"
proof -
  have "((x AND NOT callback_modifiable_flags) OR (y AND callback_modifiable_flags)) AND MG_F_WEBSOCKET_NO_DEFRAG =
      y AND MG_F_WEBSOCKET_NO_DEFRAG" for x y
  proof -
    have "MG_F_WEBSOCKET_NO_DEFRAG AND callback_modifiable_flags = MG_F_WEBSOCKET_NO_DEFRAG"
      unfolding callback_modifiable_flags_def flag_defs by simp
    then have "bit MG_F_WEBSOCKET_NO_DEFRAG i \<Longrightarrow> bit callback_modifiable_flags i" for i
      by (metis bit_and_iff)
    then show ?thesis by (auto intro!: bit_word_eqI simp: bit_simps)
  qed
  then show ?thesis by (auto simp: mg_call_user_def Let_def has_flag_def)
qed

lemma ws_listener_frame:
  fixes h nc D f
  defines "nc' \<equiv> mg_handle_incoming_websocket_frame h \<lparr>wm_data = D, wm_flags = f\<rparr> nc"
  assumes "ws_listener h"
  shows "nc_recv nc' = nc_recv nc" "nc_user nc' = nc_user nc @ [(f AND 8 \<noteq> 0, f, ms_bytes D)]"
    "has_flag nc' MG_F_WEBSOCKET_NO_DEFRAG = has_flag nc MG_F_WEBSOCKET_NO_DEFRAG"
  using assms(2) call_user_no_defrag [of h]
  by (auto simp: nc'_def mg_handle_incoming_websocket_frame_def ws_listener_def mg_call_user_send)

lemma close_flag_other [simp]: "MG_F_SEND_AND_CLOSE AND MG_F_WEBSOCKET_NO_DEFRAG = 0"
  by (simp add: flag_defs)

lemma wsq_close [simp]: "wsq a (if c then set_flag MG_F_SEND_AND_CLOSE nc else nc) b lg = wsq a nc b lg"
  by (auto simp: wsq_def inq_def)

lemma inq_remove:
  assumes "inq nc (b @ r)" and "length b = n"
  shows "inq (nc\<lparr>nc_recv := mbuf_remove (nc_recv nc) n\<rparr>) r"
proof -
  have "n \<le> mb_len (nc_recv nc)"
    using assms length_mbuf_bytes [of "nc_recv nc"] by (auto simp: inq_def)
  then show ?thesis
    using assms mbuf_remove_bytes [of "nc_recv nc" n] by (simp add: inq_def)
qed

lemma mbuf_remove_addr [simp]: "mb_addr (mbuf_remove m n) = mb_addr m"
  by (simp add: mbuf_remove_def)

lemma mbuf_remove_length: "mbuf_inv m \<Longrightarrow> length (mb_mem (mbuf_remove m n)) = length (mb_mem m)"
  by (auto simp: mbuf_remove_def overlay_def bslice_def mbuf_inv_def)

text \<open>The contents after the block has been rewritten in place.\<close>

lemma inq_rewrite:
  assumes "inq nc b" and "b \<noteq> []" and "length mem = length (mb_mem (nc_recv nc))"
    and "mem = b' @ t" and "l = length b'"
  shows "inq (nc\<lparr>nc_recv := (nc_recv nc)\<lparr>mb_mem := mem, mb_len := l\<rparr>\<rparr>) b'"
proof -
  have inv: "mbuf_inv (nc_recv nc)" "mb_len (nc_recv nc) = length b"
    using assms(1) inq_mem [OF assms(1)] by (auto simp: inq_def)
  then show ?thesis
    using assms(2-) by (auto simp: inq_def mbuf_inv_def mbuf_bytes_def)
qed

lemma frame_len_ok:
  assumes "length (ws_wire b0 mk d) \<le> n" "n < 2 ^ 63"
  shows "(ws_head_len mk d + length d) mod 2 ^ 64 = ws_head_len mk d + length d"
    "0 < ws_head_len mk d + length d" "ws_head_len mk d + length d \<le> n"
  using assms ws_head_len_bounds(1) [of mk d] by (simp_all add: length_ws_wire)

text \<open>What every delivery of a complete frame does before and after it is handed on.\<close>

lemma deliver_frame:
  assumes mem: "mb_mem (nc_recv nc) = A @ ws_wire b0 mk d @ s" and A: "length A = p"
    and len: "p + length (ws_wire b0 mk d) \<le> mb_len (nc_recv nc)" "mb_len (nc_recv nc) < 2 ^ 63"
    and x: "rd (mb_mem (nc_recv nc)) 0 = Some x"
    and re: "reass \<longleftrightarrow> mg_is_ws_fragment x \<and> \<not> has_flag nc MG_F_WEBSOCKET_NO_DEFRAG"
    and start: "ws_frame_start reass (mb_mem (nc_recv nc)) (mb_len (nc_recv nc)) = Some p"
    and nc1: "nc1 = nc\<lparr>nc_recv := (nc_recv nc)\<lparr>mb_mem := A @ ws_plain b0 mk d @ d @ s\<rparr>\<rparr>"
    and hand: "(if reass then ws_reassemble ra h b0 p (p + ws_head_len mk d) (length d) (mb_len (nc_recv nc)) nc1
      else Some (p, ws_whole_frame h b0 (p + ws_head_len mk d) (length d) (ws_head_len mk d + length d) nc1)) =
      Some (buf, nc2)"
    and nc2: "mb_addr (nc_recv nc2) = mb_addr (nc_recv nc)" "buf < length (mb_mem (nc_recv nc2))"
  shows "\<exists>c. mg_deliver_websocket_data ra h nc = Some (True, if c then set_flag MG_F_SEND_AND_CLOSE nc2 else nc2)"
proof -
  let ?m = "nc_recv nc" and ?hl = "ws_head_len mk d"
  obtain ml where ml: "ml = (if mk = None then 0 else 4::nat)" by blast
  have dr: "drop p (mb_mem ?m) = ws_wire b0 mk d @ s" using mem A by simp
  have hd: "ws_parse_header (mb_mem ?m) p (mb_len ?m - p) =
      Some \<lparr>wh_header_len = ?hl, wh_mask_len = ml, wh_data_len = length d\<rparr>"
    unfolding ml by (rule ws_parse_header_wire [OF dr]) (use len in \<open>simp_all add: length_ws_wire\<close>)
  have fl: "(?hl + length d) mod 2 ^ 64 = ?hl + length d" "0 < ?hl + length d" "?hl + length d \<le> mb_len ?m - p"
    using frame_len_ok [of b0 mk d "mb_len ?m - p"] len by simp_all
  have un: "(if 0 < ml then ws_unmask (mb_mem ?m) (p + ?hl) (length d) else Some (mb_mem ?m)) =
      Some (A @ ws_plain b0 mk d @ d @ s)"
    unfolding ml using ws_unmask_wire [OF mem, of "p + ?hl"] A by simp
  obtain xs where "ws_wire b0 mk d = b0 # xs" using ws_first_byte by blast
  then have b0: "rd (mb_mem ?m) p = Some b0" using rd_ahead [of p "mb_mem ?m" b0 "xs @ s"] dr by simp
  have pos: "0 < mb_len ?m" using len(1) ws_wire_nonempty [of b0 mk d] by (cases "mb_len ?m") auto
  have "ws_block (mb_addr ?m) nc2 = Some (mb_mem (nc_recv nc2))" using nc2 by (simp add: ws_block_def)
  moreover obtain y where "rd (mb_mem (nc_recv nc2)) buf = Some y" using nc2 by (simp add: rd_def)
  ultimately have "mg_deliver_websocket_data ra h nc =
      Some (True, if unat (y AND 0x0f) = WEBSOCKET_OP_CLOSE then set_flag MG_F_SEND_AND_CLOSE nc2 else nc2)"
    unfolding mg_deliver_websocket_data_def Let_def
    using pos x re start hd fl un b0 hand nc1 by (simp split del: if_split cong: if_cong)
  then show ?thesis by blast
qed

text \<open>A whole frame is handed to the user and removed.\<close>

lemma deliver_whole:
  assumes h: "ws_listener h" and q: "wsq a nc (ws_wire b0 mk d @ r) lg"
    and b0: "\<not> mg_is_ws_fragment b0" and small: "mb_len (nc_recv nc) < 2 ^ 63"
  shows "\<exists>nc'. mg_deliver_websocket_data ra h nc = Some (True, nc') \<and>
    wsq a nc' r (lg @ [(b0 AND 8 \<noteq> 0, b0, d)])"
proof -
  let ?w = "ws_wire b0 mk d" and ?h = "ws_head_len mk d" and ?m = "nc_recv nc"
  have iq: "inq nc (?w @ r)" using q by (simp add: wsq_def)
  then obtain t where mem: "mb_mem ?m = ?w @ r @ t" and len: "mb_len ?m = length (?w @ r)"
    by (metis inq_mem append_assoc)
  let ?mem = "ws_plain b0 mk d @ d @ r @ t"
  let ?nc = "nc\<lparr>nc_recv := ?m\<lparr>mb_mem := ?mem\<rparr>\<rparr>"
  let ?D = "\<lparr>ms_mem = ?mem, ms_p = ?h, ms_len = length d\<rparr>"
  let ?nc1 = "mg_handle_incoming_websocket_frame h \<lparr>wm_data = ?D, wm_flags = b0\<rparr> ?nc"
  let ?nc2 = "?nc1\<lparr>nc_recv := mbuf_remove (nc_recv ?nc1) (?h + length d)\<rparr>"
  note lst = ws_listener_frame [OF h, of ?D b0 ?nc]
  have ll: "length ?mem = length (mb_mem ?m)" using mem by (simp add: length_ws_wire)
  have "inq (nc\<lparr>nc_recv := ?m\<lparr>mb_mem := ?mem, mb_len := mb_len ?m\<rparr>\<rparr>) ((ws_plain b0 mk d @ d) @ r)"
    by (rule inq_rewrite [OF iq _ ll, where t = t]) (use len in \<open>simp_all add: length_ws_wire\<close>)
  then have iq1: "inq ?nc1 ((ws_plain b0 mk d @ d) @ r)" using lst(1) by (simp add: inq_def)
  have iq2: "inq ?nc2 r" by (rule inq_remove [OF iq1]) simp
  have "ms_bytes ?D = d" by (simp add: ms_bytes_def bslice_append_mid)
  then have q2: "wsq a ?nc2 r (lg @ [(b0 AND 8 \<noteq> 0, b0, d)])"
    using iq2 lst q by (simp add: wsq_def has_flag_def)
  have "length (mb_mem (nc_recv ?nc2)) = length ?mem"
    using lst(1) iq1 by (simp add: mbuf_remove_length inq_def)
  then have pos: "0 < length (mb_mem (nc_recv ?nc2))"
    using ws_head_len_bounds(1) [of mk d] by (simp del: length_greater_0_conv)
  obtain xs where w: "?w = b0 # xs" using ws_first_byte by blast
  have "\<exists>c. mg_deliver_websocket_data ra h nc = Some (True, if c then set_flag MG_F_SEND_AND_CLOSE ?nc2 else ?nc2)"
  proof (rule deliver_frame [where A = "[]" and p = 0 and reass = False and x = b0])
    show "(if False then ws_reassemble ra h b0 0 (0 + ?h) (length d) (mb_len ?m) ?nc
      else Some (0, ws_whole_frame h b0 (0 + ?h) (length d) (?h + length d) ?nc)) = Some (0, ?nc2)"
      by (simp add: ws_whole_frame_def Let_def)
  qed (use mem len small b0 w pos lst in \<open>auto simp: ws_frame_start_def rd_def\<close>)
  with q2 show ?thesis by (metis wsq_close)
qed

section \<open>Fragmented messages\<close>

text \<open>What the receive buffer holds of a message that is being put together: the first byte without
  its opcode, the size and the data so far.\<close>

definition ws_partial :: "u8 \<Rightarrow> bytes \<Rightarrow> bytes" where
  "ws_partial f acc = [f] @ le32 (of_nat (length acc)) @ acc"

lemma length_ws_partial [simp]: "length (ws_partial f acc) = 5 + length acc"
  by (simp add: ws_partial_def)

definition keeps_place :: "nat \<Rightarrow> realloc \<Rightarrow> bool" where
  "keeps_place a ra \<longleftrightarrow> realloc_ok ra \<and> (\<forall>m n. fst (ra a m n) = 0 \<or> fst (ra a m n) = a)"

lemma resize_keeps_place:
  assumes "keeps_place (mb_addr m) ra" and "mbuf_inv m" and "m' = mbuf_resize ra m (mb_size m + 4)"
  shows "mb_addr m' = mb_addr m" "mb_len m' = mb_len m" "mbuf_inv m'" "mbuf_bytes m' = mbuf_bytes m"
proof -
  have ok: "realloc_ok ra" and p: "\<forall>m1 n. fst (ra (mb_addr m) m1 n) = 0 \<or> fst (ra (mb_addr m) m1 n) = mb_addr m"
    using assms(1) by (simp_all add: keeps_place_def)
  show "mbuf_inv m'" "mbuf_bytes m' = mbuf_bytes m"
    using mbuf_resize_inv [OF ok assms(2)] assms(3) by simp_all
  obtain q mem where r: "ra (mb_addr m) (mb_mem m) (mb_size m + 4) = (q, mem)" by fastforce
  with p have "q = 0 \<or> q = mb_addr m" by (metis fst_conv)
  with r assms(3) show "mb_addr m' = mb_addr m" "mb_len m' = mb_len m"
    by (auto simp: mbuf_resize_def)
qed

text \<open>The first fragment becomes a partial message.\<close>

lemma deliver_first:
  assumes q: "wsq a nc (ws_wire b0 (Some k) d @ r) lg" and b0: "mg_is_ws_first_fragment b0"
    and ra: "keeps_place a ra" and small: "mb_len (nc_recv nc) < 2 ^ 62"
  shows "\<exists>nc'. mg_deliver_websocket_data ra h nc = Some (True, nc') \<and>
    wsq a nc' (ws_partial (b0 AND NOT 0x0f) d @ r) lg"
proof -
  let ?w = "ws_wire b0 (Some k) d" and ?h = "ws_head_len (Some k) d" and ?m = "nc_recv nc"
  let ?f = "b0 AND NOT 0x0f" and ?p = "ws_plain b0 (Some k) d"
  have iq: "inq nc (?w @ r)" and addr: "mb_addr ?m = a" using q by (simp_all add: wsq_def)
  then obtain t where mem: "mb_mem ?m = ?w @ r @ t" and len: "mb_len ?m = length (?w @ r)"
    by (metis inq_mem append_assoc)
  let ?mem = "?p @ d @ r @ t"
  let ?m1 = "?m\<lparr>mb_mem := ?mem\<rparr>"
  have ll: "length ?mem = length (mb_mem ?m)" using mem by (simp add: length_ws_wire)
  have h6: "6 \<le> ?h" using ws_head_len_bounds(3) [of "Some k" d] by simp
  have iq1: "inq (nc\<lparr>nc_recv := ?m\<lparr>mb_mem := ?mem, mb_len := mb_len ?m\<rparr>\<rparr>) (?p @ d @ r)"
    by (rule inq_rewrite [OF iq _ ll, where t = t]) (use len in \<open>simp_all add: length_ws_wire\<close>)
  then have inv1: "mbuf_inv ?m1" "mbuf_bytes ?m1 = ?p @ d @ r" by (simp_all add: inq_def)
  define m2 where "m2 = mbuf_resize ra ?m1 (mb_size ?m1 + 4)"
  have rs: "mb_addr m2 = a" "mb_len m2 = mb_len ?m" "mbuf_inv m2" "mbuf_bytes m2 = ?p @ d @ r"
    using resize_keeps_place [of ?m1 ra m2] inv1 ra addr m2_def by simp_all
  let ?nc2 = "nc\<lparr>nc_recv := m2\<rparr>"
  have iq2: "inq ?nc2 (?p @ d @ r)" using rs by (simp add: inq_def)
  then obtain t2 where mem2: "mb_mem m2 = ?p @ d @ r @ t2" by (auto elim: inq_mem)
  obtain xs where xs: "?p = b0 # xs" using ws_plain_first by blast
  have xsl: "length xs = ?h - 1" using arg_cong [OF xs, of length] by simp
  define x where "x = drop 4 xs"
  have lx: "length x = ?h - 5" "length (take 4 xs) = 4" using xsl h6 by (simp_all add: x_def)
  have mem2': "mb_mem m2 = [b0] @ take 4 xs @ x @ (d @ r) @ t2"
    using mem2 xs by (simp add: x_def)
  have o1: "overlay (mb_mem m2) 0 [?f] = [?f] @ take 4 xs @ x @ (d @ r) @ t2"
    using overlay_in [where a = "[]" and x = "[b0]"] mem2' by simp
  have o2: "overlay (overlay (mb_mem m2) 0 [?f]) 1 (le32 0) = [?f] @ le32 0 @ x @ (d @ r) @ t2"
    by (rule overlay_in [OF o1]) (use lx in simp_all)
  let ?m3 = "m2\<lparr>mb_mem := [?f] @ le32 0 @ [] @ x @ (d @ r) @ t2\<rparr>"
  let ?nc3 = "nc\<lparr>nc_recv := ?m3\<rparr>"
  have first: "ws_first_fragment ra (nc\<lparr>nc_recv := ?m1\<rparr>) = Some (5, ?nc3)"
    using rs(1) addr mem2' o2 lx
    by (simp add: ws_first_fragment_def Let_def m2_def [symmetric, simplified] rd_def)
  let ?nc4 = "?nc3\<lparr>nc_recv := (nc_recv ?nc3)\<lparr>mb_mem := [?f] @ le32 (0 + of_nat (length d)) @ [] @ (d @ r) @
      drop (length (d @ r)) (x @ (d @ r) @ t2), mb_len := 5 + length ([] :: bytes) + length (d @ r)\<rparr>\<rparr>"
  have e: "mb_len ?m = ?h + length (d @ r)" using len by (simp add: length_ws_wire)
  have app: "ws_append_fragment 5 ?h (length d) (mb_len ?m) ?nc3 = Some ?nc4"
  proof (rule ws_append_fragment_spec)
    show "mb_mem (nc_recv ?nc3) = [?f] @ le32 0 @ [] @ x @ (d @ r) @ t2" by simp
    show "mb_len (nc_recv ?nc3) = mb_len ?m" using rs(2) by simp
    show "(?h :: nat) = 5 + length x" using lx h6 by simp
    show "mb_len ?m < 2 ^ 64" using small by simp
  qed (use e in simp_all)
  have ll2: "length (mb_mem m2) = 1 + 4 + length x + length d + length r + length t2"
    using mem2' lx(2) by simp
  have "inq ?nc4 (ws_partial ?f d @ r)"
    using inq_rewrite [of ?nc2 "?p @ d @ r" "[?f] @ le32 (of_nat (length d)) @ (d @ r) @ drop (length (d @ r)) (x @ (d @ r) @ t2)"
      "ws_partial ?f d @ r" "drop (length (d @ r)) (x @ (d @ r) @ t2)" "5 + length (d @ r)"] iq2 xs ll2
    by (simp add: ws_partial_def)
  then have q4: "wsq a ?nc4 (ws_partial ?f d @ r) lg"
    using q rs(1) by (simp add: wsq_def has_flag_def)
  have nofin: "b0 AND 0x80 = 0" using b0 by (simp add: mg_is_ws_first_fragment_def)
  obtain ys where w: "?w = b0 # ys" using ws_first_byte by blast
  have "\<exists>c. mg_deliver_websocket_data ra h nc = Some (True, if c then set_flag MG_F_SEND_AND_CLOSE ?nc4 else ?nc4)"
  proof (rule deliver_frame [where A = "[]" and p = 0 and reass = True and x = b0 and buf = 5])
    show "(if True then ws_reassemble ra h b0 0 (0 + ?h) (length d) (mb_len ?m) (nc\<lparr>nc_recv := ?m1\<rparr>)
      else Some (0, ws_whole_frame h b0 (0 + ?h) (length d) (?h + length d) (nc\<lparr>nc_recv := ?m1\<rparr>))) = Some (5, ?nc4)"
      using first app nofin b0 by (simp add: ws_reassemble_def del: append.simps)
    have "length (mb_mem (nc_recv ?nc4)) = 5 + length (d @ r) + (length x + length t2)" by simp
    then show "5 < length (mb_mem (nc_recv ?nc4))" using lx(1) h6 by linarith
  qed (use mem len small b0 w q rs addr lx ll2 in
      \<open>auto simp: ws_frame_start_def rd_def wsq_def mg_is_ws_fragment_def mg_is_ws_first_fragment_def\<close>)
  with q4 show ?thesis by (metis wsq_close)
qed

text \<open>The state before a continuation frame is handed on, and what appending its data gives.\<close>

definition ws_cleared :: "u8 \<Rightarrow> bool" where
  "ws_cleared f \<longleftrightarrow> f AND 0x80 = 0 \<and> f AND 0x0f = 0"

lemma cleared_fragment: "ws_cleared f \<Longrightarrow> mg_is_ws_fragment f \<and> \<not> mg_is_ws_first_fragment f"
  by (simp add: ws_cleared_def mg_is_ws_fragment_def mg_is_ws_first_fragment_def)

lemma first_cleared: "mg_is_ws_first_fragment b0 \<Longrightarrow> ws_cleared (b0 AND NOT 0x0f)"
proof -
  assume "mg_is_ws_first_fragment b0"
  then have z: "b0 AND 0x80 = 0" by (simp add: mg_is_ws_first_fragment_def)
  have "(b0 AND NOT 0x0f) AND 0x80 = b0 AND 0x80" "(b0 AND NOT 0x0f) AND 0x0f = (0 :: u8)"
    by (auto intro!: u8_eqI simp: bit_simps)
  with z show ?thesis by (simp add: ws_cleared_def)
qed

lemma append_partial:
  fixes nc :: "(bool \<times> u8 \<times> bytes) list mg_connection"
  assumes q: "wsq a nc (ws_partial f acc @ ws_wire b1 mk d @ r) lg"
    and mem: "mb_mem (nc_recv nc) = ws_partial f acc @ ws_wire b1 mk d @ r @ t"
    and small: "mb_len (nc_recv nc) < 2 ^ 62"
    and nc1: "nc1 = nc\<lparr>nc_recv := (nc_recv nc)\<lparr>mb_mem := ws_partial f acc @ ws_plain b1 mk d @ d @ r @ t\<rparr>\<rparr>"
  shows "\<exists>nc2. ws_append_fragment (5 + length acc) (5 + length acc + ws_head_len mk d) (length d) (mb_len (nc_recv nc)) nc1 =
      Some nc2 \<and> wsq a nc2 (ws_partial f (acc @ d) @ r) lg \<and> length (mb_mem (nc_recv nc2)) = length (mb_mem (nc_recv nc))"
proof -
  let ?m = "nc_recv nc" and ?h = "ws_head_len mk d"
  have iq: "inq nc (ws_partial f acc @ ws_wire b1 mk d @ r)" using q by (simp add: wsq_def)
  have len: "mb_len ?m = 5 + length acc + ?h + length (d @ r)"
    using inq_mem [OF iq] by (metis (no_types, lifting) add.assoc length_append length_ws_partial length_ws_wire)
  let ?mem = "[f] @ le32 (of_nat (length acc) + of_nat (length d)) @ acc @ (d @ r) @
    drop (length (d @ r)) (ws_plain b1 mk d @ (d @ r) @ t)"
  let ?nc2 = "nc1\<lparr>nc_recv := (nc_recv nc1)\<lparr>mb_mem := ?mem, mb_len := 5 + length acc + length (d @ r)\<rparr>\<rparr>"
  have app: "ws_append_fragment (5 + length acc) (5 + length acc + ?h) (length d) (mb_len ?m) nc1 = Some ?nc2"
  proof (rule ws_append_fragment_spec)
    show "mb_mem (nc_recv nc1) = [f] @ le32 (of_nat (length acc)) @ acc @ ws_plain b1 mk d @ (d @ r) @ t"
      by (simp add: nc1 ws_partial_def)
    show "mb_len (nc_recv nc1) = mb_len ?m" by (simp add: nc1)
    show "mb_len ?m < 2 ^ 64" using small by simp
  qed (use len in simp_all)
  have l: "length ?mem = length (mb_mem ?m)" using mem by (simp add: length_ws_wire)
  have "inq (nc\<lparr>nc_recv := (nc_recv nc)\<lparr>mb_mem := ?mem, mb_len := 5 + length acc + length (d @ r)\<rparr>\<rparr>)
      (ws_partial f (acc @ d) @ r)"
    by (rule inq_rewrite [OF iq _ l, where t = "drop (length (d @ r)) (ws_plain b1 mk d @ (d @ r) @ t)"])
      (simp_all add: ws_partial_def)
  then have "wsq a ?nc2 (ws_partial f (acc @ d) @ r) lg" using q by (simp add: wsq_def inq_def nc1 has_flag_def)
  with app l show ?thesis by (intro exI [where x = ?nc2]) simp
qed

lemma partial_start:
  assumes "mb_mem (nc_recv nc) = ws_partial f acc @ s" and "ws_cleared f" and "length acc < 2 ^ 32"
    and "5 + length acc \<le> n"
  shows "ws_frame_start True (mb_mem (nc_recv nc)) n = Some (5 + length acc)"
    "rd (mb_mem (nc_recv nc)) 0 = Some f"
proof -
  show x: "rd (mb_mem (nc_recv nc)) 0 = Some f" using assms(1) by (simp add: ws_partial_def rd_def)
  have "rd32le (mb_mem (nc_recv nc)) 1 = Some (of_nat (length acc))"
    using assms(1) by (intro rd32le_at [where a = "[f]" and b = "acc @ s"]) (simp_all add: ws_partial_def)
  moreover have "unat (of_nat (length acc) :: u32) = length acc" using assms(3) by (intro unat_of_nat_small) simp
  ultimately show "ws_frame_start True (mb_mem (nc_recv nc)) n = Some (5 + length acc)"
    using x assms(4) cleared_fragment [OF assms(2)] by (simp add: ws_frame_start_def)
qed

text \<open>A continuation that is not the last extends the partial message.\<close>

lemma deliver_next:
  assumes q: "wsq a nc (ws_partial f acc @ ws_wire b1 mk d @ r) lg" and f: "ws_cleared f"
    and b1: "b1 AND 0x80 = 0" "b1 AND 0x0f = 0"
    and small: "mb_len (nc_recv nc) < 2 ^ 62" "length acc < 2 ^ 32"
  shows "\<exists>nc'. mg_deliver_websocket_data ra h nc = Some (True, nc') \<and>
    wsq a nc' (ws_partial f (acc @ d) @ r) lg"
proof -
  let ?m = "nc_recv nc" and ?h = "ws_head_len mk d" and ?p = "5 + length acc"
  have iq: "inq nc (ws_partial f acc @ ws_wire b1 mk d @ r)" using q by (simp add: wsq_def)
  then obtain t where mem: "mb_mem ?m = ws_partial f acc @ ws_wire b1 mk d @ r @ t"
    and len: "mb_len ?m = length (ws_partial f acc @ ws_wire b1 mk d @ r)" by (rule inq_mem) simp
  let ?nc1 = "nc\<lparr>nc_recv := ?m\<lparr>mb_mem := ws_partial f acc @ ws_plain b1 mk d @ d @ r @ t\<rparr>\<rparr>"
  obtain nc2 where app: "ws_append_fragment ?p (?p + ?h) (length d) (mb_len ?m) ?nc1 = Some nc2"
    and q2: "wsq a nc2 (ws_partial f (acc @ d) @ r) lg" and l2: "length (mb_mem (nc_recv nc2)) = length (mb_mem ?m)"
    using append_partial [OF q mem small(1) refl] by blast
  note st = partial_start [OF mem f small(2), of "mb_len ?m"]
  have "\<exists>c. mg_deliver_websocket_data ra h nc = Some (True, if c then set_flag MG_F_SEND_AND_CLOSE nc2 else nc2)"
  proof (rule deliver_frame [where p = ?p and reass = True and buf = ?p, OF mem])
    show "(if True then ws_reassemble ra h b1 ?p (?p + ?h) (length d) (mb_len ?m) ?nc1
      else Some (?p, ws_whole_frame h b1 (?p + ?h) (length d) (?h + length d) ?nc1)) = Some (?p, nc2)"
      using app b1 by (simp add: ws_reassemble_def mg_is_ws_first_fragment_def)
    show "?p < length (mb_mem (nc_recv nc2))"
      using l2 mem ws_head_len_bounds(1) [of mk d] by (simp add: length_ws_wire)
  qed (use st len small f q q2 cleared_fragment [of f] in \<open>auto simp: wsq_def\<close>)
  with q2 show ?thesis by (metis wsq_close)
qed

text \<open>The last fragment: the whole message is handed to the user and removed.\<close>

lemma deliver_last:
  assumes h: "ws_listener h" and q: "wsq a nc (ws_partial f acc @ ws_wire b1 mk d @ r) lg" and f: "ws_cleared f"
    and b1: "b1 AND 0x80 \<noteq> 0"
    and small: "mb_len (nc_recv nc) < 2 ^ 62" "length (acc @ d) < 2 ^ 32"
  shows "\<exists>nc'. mg_deliver_websocket_data ra h nc = Some (True, nc') \<and>
    wsq a nc' r (lg @ [(b1 AND 8 \<noteq> 0, b1, acc @ d)])"
proof -
  let ?m = "nc_recv nc" and ?h = "ws_head_len mk d" and ?p = "5 + length acc"
  have iq: "inq nc (ws_partial f acc @ ws_wire b1 mk d @ r)" using q by (simp add: wsq_def)
  then obtain t where mem: "mb_mem ?m = ws_partial f acc @ ws_wire b1 mk d @ r @ t"
    and len: "mb_len ?m = length (ws_partial f acc @ ws_wire b1 mk d @ r)" by (rule inq_mem) simp
  let ?nc1 = "nc\<lparr>nc_recv := ?m\<lparr>mb_mem := ws_partial f acc @ ws_plain b1 mk d @ d @ r @ t\<rparr>\<rparr>"
  obtain nc2 where app: "ws_append_fragment ?p (?p + ?h) (length d) (mb_len ?m) ?nc1 = Some nc2"
    and q2: "wsq a nc2 (ws_partial f (acc @ d) @ r) lg" and l2: "length (mb_mem (nc_recv nc2)) = length (mb_mem ?m)"
    using append_partial [OF q mem small(1) refl] by blast
  obtain t2 where mem2: "mb_mem (nc_recv nc2) = ws_partial f (acc @ d) @ r @ t2"
    using q2 by (metis wsq_def inq_mem append_assoc)
  have sz: "rd32le (mb_mem (nc_recv nc2)) 1 = Some (of_nat (length (acc @ d)))"
    using mem2 by (intro rd32le_at [where a = "[f]" and b = "acc @ d @ r @ t2"]) (simp_all add: ws_partial_def)
  let ?D = "\<lparr>ms_mem = mb_mem (nc_recv nc2), ms_p = 5, ms_len = length (acc @ d)\<rparr>"
  let ?nc3 = "mg_handle_incoming_websocket_frame h \<lparr>wm_data = ?D, wm_flags = b1\<rparr> nc2"
  let ?nc4 = "?nc3\<lparr>nc_recv := mbuf_remove (nc_recv ?nc3) (5 + length (acc @ d))\<rparr>"
  note lst = ws_listener_frame [OF h, of ?D b1 nc2]
  have iq3: "inq ?nc3 (ws_partial f (acc @ d) @ r)" using lst(1) q2 by (simp add: wsq_def inq_def)
  have "ms_bytes ?D = acc @ d"
    using mem2 bslice_append_mid [of "[f] @ le32 (of_nat (length (acc @ d)))" 5 "acc @ d" "length (acc @ d)" "r @ t2"]
    by (simp add: ms_bytes_def ws_partial_def)
  then have q4: "wsq a ?nc4 r (lg @ [(b1 AND 8 \<noteq> 0, b1, acc @ d)])"
    using inq_remove [OF iq3, of "5 + length (acc @ d)"] lst q2 by (simp add: wsq_def has_flag_def)
  have l4: "length (mb_mem (nc_recv ?nc4)) = length (mb_mem ?m)"
    using iq3 lst(1) l2 by (simp add: mbuf_remove_length inq_def)
  have un: "unat (of_nat (length (acc @ d)) :: u32) = length (acc @ d)"
    using small(2) by (intro unat_of_nat_small) simp
  have acc: "length acc < 2 ^ 32" using small(2) by simp
  note st = partial_start [OF mem f acc, of "mb_len ?m"]
  have nf: "\<not> mg_is_ws_first_fragment b1" using b1 by (simp add: mg_is_ws_first_fragment_def)
  have blk: "ws_block (mb_addr (nc_recv nc2)) ?nc3 = Some (mb_mem (nc_recv nc2))"
    using lst(1) by (simp add: ws_block_def)
  have re: "ws_reassemble ra h b1 ?p (?p + ?h) (length d) (mb_len ?m) ?nc1 = Some (?p, ?nc4)"
    unfolding ws_reassemble_def Let_def using nf app sz b1 blk un by (simp del: length_append)
  have "\<exists>c. mg_deliver_websocket_data ra h nc = Some (True, if c then set_flag MG_F_SEND_AND_CLOSE ?nc4 else ?nc4)"
  proof (rule deliver_frame [where p = ?p and reass = True and buf = ?p, OF mem])
    show "(if True then ws_reassemble ra h b1 ?p (?p + ?h) (length d) (mb_len ?m) ?nc1
      else Some (?p, ws_whole_frame h b1 (?p + ?h) (length d) (?h + length d) ?nc1)) = Some (?p, ?nc4)"
      using re by simp
    show "?p < length (mb_mem (nc_recv ?nc4))"
      using l4 mem ws_head_len_bounds(1) [of mk d] by (simp add: length_ws_wire)
    show "mb_addr (nc_recv ?nc4) = mb_addr ?m" using q q4 by (simp add: wsq_def)
  qed (use st len small f q q4 cleared_fragment [of f] in \<open>auto simp: wsq_def\<close>)
  with q4 show ?thesis by (metis wsq_close)
qed

lemma last_fragment_byte:
  assumes "b1 AND 0x8f = (0x80 :: u8)"
  shows "b1 AND 0x80 \<noteq> 0" and "b1 AND 8 = 0"
proof -
  have "b1 AND 0x80 = (b1 AND 0x8f) AND 0x80" "b1 AND 8 = (b1 AND 0x8f) AND 8"
    by (simp_all add: and.assoc)
  then show "b1 AND 0x80 \<noteq> 0" and "b1 AND 8 = 0" by (simp_all add: assms)
qed

section \<open>A stream of messages\<close>

text \<open>Messages as they travel: in one frame, or as a masked first fragment, continuations and a last one.\<close>

datatype ws_traffic =
  is_Whole: Whole u8 "u32 option" bytes
| Fragmented u8 u32 bytes "(u32 option \<times> bytes) list" u8 "u32 option" bytes

definition ws_rest_wire :: "(u32 option \<times> bytes) list \<Rightarrow> u8 \<Rightarrow> u32 option \<Rightarrow> bytes \<Rightarrow> bytes" where
  "ws_rest_wire mids b1 mk d = concat (map (\<lambda>(k, e). ws_wire 0 k e) mids) @ ws_wire b1 mk d"

fun traffic_wire :: "ws_traffic \<Rightarrow> bytes" where
  "traffic_wire (Whole b0 mk d) = ws_wire b0 mk d"
| "traffic_wire (Fragmented b0 k d0 mids b1 mk d) = ws_wire b0 (Some k) d0 @ ws_rest_wire mids b1 mk d"

fun traffic_ok :: "ws_traffic \<Rightarrow> bool" where
  "traffic_ok (Whole b0 mk d) \<longleftrightarrow> \<not> mg_is_ws_fragment b0"
| "traffic_ok (Fragmented b0 k d0 mids b1 mk d) \<longleftrightarrow>
     mg_is_ws_first_fragment b0 \<and> b1 AND 0x80 \<noteq> 0 \<and> length (d0 @ concat (map snd mids) @ d) < 2 ^ 32"

fun traffic_log :: "ws_traffic \<Rightarrow> bool \<times> u8 \<times> bytes" where
  "traffic_log (Whole b0 mk d) = (b0 AND 8 \<noteq> 0, b0, d)"
| "traffic_log (Fragmented b0 k d0 mids b1 mk d) = (b1 AND 8 \<noteq> 0, b1, d0 @ concat (map snd mids) @ d)"

lemma deliver_all_step:
  "mg_deliver_websocket_data ra h nc = Some (True, nc') \<Longrightarrow> ws_deliver_all ra h nc = ws_deliver_all ra h nc'"
  by (subst ws_deliver_all.simps) simp

lemma deliver_all_end:
  assumes "wsq a nc [] lg"
  shows "ws_deliver_all ra h nc = Some nc"
proof -
  have "mb_len (nc_recv nc) = 0" using assms inq_mem [of nc "[]"] by (auto simp: wsq_def)
  then have "mg_deliver_websocket_data ra h nc = Some (False, nc)"
    by (simp add: mg_deliver_websocket_data_def ws_frame_start_def ws_parse_header_def Let_def)
  then show ?thesis by (subst ws_deliver_all.simps) simp
qed

lemma wsq_len: "wsq a nc b lg \<Longrightarrow> mb_len (nc_recv nc) = length b"
  by (auto simp: wsq_def elim: inq_mem)

lemma deliver_rest:
  assumes h: "ws_listener h" and f: "ws_cleared f" and b1: "b1 AND 0x80 \<noteq> 0"
  shows "wsq a nc (ws_partial f acc @ ws_rest_wire mids b1 mk d @ r) lg \<Longrightarrow>
    length (ws_partial f acc @ ws_rest_wire mids b1 mk d @ r) < 2 ^ 62 \<Longrightarrow>
    length (acc @ concat (map snd mids) @ d) < 2 ^ 32 \<Longrightarrow>
    \<exists>nc'. ws_deliver_all ra h nc = ws_deliver_all ra h nc' \<and>
      wsq a nc' r (lg @ [(b1 AND 8 \<noteq> 0, b1, acc @ concat (map snd mids) @ d)])"
proof (induction mids arbitrary: nc acc)
  case Nil
  then have q: "wsq a nc (ws_partial f acc @ ws_wire b1 mk d @ r) lg" by (simp add: ws_rest_wire_def)
  from deliver_last [OF h q f b1] show ?case
    using Nil.prems wsq_len [OF q] deliver_all_step by (fastforce simp: ws_rest_wire_def)
next
  case (Cons m mids)
  obtain k e where m: "m = (k, e)" by fastforce
  have q: "wsq a nc (ws_partial f acc @ ws_wire 0 k e @ ws_rest_wire mids b1 mk d @ r) lg"
    using Cons.prems(1) m by (simp add: ws_rest_wire_def)
  have l: "mb_len (nc_recv nc) < 2 ^ 62" "length acc < 2 ^ 32"
    using Cons.prems(2,3) wsq_len [OF Cons.prems(1)] by simp_all
  obtain nc' where d: "mg_deliver_websocket_data ra h nc = Some (True, nc')"
    and q': "wsq a nc' (ws_partial f (acc @ e) @ ws_rest_wire mids b1 mk d @ r) lg"
    using deliver_next [OF q f _ _ l, of ra h] by auto
  have "length (ws_partial f (acc @ e) @ ws_rest_wire mids b1 mk d @ r) < 2 ^ 62"
    using Cons.prems(2) m ws_head_len_bounds(1) [of k e] by (simp add: ws_rest_wire_def length_ws_wire)
  from Cons.IH [OF q' this] Cons.prems(3) m deliver_all_step [OF d] show ?case by simp
qed

lemma deliver_traffic:
  assumes h: "ws_listener h" and ra: "is_Whole m \<or> keeps_place a ra" and ok: "traffic_ok m"
    and q: "wsq a nc (traffic_wire m @ r) lg" and small: "length (traffic_wire m @ r) < 2 ^ 62"
  shows "\<exists>nc'. ws_deliver_all ra h nc = ws_deliver_all ra h nc' \<and> wsq a nc' r (lg @ [traffic_log m])"
proof (cases m)
  case (Whole b0 mk d)
  have l: "mb_len (nc_recv nc) < 2 ^ 63" using wsq_len [OF q] small by simp
  from q Whole have "wsq a nc (ws_wire b0 mk d @ r) lg" by simp
  from deliver_whole [OF h this _ l, of ra] ok Whole show ?thesis using deliver_all_step by fastforce
next
  case (Fragmented b0 k d0 mids b1 mk d)
  have first: "mg_is_ws_first_fragment b0" and b1: "b1 AND 0x80 \<noteq> 0"
    and total: "length (d0 @ concat (map snd mids) @ d) < 2 ^ 32" using ok Fragmented by simp_all
  have q': "wsq a nc (ws_wire b0 (Some k) d0 @ ws_rest_wire mids b1 mk d @ r) lg" using q Fragmented by simp
  have l: "mb_len (nc_recv nc) < 2 ^ 62" using wsq_len [OF q] small by simp
  obtain nc1 where d1: "mg_deliver_websocket_data ra h nc = Some (True, nc1)"
    and q1: "wsq a nc1 (ws_partial (b0 AND NOT 0x0f) d0 @ ws_rest_wire mids b1 mk d @ r) lg"
    using deliver_first [OF q' first _ l, of ra h] ra Fragmented by auto
  have "length (ws_partial (b0 AND NOT 0x0f) d0 @ ws_rest_wire mids b1 mk d @ r) < 2 ^ 62"
    using small Fragmented ws_head_len_bounds(3) [of "Some k" d0] by (simp add: length_ws_wire)
  from deliver_rest [OF h first_cleared [OF first] b1 q1 this total]
  show ?thesis using deliver_all_step [OF d1] Fragmented by simp
qed

lemma deliver_stream:
  assumes "ws_listener h"
  shows "\<forall>m \<in> set ms. traffic_ok m \<and> (is_Whole m \<or> keeps_place a ra) \<Longrightarrow> wsq a nc (concat (map traffic_wire ms)) lg \<Longrightarrow>
    length (concat (map traffic_wire ms)) < 2 ^ 62 \<Longrightarrow>
    \<exists>nc'. ws_deliver_all ra h nc = Some nc' \<and> wsq a nc' [] (lg @ map traffic_log ms)"
proof (induction ms arbitrary: nc lg)
  case Nil
  then show ?case using deliver_all_end by fastforce
next
  case (Cons m ms)
  have q: "wsq a nc (traffic_wire m @ concat (map traffic_wire ms)) lg" using Cons.prems(2) by simp
  obtain nc1 where "ws_deliver_all ra h nc = ws_deliver_all ra h nc1"
    and "wsq a nc1 (concat (map traffic_wire ms)) (lg @ [traffic_log m])"
    using deliver_traffic [OF assms _ _ q, of ra] Cons.prems by auto
  with Cons.IH [of nc1 "lg @ [traffic_log m]"] Cons.prems show ?case by simp
qed

section \<open>Sending\<close>

definition ws_op_byte :: "nat \<Rightarrow> u8" where
  "ws_op_byte op = (if op AND WEBSOCKET_DONT_FIN \<noteq> 0 then 0 else 0x80) + of_nat (op AND 0x0f)"

lemma ws_header_bytes_eq: "ws_header_bytes op len masked = ws_head_bytes (ws_op_byte op) len masked"
  by (simp add: ws_header_bytes_def ws_head_bytes_def ws_op_byte_def)

lemma mask_frame_spec:
  assumes "mbuf_inv m" and "mbuf_bytes m = b @ d" and "length b = wc_pos ctx" and "wc_pos ctx \<noteq> 0"
  shows "\<exists>m'. mg_ws_mask_frame m ctx = Some m' \<and> mbuf_inv m' \<and> mbuf_bytes m' = b @ ws_xor (le32 (wc_mask ctx)) d"
proof -
  have l: "mb_len m = length b + length d" using assms(1,2) length_mbuf_bytes [of m] by simp
  have mem: "mb_mem m = b @ d @ drop (mb_len m) (mb_mem m)"
    using assms(2) by (metis append_take_drop_id mbuf_bytes_def append_assoc)
  obtain t where t: "mb_mem m = b @ d @ t" using mem by blast
  have sl: "bslice (mb_mem m) (length b) (length d) = d" using t bslice_append_mid [OF refl refl] by simp
  have "overlay (mb_mem m) (length b) (ws_xor (le32 (wc_mask ctx)) d) = b @ ws_xor (le32 (wc_mask ctx)) d @ t"
    by (rule overlay_in [OF t]) simp_all
  with assms(1,3,4) l t sl show ?thesis by (auto simp: mg_ws_mask_frame_def mbuf_inv_def mbuf_bytes_def)
qed

text \<open>A frame sent is the frame on the wire.\<close>

lemma send_frame_wire:
  assumes rel: "reliable K (io_ra io)" and q: "outq nc b"
    and fits: "mbuf_grow (length (b @ ws_wire (ws_op_byte op) (if client then Some mk else None) d)) \<le> K"
    and small: "length d < 2 ^ 31"
  shows "\<exists>nc'. mg_send_websocket_frame io mk client op d nc = Some nc' \<and>
    outq nc' (b @ ws_wire (ws_op_byte op) (if client then Some mk else None) d)"
proof -
  let ?h = "ws_head_bytes (ws_op_byte op) (length d)"
  have room: "mbuf_grow (length (b @ concat ds)) \<le> K"
    if "length (concat ds) \<le> length (ws_wire (ws_op_byte op) (if client then Some mk else None) d)" for ds
    using order_trans [OF mbuf_grow_mono fits, of "length (b @ concat ds)"] that by simp
  have hl: "length (?h m) < 2 ^ 31" for m by (simp add: ws_head_bytes_def Let_def)
  show ?thesis
  proof (cases client)
    case True
    let ?nc = "mg_sends io [?h True, le32 mk, d] nc" and ?nc2 = "mg_sends io [?h True, le32 mk] nc"
    have o: "outq ?nc (b @ concat [?h True, le32 mk, d])"
      by (rule outq_sends [OF rel q room]) (use True small hl in \<open>simp_all add: ws_wire_def\<close>)
    have "outq ?nc2 (b @ concat [?h True, le32 mk])"
      by (rule outq_sends [OF rel q room]) (use True small hl in \<open>simp_all add: ws_wire_def\<close>)
    from outq_len [OF this] have pos: "mb_len (nc_send ?nc2) = length (b @ ?h True @ le32 mk)" by simp
    let ?ctx = "\<lparr>wc_pos = mb_len (nc_send ?nc2), wc_mask = mk\<rparr>"
    obtain m where m: "mg_ws_mask_frame (nc_send ?nc) ?ctx = Some m" "mbuf_inv m"
      "mbuf_bytes m = (b @ ?h True @ le32 mk) @ ws_xor (le32 mk) d"
      using mask_frame_spec [of "nc_send ?nc" "b @ ?h True @ le32 mk" d ?ctx] o pos by (auto simp: outq_def)
    have "mg_send_ws_header io mk client op (length d) nc = (?ctx, ?nc2)"
      using True by (simp add: mg_send_ws_header_def ws_header_bytes_eq mg_sends_def Let_def)
    moreover have "mg_send io d ?nc2 = ?nc" by (simp add: mg_sends_def)
    ultimately show ?thesis
      using m True by (auto simp: mg_send_websocket_frame_def outq_def ws_wire_def Let_def)
  next
    case False
    let ?nc = "mg_sends io [?h False, d] nc"
    have o: "outq ?nc (b @ concat [?h False, d])"
      by (rule outq_sends [OF rel q room]) (use False small hl in \<open>simp_all add: ws_wire_def\<close>)
    then show ?thesis
      using False
      by (auto simp: mg_send_websocket_frame_def mg_send_ws_header_def ws_header_bytes_eq mg_sends_def
        mg_ws_mask_frame_def outq_def ws_wire_def Let_def)
  qed
qed

text \<open>Frames sent one after the other: their opcodes, the masks drawn and the data.\<close>

fun ws_send_all :: "io \<Rightarrow> bool \<Rightarrow> (nat \<times> u32 \<times> bytes) list \<Rightarrow> 'u mg_connection \<Rightarrow> 'u mg_connection option" where
  "ws_send_all io client [] nc = Some nc"
| "ws_send_all io client ((op, mk, d) # fs) nc = do {
     nc \<leftarrow> mg_send_websocket_frame io mk client op d nc; ws_send_all io client fs nc }"

definition sent_as :: "bool \<Rightarrow> nat \<times> u32 \<times> bytes \<Rightarrow> ws_traffic" where
  "sent_as client = (\<lambda>(op, mk, d). Whole (ws_op_byte op) (if client then Some mk else None) d)"

definition message_op :: "nat \<Rightarrow> bool" where
  "message_op op \<longleftrightarrow> 0 < op \<and> op < 16"

lemma message_op_cases:
  "message_op op \<Longrightarrow> op = 1 \<or> op = 2 \<or> op = 3 \<or> op = 4 \<or> op = 5 \<or> op = 6 \<or> op = 7 \<or> op = 8 \<or> op = 9 \<or> op = 10 \<or>
    op = 11 \<or> op = 12 \<or> op = 13 \<or> op = 14 \<or> op = 15"
  unfolding message_op_def by presburger

lemma message_op_byte: "message_op op \<Longrightarrow> ws_op_byte op = 0x80 OR of_nat op \<and> \<not> mg_is_ws_fragment (ws_op_byte op)"
  by (drule message_op_cases) (auto simp: ws_op_byte_def WEBSOCKET_DONT_FIN_def mg_is_ws_fragment_def)

lemma send_all_wire:
  assumes rel: "reliable K (io_ra io)"
  shows "outq nc b \<Longrightarrow> mbuf_grow (length (b @ concat (map (traffic_wire \<circ> sent_as client) fs))) \<le> K \<Longrightarrow>
    \<forall>(op, mk, d) \<in> set fs. length d < 2 ^ 31 \<Longrightarrow>
    \<exists>nc'. ws_send_all io client fs nc = Some nc' \<and> outq nc' (b @ concat (map (traffic_wire \<circ> sent_as client) fs))"
proof (induction fs arbitrary: nc b)
  case (Cons x fs)
  obtain op mk d where x: "x = (op, mk, d)" by (cases x) auto
  let ?w = "ws_wire (ws_op_byte op) (if client then Some mk else None) d"
  have w: "(traffic_wire \<circ> sent_as client) x = ?w" by (simp add: x sent_as_def)
  have "mbuf_grow (length (b @ ?w)) \<le> K"
    using order_trans [OF mbuf_grow_mono Cons.prems(2), of "length (b @ ?w)"] w by simp
  from send_frame_wire [OF rel Cons.prems(1) this] Cons.prems(3) x
  obtain nc1 where s: "mg_send_websocket_frame io mk client op d nc = Some nc1" and q: "outq nc1 (b @ ?w)" by auto
  have "mbuf_grow (length ((b @ ?w) @ concat (map (traffic_wire \<circ> sent_as client) fs))) \<le> K"
    using Cons.prems(2) by (simp only: w list.map concat.simps append_assoc)
  from Cons.IH [OF q this] show ?case using s x w Cons.prems(3) by simp
qed simp

lemma handler_keeps_wsq:
  assumes "ws_listener h" and "wsq a nc b lg"
  shows "wsq a (mg_call_user (Some h) (EvRecv n) nc) b lg"
  using assms call_user_no_defrag [of h "EvRecv n" nc]
  by (simp add: wsq_def inq_def ws_listener_def mg_call_user_send)

lemma sent_log: "message_op op \<Longrightarrow> traffic_log (sent_as client (op, mk, d)) = (op \<ge> 8, 0x80 OR of_nat op, d)"
proof -
  assume m: "message_op op"
  then have "((0x80 OR of_nat op) AND (8 :: u8) \<noteq> 0) = (op \<ge> 8)" by (auto dest!: message_op_cases)
  with message_op_byte [OF m] show ?thesis by (simp add: sent_as_def)
qed

section \<open>What the code does with some traffic\<close>

definition ws_log_handler :: "(ws_event, (bool \<times> u8 \<times> bytes) list) handler" where
  "ws_log_handler ev nc = nc\<lparr>nc_user := nc_user nc @ ws_view ev\<rparr>"

lemma ws_log_listener: "ws_listener ws_log_handler"
  by (simp add: ws_listener_def ws_log_handler_def has_flag_def)

definition ws_peer :: "bytes \<Rightarrow> (bool \<times> u8 \<times> bytes) list mg_connection" where
  "ws_peer b = \<lparr>nc_flags = MG_F_IS_WEBSOCKET, nc_sock = None, nc_err = 0, nc_recv_mbuf_limit = 2 ^ 64 - 1,
     nc_recv = \<lparr>mb_addr = 4096, mb_mem = b, mb_len = length b, mb_size = length b\<rparr>,
     nc_send = empty_mbuf, nc_last_io_time = 0, nc_ev_timer_time = 0, nc_user = []\<rparr>"

lemma ws_peer_wsq: "wsq 4096 (ws_peer b) b []"
  by (simp add: ws_peer_def wsq_def inq_def mbuf_inv_def mbuf_bytes_def has_flag_def flag_defs USER_SPACE_def)

lemma arena_keeps_place: "keeps_place 4096 arena_realloc"
  using arena_ok by (simp add: keeps_place_def arena_realloc_def)

text \<open>The sum of the header and an announced length near \<open>2 ^ 64\<close> wraps around: 14 bytes from a peer make the
  unmasking loop write outside the buffer.\<close>

lemma ws_length_wraps:
  "mg_deliver_websocket_data arena_realloc ws_log_handler
     (ws_peer [0x82, 0xFF, 0xFF, 0xFF, 0xFF, 0xFF, 0xFF, 0xFF, 0xFF, 0xFF, 1, 2, 3, 4]) = None"
proof -
  let ?b = "[0x82, 0xFF, 0xFF, 0xFF, 0xFF, 0xFF, 0xFF, 0xFF, 0xFF, 0xFF, 1, 2, 3, 4] :: bytes"
  have "ws_parse_header ?b 0 14 = Some \<lparr>wh_header_len = 14, wh_mask_len = 4, wh_data_len = 2 ^ 64 - 1\<rparr>"
    by (simp add: ws_parse_header_def rd_def un32_def nth_Cons')
  moreover have "ws_unmask ?b 14 (2 ^ 64 - 1) = None" by (simp add: ws_unmask_def)
  moreover have "rd ?b 0 = Some 0x82" by (simp add: rd_def)
  moreover have "length ?b = 14" by simp
  ultimately show ?thesis
    unfolding mg_deliver_websocket_data_def ws_peer_def
    by (simp add: Let_def mg_is_ws_fragment_def ws_frame_start_def del: list.size)
qed

lemmas ws_eval = mg_deliver_websocket_data_def ws_peer_def mg_is_ws_fragment_def mg_is_ws_first_fragment_def
  ws_frame_start_def ws_parse_header_def rd_def ws_unmask_def ws_reassemble_def ws_first_fragment_def
  ws_append_fragment_def ws_whole_frame_def mg_handle_incoming_websocket_frame_def mg_call_user_def ws_log_handler_def
  ws_block_def mbuf_resize_def mbuf_remove_def arena_realloc_def overlay_def bslice_def le32_def be32_def rd32le_def
  un32_def has_flag_def flag_defs ws_xor_def ws_partial_def mbuf_bytes_def WEBSOCKET_OP_CLOSE_def ms_bytes_def

text \<open>The size field of an unmasked first fragment is cleared on top of its data, ``abc'' here.\<close>

lemma ws_first_fragment_stomps:
  "map_option (\<lambda>(ok, nc). mbuf_bytes (nc_recv nc))
     (mg_deliver_websocket_data arena_realloc ws_log_handler (ws_peer [0x01, 3, 0x61, 0x62, 0x63])) =
   Some (ws_partial 0 [0, 0, 0])"
  by (simp add: ws_eval Let_def set_flag_def take_Cons' drop_Cons' nth_Cons')

text \<open>After a fragment the opcode is looked for in the data: a first fragment, masked with zeros, that
  starts with the letter h closes the connection.\<close>

lemma ws_fragment_closes:
  "map_option (\<lambda>(ok, nc). has_flag nc MG_F_SEND_AND_CLOSE)
     (mg_deliver_websocket_data arena_realloc ws_log_handler (ws_peer [0x01, 0x81, 0, 0, 0, 0, 0x68])) = Some True"
  by (simp add: ws_eval Let_def set_flag_def take_Cons' drop_Cons' nth_Cons')

text \<open>After a whole frame the opcode is looked for where the next frame has moved to: a close frame
  with a byte behind it does not close the connection.\<close>

lemma ws_close_missed:
  "map_option (\<lambda>(ok, nc). has_flag nc MG_F_SEND_AND_CLOSE)
     (mg_deliver_websocket_data arena_realloc ws_log_handler (ws_peer [0x88, 0, 0x81])) = Some False"
  by (simp add: ws_eval Let_def set_flag_def take_Cons' drop_Cons' nth_Cons')

section \<open>Properties\<close>

text \<open>C34. Frames of less than 2 GiB sent by either side with the opcodes of messages or control frames, queued one behind the
  other, are handed to the user of the peer in order, each once, unmasked and with its flags; the
  delivery loop ends with an empty receive buffer.\<close>

theorem ws_frames_delivered:
  assumes "reliable K (io_ra io)" and "outq src []" and "\<forall>(op, mk, d) \<in> set fs. message_op op \<and> length d < 2 ^ 31"
    and "mbuf_grow (length (concat (map (traffic_wire \<circ> sent_as client) fs))) \<le> K" and "ws_listener h"
  shows "\<exists>src'. ws_send_all io client fs src = Some src' \<and>
    (\<forall>a rcv lg. wsq a rcv (mbuf_bytes (nc_send src')) lg \<longrightarrow>
      (\<exists>rcv'. mg_ws_handler io2 mk2 client2 h (EvRecv n) rcv = Some rcv' \<and>
         wsq a rcv' [] (lg @ map (\<lambda>(op, mk, d). (op \<ge> 8, 0x80 OR of_nat op, d)) fs)))"
proof -
  let ?ms = "map (sent_as client) fs"
  obtain src' where s: "ws_send_all io client fs src = Some src'" and q: "outq src' (concat (map traffic_wire ?ms))"
    using send_all_wire [OF assms(1,2), of client fs] assms(3,4) by fastforce
  have ok: "\<forall>m \<in> set ?ms. traffic_ok m \<and> (is_Whole m \<or> keeps_place a (io_ra io2))" for a
    using assms(3) message_op_byte by (fastforce simp: sent_as_def)
  have log: "map traffic_log ?ms = map (\<lambda>(op, mk, d). (op \<ge> 8, 0x80 OR of_nat op, d)) fs"
    using assms(3) sent_log [of _ client] by auto
  have "K \<le> 2 ^ 62" using assms(1) by (simp add: reliable_def)
  with assms(4) have small: "length (concat (map traffic_wire ?ms)) < 2 ^ 62" by (simp add: mbuf_grow_def)
  have "\<exists>rcv'. mg_ws_handler io2 mk2 client2 h (EvRecv n) rcv = Some rcv' \<and> wsq a rcv' [] (lg @ map traffic_log ?ms)"
    if "wsq a rcv (mbuf_bytes (nc_send src')) lg" for a rcv lg
    using deliver_stream [OF assms(5) ok [of a] _ small] handler_keeps_wsq [OF assms(5) that, of n] q
    by (simp add: mg_ws_handler_def outq_def)
  with s show ?thesis unfolding log by blast
qed

definition demo_ws :: "'u \<Rightarrow> 'u mg_connection" where
  "demo_ws u = \<lparr>nc_flags = MG_F_IS_WEBSOCKET, nc_sock = None, nc_err = 0, nc_recv_mbuf_limit = 2 ^ 64 - 1,
     nc_recv = empty_mbuf, nc_send = empty_mbuf, nc_last_io_time = 0, nc_ev_timer_time = 0, nc_user = u\<rparr>"

definition demo_ws_io :: io where
  "demo_ws_io = \<lparr>io_now = 0, io_ra = arena_realloc, io_send = (\<lambda>_. 0), io_send_err = False,
     io_recv = (\<lambda>_. (0, [])), io_recv_err = False, io_soerror = (0, 0), io_malloc = 4096,
     io_accept = None, io_calloc = True, io_recvfrom = (0, [], [])\<rparr>"

theorem ws_frames_delivered_witness:
  "\<exists>src' rcv'. ws_send_all demo_ws_io True [(1, 0x01020304, str ''hi''), (9, 7, [])] (demo_ws ()) = Some src' \<and>
    mg_ws_handler demo_ws_io 0 False ws_log_handler (EvRecv 14) (ws_peer (mbuf_bytes (nc_send src'))) = Some rcv' \<and>
    wsq 4096 rcv' [] [(False, 0x81, str ''hi''), (True, 0x89, [])]"
proof -
  let ?fs = "[(1, 0x01020304, str ''hi''), (9, 7, [])] :: (nat \<times> u32 \<times> bytes) list"
  have "mbuf_grow (length (concat (map (traffic_wire \<circ> sent_as True) ?fs))) \<le> 2 ^ 20"
    by (simp add: sent_as_def length_ws_wire ws_head_len_def ws_head_bytes_def mbuf_grow_def)
  with ws_frames_delivered [of "2 ^ 20" demo_ws_io "demo_ws ()" ?fs True ws_log_handler demo_ws_io 0 False 14]
    arena_reliable ws_log_listener
  obtain src' where s: "ws_send_all demo_ws_io True ?fs (demo_ws ()) = Some src'"
    and d: "\<forall>a rcv lg. wsq a rcv (mbuf_bytes (nc_send src')) lg \<longrightarrow>
      (\<exists>rcv'. mg_ws_handler demo_ws_io 0 False ws_log_handler (EvRecv 14) rcv = Some rcv' \<and>
         wsq a rcv' [] (lg @ map (\<lambda>(op, mk, d). (op \<ge> 8, 0x80 OR of_nat op, d)) ?fs))"
    by (auto simp: demo_ws_io_def demo_ws_def outq_def message_op_def)
  from d [rule_format, OF ws_peer_wsq] s show ?thesis by auto
qed

text \<open>C35. Reassembly: when the first fragment of a message has been taken in, the delivery loop appends the continuation frames
  that follow it in place, masked or not, hands the whole message to the user once when the last one is there, then every whole
  message behind it in order, and leaves nothing behind.\<close>

theorem ws_stream_delivered:
  assumes "ws_listener h" and "ws_cleared f" and "b1 AND 0x8f = 0x80" and "length (acc @ concat (map snd mids) @ d) < 2 ^ 32"
    and "\<forall>(b0, k, e) \<in> set fs. \<not> mg_is_ws_fragment b0"
    and "wsq a nc (ws_partial f acc @ ws_rest_wire mids b1 mk d @ concat (map (\<lambda>(b0, k, e). ws_wire b0 k e) fs)) lg"
    and "length (ws_partial f acc @ ws_rest_wire mids b1 mk d @ concat (map (\<lambda>(b0, k, e). ws_wire b0 k e) fs)) < 2 ^ 62"
  shows "\<exists>nc'. mg_ws_handler io mk2 client h (EvRecv n) nc = Some nc' \<and>
    wsq a nc' [] (lg @ (False, b1, acc @ concat (map snd mids) @ d) # map (\<lambda>(b0, k, e). (b0 AND 8 \<noteq> 0, b0, e)) fs)"
proof -
  let ?ms = "map (\<lambda>(b0, k, e). Whole b0 k e) fs"
  have w: "concat (map (\<lambda>(b0, k, e). ws_wire b0 k e) fs) = concat (map traffic_wire ?ms)"
    "map (\<lambda>(b0, k, e). (b0 AND 8 \<noteq> 0, b0, e)) fs = map traffic_log ?ms" by (induction fs) auto
  have fin: "b1 AND 0x80 \<noteq> 0" "b1 AND 8 = 0" by (rule last_fragment_byte [OF assms(3)])+
  from deliver_rest [OF assms(1,2) fin(1) handler_keeps_wsq [OF assms(1,6)] assms(7,4), of "io_ra io" n] fin(2)
  obtain nc1 where d1: "ws_deliver_all (io_ra io) h (mg_call_user (Some h) (EvRecv n) nc) = ws_deliver_all (io_ra io) h nc1"
    and q1: "wsq a nc1 (concat (map traffic_wire ?ms)) (lg @ [(False, b1, acc @ concat (map snd mids) @ d)])"
    unfolding w by auto
  have "\<forall>m \<in> set ?ms. traffic_ok m \<and> (is_Whole m \<or> keeps_place a (io_ra io))" using assms(5) by auto
  from deliver_stream [OF assms(1) this q1] assms(7) d1 show ?thesis unfolding w by (auto simp: mg_ws_handler_def)
qed

theorem ws_stream_delivered_witness:
  "\<exists>nc'. mg_ws_handler demo_ws_io 0 False ws_log_handler (EvRecv 1)
      (ws_peer (ws_partial 0 (str ''ab'') @ ws_rest_wire [(Some 6, str ''c'')] 0x80 None (str ''d'') @ ws_wire 0x89 None [])) = Some nc' \<and>
    wsq 4096 nc' [] [(False, 0x80, str ''abcd''), (True, 0x89, [])]"
  using ws_stream_delivered [where h = ws_log_handler and f = 0 and ?b1.0 = "0x80" and acc = "str ''ab''" and
      mids = "[(Some 6, str ''c'')]" and d = "str ''d''" and fs = "[(0x89, None, [])]" and a = 4096 and mk = None and lg = "[]" and
      io = demo_ws_io and ?mk2.0 = 0 and client = False and n = 1] ws_peer_wsq ws_log_listener
  by (simp add: ws_cleared_def mg_is_ws_fragment_def ws_rest_wire_def length_ws_wire
      ws_head_len_def ws_head_bytes_def str_append [symmetric] del: append_assoc str_Cons)

lemma rfc4648_chars: "0 \<notin> set (rfc4648 s)"
proof -
  have "length b64_table = 64" "0 \<notin> set b64_table" by (simp_all add: b64_table_def ch_def)
  then have "k < 64 \<Longrightarrow> b64_table ! k \<noteq> 0" for k by (metis nth_mem)
  then have c: "0 \<notin> set (b64_chars a b c)" for a b c by (simp add: b64_chars_def)
  show ?thesis
  proof (induction s rule: rfc4648.induct)
    case (2 a)
    then show ?case using c [of a 0 0] by (auto simp: ch_def dest: in_set_takeD)
  next
    case (3 a b)
    then show ?case using c [of a b 0] by (auto simp: ch_def dest: in_set_takeD)
  qed (simp_all add: c)
qed

lemma rfc4648_c_str: "c_str (rfc4648 s @ [0]) = rfc4648 s"
proof -
  have "\<forall>x \<in> set (rfc4648 s). x \<noteq> 0" using rfc4648_chars [of s] by metis
  then show ?thesis using takeWhile_append2 [of "rfc4648 s" "\<lambda>x. x \<noteq> 0" "[0]"] by (simp add: c_str_def)
qed

text \<open>C36. The answer to a handshake is queued with the accept value of RFC 6455: the base64 form of the SHA-1 of the
  key followed by the protocol's fixed string.\<close>

theorem ws_handshake_accept:
  assumes "reliable K (io_ra io)" and "outq nc b" and "length (sha1_buffer ctx) = 64" and "length key < 2 ^ 32 - 63"
    and "mbuf_grow (length b + 200) \<le> K"
  shows "\<exists>nc'. mg_ws_handshake io ctx key nc = Some nc' \<and>
    outq nc' (b @ str ''HTTP/1.1 101 Switching Protocols'' @ crlf @ str ''Upgrade: websocket'' @ crlf @
      str ''Connection: Upgrade'' @ crlf @ str ''Sec-WebSocket-Accept: '' @ rfc4648 (fips_sha1 (key @ ws_magic)) @ crlf @ crlf)"
proof -
  have "concat [key, ws_magic] = key @ ws_magic" by simp
  then have sha: "mg_hash_sha1_v ctx [key, ws_magic] = Some (fips_sha1 (key @ ws_magic))"
    using sha1_fed_feed [OF assms(3), of "[key, ws_magic]"] sha1_final_fips assms(4)
    by (auto simp: mg_hash_sha1_v_def ws_magic_def)
  let ?x = "rfc4648 (fips_sha1 (key @ ws_magic))"
  let ?d = "str ''HTTP/1.1 101 Switching Protocols'' @ crlf @ str ''Upgrade: websocket'' @ crlf @
    str ''Connection: Upgrade'' @ crlf @ str ''Sec-WebSocket-Accept: '' @ ?x @ crlf @ crlf"
  have "length ?x \<le> 28" using length_rfc4648 [of "fips_sha1 (key @ ws_magic)"] by (simp add: length_fips_sha1)
  then have "length (b @ ?d) \<le> length b + 200" by (simp add: crlf_def)
  moreover have "length ?d < 2 ^ 31" using \<open>length ?x \<le> 28\<close> by (simp add: crlf_def)
  ultimately have o: "outq (mg_send io ?d nc) (b @ ?d)"
    using outq_send [OF assms(1,2) order_trans [OF mbuf_grow_mono assms(5)]] by blast
  have "cs_base64_encode (fips_sha1 (key @ ws_magic)) = Some (?x @ [0])"
    by (rule cs_base64_encode_rfc4648) (simp add: length_fips_sha1 INT_MAX_def)
  with sha o show ?thesis by (simp add: mg_ws_handshake_def rfc4648_c_str)
qed

theorem ws_handshake_accept_witness:
  "\<exists>nc'. mg_ws_handshake demo_ws_io sha1_ctx0 (str ''dGhlIHNhbXBsZSBub25jZQ=='') (demo_ws ()) = Some nc' \<and>
    outq nc' (str ''HTTP/1.1 101 Switching Protocols'' @ crlf @ str ''Upgrade: websocket'' @ crlf @
      str ''Connection: Upgrade'' @ crlf @ str ''Sec-WebSocket-Accept: '' @
      rfc4648 (fips_sha1 (str ''dGhlIHNhbXBsZSBub25jZQ=='' @ ws_magic)) @ crlf @ crlf)"
  using ws_handshake_accept [of "2 ^ 20" demo_ws_io "demo_ws ()" "[]" sha1_ctx0 "str ''dGhlIHNhbXBsZSBub25jZQ==''"]
    arena_reliable
  by (simp add: demo_ws_io_def demo_ws_def outq_def mbuf_grow_def del: str_Cons)

end
