(* ===== verification/Uri.thy ===== *)
theory Uri
  imports Util
begin

text \<open>
  \<open>mongoose/src/uri.c\<close> and the URL coding of \<open>mongoose/src/http.c\<close>: splitting a URI into its
  components, resolving the dot segments of a path, percent encoding and decoding, and form
  variables.

  Pointers are indices into the memory they point into; \<open>None\<close> is an access outside it.
\<close>

section \<open>Splitting a URI\<close>

text \<open>The component before \<open>sep\<close> and the position behind the separator.\<close>

definition parse_uri_component :: "bytes \<Rightarrow> nat \<Rightarrow> nat \<Rightarrow> u8 \<Rightarrow> (mg_str \<times> nat) option" where
  "parse_uri_component mem p fin sep = do {
     q \<leftarrow> skip_while (\<lambda>c. c \<noteq> sep) mem p fin;
     Some (\<lparr>ms_mem = mem, ms_p = p, ms_len = q - p\<rparr>, if q < fin then q + 1 else q) }"

datatype uri_state = P_START | P_SCHEME_OR_PORT | P_USER_INFO | P_HOST | P_PORT | P_REST

record uri_parts =
  up_scheme :: mg_str
  up_user_info :: mg_str
  up_host :: mg_str
  up_port :: u32
  up_path :: mg_str
  up_query :: mg_str
  up_fragment :: mg_str

definition null_str :: mg_str where
  "null_str = \<lparr>ms_mem = [], ms_p = 0, ms_len = 0\<rparr>"

definition no_parts :: uri_parts where
  "no_parts = \<lparr>up_scheme = null_str, up_user_info = null_str, up_host = null_str, up_port = 0, up_path = null_str,
     up_query = null_str, up_fragment = null_str\<rparr>"

definition piece :: "bytes \<Rightarrow> nat \<Rightarrow> nat \<Rightarrow> mg_str" where
  "piece mem p q = \<lparr>ms_mem = mem, ms_p = p, ms_len = q - p\<rparr>"

definition colon :: u8 where "colon = 0x3A"
definition slash :: u8 where "slash = 0x2F"
definition at_sign :: u8 where "at_sign = 0x40"

text \<open>The digits of a port, up to a slash; anything else is taken for a digit too.\<close>

function uri_port_loop :: "bytes \<Rightarrow> nat \<Rightarrow> nat \<Rightarrow> u32 \<Rightarrow> (nat \<times> u32) option" where
  "uri_port_loop mem p fin port =
     (if p < fin then do {
        c \<leftarrow> rd mem p;
        if c = slash then Some (p, port)
        else uri_port_loop mem (p + 1) fin (port * 10 + word_of_int (schar c - 48)) }
      else Some (p, port))"
  by pat_completeness auto
termination by (relation "measure (\<lambda>(mem, p, fin, port). fin - p)") auto

declare uri_port_loop.simps [simp del]

text \<open>The state after a scan that stopped at \<open>q\<close>: on a colon, on a slash or at the end.\<close>

definition stop_state :: "bytes \<Rightarrow> nat \<Rightarrow> nat \<Rightarrow> uri_state \<Rightarrow> uri_state \<Rightarrow> uri_state option" where
  "stop_state mem q fin at_colon at_end =
     (if q < fin then do { c \<leftarrow> rd mem q; Some (if c = colon then at_colon else P_REST) } else Some at_end)"

text \<open>One turn of the state machine: \<open>u\<close> is where the URI starts, \<open>p < fin\<close>.\<close>

definition uri_step :: "bytes \<Rightarrow> nat \<Rightarrow> nat \<Rightarrow> uri_state \<Rightarrow> nat \<Rightarrow> uri_parts \<Rightarrow> (uri_state \<times> nat \<times> uri_parts) option" where
  "uri_step mem u fin state p r =
     (case state of
        P_START \<Rightarrow> do {
          q \<leftarrow> skip_while (\<lambda>c. c \<noteq> colon \<and> c \<noteq> slash) mem p fin;
          st \<leftarrow> stop_state mem q fin P_SCHEME_OR_PORT P_START;
          Some (st, q, if st = P_START \<or> st = P_REST then r\<lparr>up_host := piece mem u q\<rparr> else r) }
      | P_SCHEME_OR_PORT \<Rightarrow> do {
          sep \<leftarrow> (if fin - p \<ge> 3 then c_strn_eq (drop p mem) (str ''://'') else Some False);
          if sep then Some (P_USER_INFO, p + 2, r\<lparr>up_scheme := piece mem u p\<rparr>)
          else Some (P_PORT, p, r\<lparr>up_host := piece mem u p\<rparr>) }
      | P_USER_INFO \<Rightarrow> do {
          q \<leftarrow> skip_while (\<lambda>c. c \<noteq> at_sign \<and> c \<noteq> slash) mem (p + 1) fin;
          back \<leftarrow> (if q < fin then do { c \<leftarrow> rd mem q; Some (c = slash) } else Some True);
          let q = (if back then p + 1 else q);
          Some (P_HOST, q, r\<lparr>up_user_info := piece mem (p + 1) q\<rparr>) }
      | P_HOST \<Rightarrow> do {
          c \<leftarrow> rd mem p;
          let p = (if c = at_sign then p + 1 else p);
          q \<leftarrow> skip_while (\<lambda>c. c \<noteq> colon \<and> c \<noteq> slash) mem p fin;
          st \<leftarrow> stop_state mem q fin P_PORT P_HOST;
          Some (st, q, r\<lparr>up_host := piece mem p q\<rparr>) }
      | P_PORT \<Rightarrow> do {
          (q, port) \<leftarrow> uri_port_loop mem (p + 1) fin (up_port r);
          Some (if q < fin then P_REST else P_PORT, q, r\<lparr>up_port := port\<rparr>) }
      | P_REST \<Rightarrow> do {
          (path, p) \<leftarrow> parse_uri_component mem p fin 0x3F;
          (query, p) \<leftarrow> parse_uri_component mem p fin 0x23;
          (fragment, p) \<leftarrow> parse_uri_component mem p fin 0;
          Some (P_REST, p, r\<lparr>up_path := path, up_query := query, up_fragment := fragment\<rparr>) })"

text \<open>A loop that does not end is \<open>None\<close> as well.\<close>

partial_function (option) uri_loop :: "bytes \<Rightarrow> nat \<Rightarrow> nat \<Rightarrow> uri_state \<Rightarrow> nat \<Rightarrow> uri_parts \<Rightarrow> uri_parts option" where
  "uri_loop mem u fin state p r =
     (if p < fin then do {
        (state, p, r) \<leftarrow> uri_step mem u fin state p r;
        uri_loop mem u fin state p r }
      else Some r)"

text \<open>The components, for callers that ask for all of them; the C function always returns 0.\<close>

definition mg_parse_uri :: "mg_str \<Rightarrow> uri_parts option" where
  "mg_parse_uri uri = uri_loop (ms_mem uri) (ms_p uri) (ms_p uri + ms_len uri) P_START (ms_p uri) no_parts"

section \<open>Resolving dot segments\<close>

text \<open>The step back to the slash before the last component of what has been written from \<open>cp\<close> to \<open>d\<close>.\<close>

fun norm_back_loop :: "bytes \<Rightarrow> nat \<Rightarrow> nat \<Rightarrow> nat option" where
  "norm_back_loop mem cp d =
     (if d > cp then do {
        c \<leftarrow> rd mem (d - 1);
        if c \<noteq> slash then norm_back_loop mem cp (d - 1) else Some d }
      else Some d)"

declare norm_back_loop.simps [simp del]

definition norm_back :: "bytes \<Rightarrow> nat \<Rightarrow> nat \<Rightarrow> nat option" where
  "norm_back mem cp d =
     (if d > cp + 1 then do {
        c \<leftarrow> rd mem (d - 1);
        norm_back_loop mem cp (if c = slash then d - 1 else d) }
      else norm_back_loop mem cp d)"

lemma skip_while_range: "p \<le> fin \<Longrightarrow> skip_while P mem p fin = Some q \<Longrightarrow> p \<le> q \<and> q \<le> fin"
proof (induction P mem p fin rule: skip_while.induct)
  case (1 P mem s e)
  show ?case
  proof (cases "s < e")
    case True
    then obtain c where c: "rd mem s = Some c" using "1.prems"(2) by (cases "rd mem s") (simp_all add: skip_while.simps)
    with True "1.IH" [OF True c] "1.prems" show ?thesis by (cases "P c") (auto simp: skip_while.simps)
  qed (use "1.prems" in \<open>simp add: skip_while.simps\<close>)
qed

lemma parse_uri_component_next:
  assumes "p < fin" and "parse_uri_component mem p fin sep = Some (c, q)"
  shows "p < q \<and> q \<le> fin"
proof -
  obtain r where "skip_while (\<lambda>c. c \<noteq> sep) mem p fin = Some r" "q = (if r < fin then r + 1 else r)"
    using assms(2) by (cases "skip_while (\<lambda>c. c \<noteq> sep) mem p fin") (auto simp: parse_uri_component_def)
  with skip_while_range [of p fin] assms(1) show ?thesis by fastforce
qed

lemma parse_uri_component_progress:
  "p < fin \<Longrightarrow> parse_uri_component mem p fin sep = Some (c, q) \<Longrightarrow> fin - q < fin - p"
  by (drule (1) parse_uri_component_next) arith

function norm_loop :: "bytes \<Rightarrow> nat \<Rightarrow> nat \<Rightarrow> nat \<Rightarrow> nat \<Rightarrow> (bytes \<times> nat) option" where
  "norm_loop mem s se cp d =
     (if s < se then do {
        (component, nxt) \<leftarrow> parse_uri_component mem s se slash;
        r1 \<leftarrow> mg_vcmp component (str ''.'');
        if r1 = 0 then norm_loop mem nxt se cp d
        else do {
          r2 \<leftarrow> mg_vcmp component (str ''..'');
          if r2 = 0 then do {
            d \<leftarrow> norm_back mem cp d;
            norm_loop mem nxt se cp d }
          else if nxt > length mem \<or> d + (nxt - s) > length mem then None
          else norm_loop (overlay mem d (bslice mem s (nxt - s))) nxt se cp (d + (nxt - s)) } }
      else Some (mem, d))"
  by pat_completeness auto
termination
  by (relation "measure (\<lambda>(mem, s, se, cp, d). se - s)") (auto intro: parse_uri_component_progress)

declare norm_loop.simps [simp del]

text \<open>
  The path is the \<open>n\<close> bytes at \<open>s\<close> and the result is written at \<open>cp\<close>, which is \<open>s\<close> where the code
  is called: the return value, the memory and the length of the result.
\<close>

definition mg_normalize_uri_path :: "bytes \<Rightarrow> nat \<Rightarrow> nat \<Rightarrow> nat \<Rightarrow> (int \<times> bytes \<times> nat) option" where
  "mg_normalize_uri_path mem s n cp = do {
     c \<leftarrow> (if n = 0 then Some 0 else rd mem s);
     if n = 0 \<or> c \<noteq> slash then Some (0, mem, 0)
     else do {
       (mem, d) \<leftarrow> norm_loop mem s (s + n) cp cp;
       if d = cp then
         if d < length mem then Some (1, overlay mem d [slash], 1) else None
       else Some (1, mem, d - cp) } }"

section \<open>Percent encoding\<close>

definition is_alpha :: "u8 \<Rightarrow> bool" where
  "is_alpha c \<longleftrightarrow> 0x41 \<le> c \<and> c \<le> 0x5A \<or> 0x61 \<le> c \<and> c \<le> 0x7A"

definition is_xdigit :: "u8 \<Rightarrow> bool" where
  "is_xdigit c \<longleftrightarrow> is_digit c \<or> 0x41 \<le> c \<and> c \<le> 0x46 \<or> 0x61 \<le> c \<and> c \<le> 0x66"

definition dont_escape :: bytes where
  "dont_escape = str ''._-$,;~()/''"

text \<open>\<open>strchr\<close> finds the terminating NUL as well.\<close>

definition url_plain :: "u8 \<Rightarrow> bool" where
  "url_plain c \<longleftrightarrow> is_alpha c \<or> is_digit c \<or> c = 0 \<or> c \<in> set dont_escape"

text \<open>The loop of \<open>mg_url_encode\<close> from index \<open>i\<close>; \<open>out\<close> is what \<open>dst\<close> holds so far.\<close>

function url_encode_loop :: "bytes \<Rightarrow> nat \<Rightarrow> nat \<Rightarrow> nat \<Rightarrow> bytes \<Rightarrow> bytes option" where
  "url_encode_loop src s_len dst_len i out =
     (if i < s_len \<and> length out + 2 < dst_len - 1 then do {
        c \<leftarrow> rd src i;
        url_encode_loop src s_len dst_len (i + 1)
          (out @ (if url_plain c then [c]
                  else [0x25, hex_digits ! unat (drop_bit 4 c), hex_digits ! unat (c AND 0xf)])) }
      else Some out)"
  by pat_completeness auto
termination by (relation "measure (\<lambda>(src, s_len, dst_len, i, out). s_len - i)") auto

declare url_encode_loop.simps [simp del]

text \<open>The value returned and the bytes of \<open>dst\<close> that have been written.\<close>

definition mg_url_encode :: "bytes \<Rightarrow> nat \<Rightarrow> nat \<Rightarrow> (nat \<times> bytes) option" where
  "mg_url_encode src s_len dst_len = do {
     out \<leftarrow> url_encode_loop src s_len dst_len 0 [];
     if dst_len = 0 then None else Some (length out, out @ [0]) }"

definition hextoi :: "u8 \<Rightarrow> u8" where
  "hextoi x = (if is_digit x then x - 0x30 else x - 0x57)"

text \<open>The loop of \<open>mg_url_decode\<close>: the index it stops at, or none at a malformed escape, and \<open>dst\<close>
  so far.\<close>

function url_decode_loop :: "bytes \<Rightarrow> int \<Rightarrow> int \<Rightarrow> bool \<Rightarrow> nat \<Rightarrow> bytes \<Rightarrow> (nat option \<times> bytes) option" where
  "url_decode_loop src src_len dst_len form i out =
     (if int i < src_len \<and> int (length out) < dst_len - 1 then do {
        c \<leftarrow> rd src i;
        if c = 0x25 then do {
          x \<leftarrow> (if int i < src_len - 2 then rd src (i + 1) else Some 0);
          y \<leftarrow> (if int i < src_len - 2 \<and> is_xdigit x then rd src (i + 2) else Some 0);
          if int i < src_len - 2 \<and> is_xdigit x \<and> is_xdigit y then
            url_decode_loop src src_len dst_len form (i + 3)
              (out @ [push_bit 4 (hextoi (tolower x)) OR hextoi (tolower y)])
          else Some (None, out) }
        else if form \<and> c = 0x2B then url_decode_loop src src_len dst_len form (i + 1) (out @ [0x20])
        else url_decode_loop src src_len dst_len form (i + 1) (out @ [c]) }
      else Some (Some i, out))"
  by pat_completeness auto
termination by (relation "measure (\<lambda>(src, src_len, dst_len, form, i, out). nat (src_len - int i))") auto

declare url_decode_loop.simps [simp del]

text \<open>The value returned and the memory at \<open>dst\<close>.\<close>

definition mg_url_decode :: "bytes \<Rightarrow> int \<Rightarrow> bytes \<Rightarrow> int \<Rightarrow> bool \<Rightarrow> (int \<times> bytes) option" where
  "mg_url_decode src src_len dst dst_len form = do {
     (stop, out) \<leftarrow> url_decode_loop src src_len dst_len form 0 [];
     (case stop of
        None \<Rightarrow> if length out \<le> length dst then Some (-1, overlay dst 0 out) else None
      | Some i \<Rightarrow>
          if length out < length dst
          then Some (if int i \<ge> src_len then int (length out) else -1, overlay dst 0 (out @ [0]))
          else None) }"

section \<open>Form variables\<close>

text \<open>The scan of \<open>mg_get_http_var\<close> for \<open>name=\<close> at the start of a variable, from \<open>p\<close> on: where the value
  starts.\<close>

function http_var_scan :: "mg_str \<Rightarrow> bytes \<Rightarrow> nat \<Rightarrow> nat option option" where
  "http_var_scan buf name p =
     (let e = ms_p buf + ms_len buf; mem = ms_mem buf; n = length name in
      if p + n < e then do {
        before \<leftarrow> (if p = ms_p buf then Some True
                   else if p = 0 then None else map_option (\<lambda>c. c = 0x26) (rd mem (p - 1)));
        eq \<leftarrow> (if before then map_option (\<lambda>c. c = 0x3D) (rd mem (p + n)) else Some False);
        r \<leftarrow> (if eq then mg_ncasecmp (name @ [0]) (drop p mem) n else Some 1);
        if r = 0 then Some (Some (p + n + 1)) else http_var_scan buf name (p + 1) }
      else Some None)"
  by pat_completeness auto
termination by (relation "measure (\<lambda>(buf, name, p). ms_p buf + ms_len buf - p)") auto

declare http_var_scan.simps [simp del]

text \<open>\<open>dst\<close> is the destination memory of size \<open>dst_len\<close>; a NULL destination or buffer is none.\<close>

definition mg_get_http_var :: "mg_str option \<Rightarrow> bytes option \<Rightarrow> bytes option \<Rightarrow> nat \<Rightarrow> (int \<times> bytes option) option" where
  "mg_get_http_var buf name dst dst_len =
     (case dst of None \<Rightarrow> Some (-2, None)
      | Some d \<Rightarrow>
          if dst_len = 0 then Some (-2, Some d)
          else if d = [] then None
          else
            let d0 = overlay d 0 [0] in
            (case (buf, name) of
               (Some b, Some nm) \<Rightarrow>
                 if ms_len b = 0 then Some (-1, Some d0)
                 else do {
                   hit \<leftarrow> http_var_scan b nm (ms_p b);
                   (case hit of None \<Rightarrow> Some (-1, Some d0)
                    | Some p \<Rightarrow>
                        let rest = take (ms_p b + ms_len b - p) (drop p (ms_mem b));
                            n = (case c_memchr 0x26 rest of Some k \<Rightarrow> k | None \<Rightarrow> ms_p b + ms_len b - p) in
                        map_option (\<lambda>(len, d'). (if len = -1 then -2 else len, Some d'))
                          (mg_url_decode (drop p (ms_mem b)) (c_int (int n)) d0 (c_int (int dst_len)) True)) }
             | _ \<Rightarrow> Some (-1, Some d0)))"

section \<open>Resolving the dot segments\<close>

lemma memcmp_zero:
  "n \<le> length a \<Longrightarrow> n \<le> length b \<Longrightarrow> \<exists>r. c_memcmp a b n = Some r \<and> (r = 0 \<longleftrightarrow> take n a = take n b)"
  by (induction a b n rule: c_memcmp.induct) (auto dest: unsigned_word_eqI)

lemma vcmp_zero:
  assumes "ms_valid s" and "ms_len s < 2 ^ 31" and "length t < 2 ^ 31"
  shows "\<exists>r. mg_vcmp s t = Some r \<and> (r = 0 \<longleftrightarrow> ms_bytes s = t)"
proof -
  let ?a = "drop (ms_p s) (ms_mem s)" and ?n = "if ms_len s < length t then ms_len s else length t"
  have l: "ms_len s \<le> length ?a" using assms(1) by (simp add: ms_valid_def)
  have b: "ms_bytes s = take (ms_len s) ?a" by (simp add: ms_bytes_def bslice_def)
  obtain r where r: "c_memcmp ?a (t @ [0]) ?n = Some r" "r = 0 \<longleftrightarrow> take ?n ?a = take ?n (t @ [0])"
  proof -
    have "?n \<le> length ?a" "?n \<le> length (t @ [0])" using l by simp_all
    from memcmp_zero [OF this] that show thesis by blast
  qed
  have c: "c_int (int (ms_len s) - int (length t)) = int (ms_len s) - int (length t)"
    using assms(2,3) by (intro c_int_small) simp_all
  show ?thesis
  proof (cases "ms_len s = length t")
    case True
    then show ?thesis using r b l c by (auto simp: mg_vcmp_def Let_def)
  next
    case False
    then have "ms_bytes s \<noteq> t" using b l by auto
    then show ?thesis using r c False by (auto simp: mg_vcmp_def Let_def)
  qed
qed

text \<open>A path as a list of segments, each with the slash that ends it.\<close>

fun segments :: "bytes \<Rightarrow> bytes list" where
  "segments [] = []"
| "segments (c # cs) =
     (if c = slash then [slash] # segments cs
      else case segments cs of [] \<Rightarrow> [[c]] | x # xs \<Rightarrow> (c # x) # xs)"

definition seg_name :: "bytes \<Rightarrow> bytes" where
  "seg_name x = takeWhile (\<lambda>c. c \<noteq> slash) x"

text \<open>A double dot takes back the segment before it, except the root.\<close>

definition seg_pop :: "bytes list \<Rightarrow> bytes list" where
  "seg_pop st = (if length st \<le> 1 then st else butlast st)"

fun resolve :: "bytes list \<Rightarrow> bytes list \<Rightarrow> bytes list" where
  "resolve st [] = st"
| "resolve st (x # xs) =
     (if seg_name x = str ''.'' then resolve st xs
      else if seg_name x = str ''..'' then resolve (seg_pop st) xs
      else resolve (st @ [x]) xs)"

definition closed_seg :: "bytes \<Rightarrow> bool" where
  "closed_seg x \<longleftrightarrow> (\<exists>b. x = b @ [slash] \<and> slash \<notin> set b)"

text \<open>What has been written while there is more to come.\<close>

definition stack_ok :: "bytes list \<Rightarrow> bool" where
  "stack_ok st \<longleftrightarrow> (\<forall>x \<in> set st. closed_seg x) \<and> (st = [] \<or> hd st = [slash])"

lemma segments_first:
  assumes "y \<noteq> []"
  defines "t \<equiv> takeWhile (\<lambda>c. c \<noteq> slash) y"
  shows "segments y = (t @ take 1 (drop (length t) y)) # segments (drop (length t + 1) y)"
  using assms(1) unfolding t_def
proof (induction y)
  case (Cons c cs)
  then show ?case by (cases "cs = []") auto
qed simp

lemma segments_concat: "concat (segments y) = y"
  by (induction y) (auto split: list.splits)

lemma seg_name_first: "seg_name (t @ u) = t" if "slash \<notin> set t" "u = [] \<or> hd u = slash"
proof -
  have "\<forall>c \<in> set t. c \<noteq> slash" using that(1) by auto
  then show ?thesis using that(2) takeWhile_append2 [of t "\<lambda>c. c \<noteq> slash" u] by (cases u) (auto simp: seg_name_def)
qed

lemma rd_bslice: "bslice mem a n = xs \<Longrightarrow> a + n \<le> length mem \<Longrightarrow> i < n \<Longrightarrow> rd mem (a + i) = Some (xs ! i)"
  by (auto simp: bslice_def rd_def)

lemma norm_back_loop_spec:
  assumes "bslice mem cp (length u + length b) = u @ b" and "cp + length u + length b \<le> length mem"
    and "slash \<notin> set b" and "u = [] \<or> last u = slash"
  shows "norm_back_loop mem cp (cp + length u + length b) = Some (cp + length u)"
  using assms
proof (induction b rule: rev_induct)
  case Nil
  show ?case
  proof (cases "u = []")
    case False
    then have "rd mem (cp + (length u - 1)) = Some (last u)"
      using Nil.prems rd_bslice [OF Nil.prems(1), of "length u - 1"] by (simp add: last_conv_nth)
    with False Nil.prems(4) show ?thesis by (subst norm_back_loop.simps) (simp add: Suc_le_eq)
  qed (subst norm_back_loop.simps, simp)
next
  case (snoc c b)
  have "rd mem (cp + (length u + length b)) = Some c"
    using rd_bslice [OF snoc.prems(1), of "length u + length b"] snoc.prems(2) by (simp add: nth_append)
  moreover have "bslice mem cp (length u + length b) = u @ b"
    using arg_cong [OF snoc.prems(1), of "take (length u + length b)"] by (simp add: bslice_def min_def)
  then have "norm_back_loop mem cp (cp + length u + length b) = Some (cp + length u)"
    using snoc.IH snoc.prems by simp
  ultimately show ?case using snoc.prems(3) by (subst norm_back_loop.simps) (auto simp: add.assoc)
qed

lemma closed_last: "closed_seg x \<Longrightarrow> x \<noteq> [] \<and> last x = slash"
  by (auto simp: closed_seg_def)

lemma concat_closed_last: "\<forall>x \<in> set st. closed_seg x \<Longrightarrow> st \<noteq> [] \<Longrightarrow> concat st \<noteq> [] \<and> last (concat st) = slash"
  by (induction st rule: rev_induct) (auto dest: closed_last)

lemma norm_back_spec:
  assumes st: "stack_ok st" "st \<noteq> []" and b: "bslice mem cp (length (concat st)) = concat st"
    and l: "cp + length (concat st) \<le> length mem"
  shows "norm_back mem cp (cp + length (concat st)) = Some (cp + length (concat (seg_pop st)))"
proof (cases "length st \<le> 1")
  case True
  then have s: "st = [[slash]]" using st by (cases st) (auto simp: stack_ok_def)
  have "norm_back_loop mem cp (cp + length [slash] + length ([] :: bytes)) = Some (cp + length [slash])"
    by (rule norm_back_loop_spec) (use b l s in simp_all)
  then show ?thesis using s by (simp add: norm_back_def seg_pop_def)
next
  case False
  obtain st0 x where s: "st = st0 @ [x]" using st(2) by (metis append_butlast_last_id)
  have ne: "st0 \<noteq> []" using False s by auto
  have cl: "\<forall>x \<in> set st0. closed_seg x" "closed_seg x" using st s by (auto simp: stack_ok_def)
  then obtain e where x: "x = e @ [slash]" "slash \<notin> set e" by (auto simp: closed_seg_def)
  let ?u = "concat st0"
  have u: "?u \<noteq> []" "last ?u = slash" using concat_closed_last [OF cl(1) ne] by simp_all
  have b': "bslice mem cp (length ?u + length e + 1) = ?u @ e @ [slash]" using b s x by (simp add: add.assoc)
  have "rd mem (cp + (length ?u + length e)) = Some slash"
    using rd_bslice [OF b', of "length ?u + length e"] l s x by (simp add: nth_append)
  moreover have "bslice mem cp (length ?u + length e) = ?u @ e"
    using arg_cong [OF b', of "take (length ?u + length e)"] by (simp add: bslice_def min_def)
  then have "norm_back_loop mem cp (cp + length ?u + length e) = Some (cp + length ?u)"
    using norm_back_loop_spec [of mem cp ?u e] l s x u by simp
  ultimately show ?thesis using s x u False by (simp add: norm_back_def seg_pop_def add.assoc)
qed

lemma bslice_alt: "bslice m a n = drop a (take (a + n) m)"
  by (simp add: bslice_def drop_take)

lemma drop_overlay_after:
  "off + length ys \<le> k \<Longrightarrow> off + length ys \<le> length xs \<Longrightarrow> drop k (overlay xs off ys) = drop k xs"
  by (simp add: overlay_def add.commute)

lemma bslice_overlay_extend:
  assumes "bslice m a (length c) = c" and "a + length c = off" and "off + length ys \<le> length m"
  shows "bslice (overlay m off ys) a (length c + length ys) = c @ ys"
proof -
  have "bslice (overlay m off ys) a (length c + length ys) = drop a (take off m @ ys)"
    using assms(2,3) take_overlay_prefix [of off m ys] by (simp add: bslice_alt add.assoc [symmetric])
  also have "\<dots> = c @ ys" using assms by (simp add: bslice_alt)
  finally show ?thesis .
qed

lemma bslice_shorter: "bslice m a k = xs \<Longrightarrow> j \<le> k \<Longrightarrow> bslice m a j = take j xs"
  by (auto simp: bslice_def)

lemma seg_pop_prefix: "\<exists>r. concat st = concat (seg_pop st) @ r"
  by (cases st rule: rev_cases) (auto simp: seg_pop_def)

lemma seg_pop_ok: "stack_ok st \<Longrightarrow> stack_ok (seg_pop st)"
  by (cases st rule: rev_cases) (auto simp: seg_pop_def stack_ok_def hd_append)

lemma seg_pop_Nil: "seg_pop st = [] \<Longrightarrow> st = []"
  by (cases st rule: rev_cases) (auto simp: seg_pop_def split: if_splits)

definition norm_result :: "bytes \<Rightarrow> nat \<Rightarrow> nat \<Rightarrow> bytes \<Rightarrow> (bytes \<times> nat) option \<Rightarrow> bool" where
  "norm_result mem cp se out r \<longleftrightarrow>
     (\<exists>mem'. r = Some (mem', cp + length out) \<and> bslice mem' cp (length out) = out \<and> cp + length out \<le> se \<and>
        length mem' = length mem \<and> take cp mem' = take cp mem \<and> drop se mem' = drop se mem)"

text \<open>The first segment of what is left: its name, the slash behind it and the rest.\<close>

lemma split_first:
  assumes "y \<noteq> []"
  obtains t u y' where "y = (t @ u) @ y'" "segments y = (t @ u) # segments y'" "slash \<notin> set t"
    "u = [slash] \<or> u = [] \<and> y' = []" "t @ u \<noteq> []"
proof -
  define t where "t = takeWhile (\<lambda>c. c \<noteq> slash) y"
  define r where "r = dropWhile (\<lambda>c. c \<noteq> slash) y"
  have y: "y = t @ r" and t: "slash \<notin> set t" by (auto simp: t_def r_def dest: set_takeWhileD)
  have seg: "segments y = (t @ take 1 r) # segments (drop 1 r)"
  proof -
    have r: "drop (length t) y = r" by (subst y) simp
    moreover have "drop (length t + 1) y = drop 1 r" using r by (metis drop_drop add.commute)
    ultimately show ?thesis using segments_first [OF assms] by (simp add: t_def [symmetric])
  qed
  show thesis
  proof (cases r)
    case Nil
    with y t seg assms show ?thesis by (intro that [of t "[]" "[]"]) simp_all
  next
    case (Cons c r')
    then have "c = slash" using hd_dropWhile [of "\<lambda>c. c \<noteq> slash" y] by (simp add: r_def)
    with Cons y t seg show ?thesis by (intro that [of t "[slash]" r']) simp_all
  qed
qed

lemma takeWhile_seg: "slash \<notin> set t \<Longrightarrow> u = [slash] \<or> u = [] \<and> y' = [] \<Longrightarrow>
    takeWhile (\<lambda>c. c \<noteq> slash) ((t @ u) @ y') = t"
  using seg_name_first [of t "u @ y'"] by (auto simp: seg_name_def)

lemma norm_loop_step:
  assumes y: "bslice mem s (length y) = y" "y = (t @ u) @ y'" and l: "s + length y \<le> length mem" "length y < 2 ^ 31"
    and t: "slash \<notin> set t" "u = [slash] \<or> u = [] \<and> y' = []" "t @ u \<noteq> []" and d: "d \<le> s"
    and n: "n = s + length (t @ u)"
  shows "norm_loop mem s (s + length y) cp d =
      (if t = str ''.'' then norm_loop mem n (s + length y) cp d
       else if t = str ''..'' then Option.bind (norm_back mem cp d) (\<lambda>d. norm_loop mem n (s + length y) cp d)
       else norm_loop (overlay mem d (t @ u)) n (s + length y) cp (d + length (t @ u)))"
proof -
  let ?se = "s + length y" and ?c = "\<lparr>ms_mem = mem, ms_p = s, ms_len = length t\<rparr>"
  have "skip_while (\<lambda>c. c \<noteq> slash) mem s ?se = Some (s + length t)"
    using skip_while_takeWhile [of s ?se mem "\<lambda>c. c \<noteq> slash"] y l takeWhile_seg [OF t(1,2)] by simp
  then have parse: "parse_uri_component mem s ?se slash = Some (?c, n)"
    using t(2) n y(2) by (auto simp: parse_uri_component_def)
  have "length t \<le> length y" "length (t @ u) \<le> length y" using y(2) by simp_all
  then have sl: "bslice mem s (length t) = t" "bslice mem s (length (t @ u)) = t @ u"
    using bslice_shorter [OF y(1)] y(2) by simp_all
  have ct: "ms_valid ?c" "ms_bytes ?c = t" "ms_len ?c < 2 ^ 31"
    using sl(1) l \<open>length t \<le> length y\<close> by (simp_all add: ms_valid_def ms_bytes_def)
  obtain r1 where r1: "mg_vcmp ?c (str ''.'') = Some r1" "r1 = 0 \<longleftrightarrow> t = str ''.''"
    using vcmp_zero [OF ct(1,3), of "str ''.''"] ct(2) by auto
  obtain r2 where r2: "mg_vcmp ?c (str ''..'') = Some r2" "r2 = 0 \<longleftrightarrow> t = str ''..''"
    using vcmp_zero [OF ct(1,3), of "str ''..''"] ct(2) by auto
  have "length y = length (t @ u) + length y'" "length (t @ u) \<noteq> 0" using y(2) t(3) by simp_all
  then have "s < ?se" "n \<le> length mem" "d + (n - s) \<le> length mem" "n - s = length (t @ u)"
    using l d n by linarith+
  then show ?thesis
    using parse r1 r2 sl(2)
    by (subst norm_loop.simps) (simp del: length_append str_Cons)
qed

lemma norm_loop_spec:
  assumes "bslice mem s (length y) = y" and "s + length y \<le> length mem"
    and "bslice mem cp (length (concat st)) = concat st" and "cp + length (concat st) \<le> s"
    and "stack_ok st" and "st = [] \<Longrightarrow> y = [] \<or> hd y = slash" and "length y < 2 ^ 31"
  shows "norm_result mem cp (s + length y) (concat (resolve st (segments y)))
    (norm_loop mem s (s + length y) cp (cp + length (concat st)))"
  using assms
proof (induction y arbitrary: mem s st rule: length_induct)
  case (1 y)
  show ?case
  proof (cases "y = []")
    case True
    then show ?thesis using "1.prems" by (simp add: norm_result_def norm_loop.simps)
  next
    case False
    then obtain t u y' where y: "y = (t @ u) @ y'" and seg: "segments y = (t @ u) # segments y'"
      and t: "slash \<notin> set t" "u = [slash] \<or> u = [] \<and> y' = []" "t @ u \<noteq> []" by (rule split_first)
    let ?d = "cp + length (concat st)" and ?n = "s + length (t @ u)"
    have nm: "seg_name (t @ u) = t" using seg_name_first [OF t(1), of u] t(2) by auto
    have len: "s + length y = ?n + length y'" using y by simp
    have sl: "bslice mem ?n (length y') = y'"
    proof -
      have "drop (length (t @ u)) (bslice mem s (length y)) = y'" using "1.prems"(1) y by simp
      then show ?thesis using y by (simp add: bslice_def drop_take add.commute)
    qed
    have sy: "length y' < length y" using t(3) y by (cases "t @ u") auto
    have sm: "length y' < 2 ^ 31" using sy "1.prems"(7) by simp
    note step = norm_loop_step [OF "1.prems"(1) y "1.prems"(2,7) t "1.prems"(4) refl, of cp]
    note IH = "1.IH" [rule_format, OF sy]
    have hd: "hd (t @ u) = slash \<Longrightarrow> t = []" using t by (cases t) auto
    have st0: "st = [] \<Longrightarrow> t @ u = [slash]"
      using "1.prems"(6) False y t hd by (cases t) auto
    consider (dot) "t = str ''.''" | (up) "t = str ''..''" | (name) "t \<noteq> str ''.''" "t \<noteq> str ''..''" by blast
    then show ?thesis
    proof cases
      case dot
      have "st \<noteq> []" using st0 dot by (auto simp: ch_def slash_def)
      then have "norm_result mem cp (?n + length y') (concat (resolve st (segments y'))) (norm_loop mem ?n (?n + length y') cp ?d)"
        using sl "1.prems" len sm by (intro IH) simp_all
      then show ?thesis using step dot seg nm len by (simp add: add.assoc)
    next
      case up
      have ne: "st \<noteq> []" using st0 up by (auto simp: ch_def slash_def)
      let ?st = "seg_pop st"
      obtain r where r: "concat st = concat ?st @ r" using seg_pop_prefix by blast
      have bk: "norm_back mem cp ?d = Some (cp + length (concat ?st))"
        using "1.prems" ne by (intro norm_back_spec) simp_all
      have "bslice mem cp (length (concat ?st)) = concat ?st"
        using bslice_shorter [OF "1.prems"(3), of "length (concat ?st)"] r by simp
      then have "norm_result mem cp (?n + length y') (concat (resolve ?st (segments y')))
          (norm_loop mem ?n (?n + length y') cp (cp + length (concat ?st)))"
        using sl "1.prems" len sm r seg_pop_ok seg_pop_Nil [of st] ne by (intro IH) simp_all
      then show ?thesis using step up bk seg nm len by (simp add: ch_def add.assoc)
    next
      case name
      let ?m = "overlay mem ?d (t @ u)" and ?st = "st @ [t @ u]"
      have dl: "?d + length (t @ u) \<le> length mem" "?d + length (t @ u) \<le> ?n" using "1.prems"(2,4) y by simp_all
      have m: "length ?m = length mem" "take cp ?m = take cp mem" "drop ?n ?m = drop ?n mem"
        using dl length_overlay [OF dl(1)] take_overlay_before [of cp ?d mem "t @ u"] drop_overlay_after [OF dl(2,1)]
        by simp_all
      have ext: "bslice ?m cp (length (concat ?st)) = concat ?st"
        using bslice_overlay_extend [OF "1.prems"(3) refl dl(1)] by simp
      have "norm_result ?m cp (?n + length y') (concat (resolve ?st (segments y')))
          (norm_loop ?m ?n (?n + length y') cp (cp + length (concat ?st)))"
      proof (cases "u = []")
        case True
        then have "y' = []" using t(2) by auto
        then show ?thesis using ext dl by (simp add: norm_result_def norm_loop.simps)
      next
        case False
        then have u: "u = [slash]" using t(2) by auto
        have "stack_ok ?st" using "1.prems"(5) st0 t(1) u
          by (cases st) (auto simp: stack_ok_def closed_seg_def)
        moreover have "bslice ?m ?n (length y') = y'" using sl m(3) by (simp add: bslice_def)
        ultimately show ?thesis using ext dl m(1) "1.prems"(2) len sm by (intro IH) simp_all
      qed
      moreover have "drop (s + length y) ?m = drop (s + length y) mem"
        using arg_cong [OF m(3), of "drop (length y')"] len by (simp add: ac_simps)
      ultimately show ?thesis
        using step name seg nm len m by (simp add: norm_result_def add.assoc)
    qed
  qed
qed

text \<open>Taking a path apart and putting it together again.\<close>

fun segs_ok :: "bytes list \<Rightarrow> bool" where
  "segs_ok [] \<longleftrightarrow> True"
| "segs_ok [x] \<longleftrightarrow> closed_seg x \<or> x \<noteq> [] \<and> slash \<notin> set x"
| "segs_ok (x # xs) \<longleftrightarrow> closed_seg x \<and> segs_ok xs"

lemma segs_ok_closed: "\<forall>x \<in> set st. closed_seg x \<Longrightarrow> segs_ok xs \<Longrightarrow> segs_ok (st @ xs)"
proof (induction st)
  case (Cons x st)
  then show ?case by (cases "st @ xs") simp_all
qed simp

lemma segments_closed: "slash \<notin> set b \<Longrightarrow> segments ((b @ [slash]) @ r) = (b @ [slash]) # segments r"
  by (induction b) auto

lemma segments_open: "slash \<notin> set b \<Longrightarrow> b \<noteq> [] \<Longrightarrow> segments b = [b]"
proof (induction b)
  case (Cons c b)
  then show ?case by (cases "b = []") auto
qed simp

lemma segments_concat_id: "segs_ok xs \<Longrightarrow> segments (concat xs) = xs"
proof (induction xs rule: segs_ok.induct)
  case (2 x)
  then show ?case using segments_closed [of _ "[]"] segments_open by (auto simp: closed_seg_def)
next
  case (3 x y xs)
  then show ?case using segments_closed by (auto simp: closed_seg_def simp del: append_assoc)
qed simp

lemma segs_ok_segments: "segs_ok (segments y)"
proof (induction y rule: length_induct)
  case (1 y)
  show ?case
  proof (cases "y = []")
    case False
    then obtain t u y' where y: "y = (t @ u) @ y'" and seg: "segments y = (t @ u) # segments y'"
      and t: "slash \<notin> set t" "u = [slash] \<or> u = [] \<and> y' = []" "t @ u \<noteq> []" by (rule split_first)
    have "length y' < length y" using t(3) y by (cases "t @ u") auto
    with 1 have "segs_ok (segments y')" by blast
    with seg t show ?thesis by (cases "segments y'") (auto simp: closed_seg_def)
  qed simp
qed

definition no_dots :: "bytes list \<Rightarrow> bool" where
  "no_dots xs \<longleftrightarrow> (\<forall>x \<in> set xs. seg_name x \<noteq> str ''.'' \<and> seg_name x \<noteq> str ''..'')"

lemma seg_pop_sub: "set (seg_pop st) \<subseteq> set st"
  by (auto simp: seg_pop_def dest: in_set_butlastD)

lemma resolve_ok:
  "\<forall>x \<in> set st. closed_seg x \<Longrightarrow> segs_ok xs \<Longrightarrow> no_dots st \<Longrightarrow> segs_ok (resolve st xs) \<and> no_dots (resolve st xs)"
proof (induction st xs rule: resolve.induct)
  case (1 st)
  then show ?case using segs_ok_closed [of st "[]"] by simp
next
  case (2 st x xs)
  have ok: "segs_ok xs" "xs \<noteq> [] \<Longrightarrow> closed_seg x" using "2.prems"(2) by (cases xs; simp)+
  have pop: "\<forall>x \<in> set (seg_pop st). closed_seg x" "no_dots (seg_pop st)"
    using "2.prems"(1,3) seg_pop_sub [of st] by (auto simp: no_dots_def)
  consider (dot) "seg_name x = str ''.''" | (up) "seg_name x \<noteq> str ''.''" "seg_name x = str ''..''"
    | (name) "seg_name x \<noteq> str ''.''" "seg_name x \<noteq> str ''..''" by blast
  then show ?case
  proof cases
    case dot
    from "2.IH"(1) [OF dot "2.prems"(1) ok(1) "2.prems"(3)] dot show ?thesis by simp
  next
    case up
    from "2.IH"(2) [OF up pop(1) ok(1) pop(2)] up show ?thesis by simp
  next
    case name
    have nd: "no_dots (st @ [x])" using "2.prems"(3) name by (auto simp: no_dots_def)
    show ?thesis
    proof (cases "xs = []")
      case True
      with nd name segs_ok_closed [OF "2.prems"(1), of "[x]"] "2.prems"(2) show ?thesis by simp
    next
      case False
      then have "\<forall>x \<in> set (st @ [x]). closed_seg x" using ok(2) "2.prems"(1) by simp
      from "2.IH"(3) [OF name this ok(1) nd] name show ?thesis by simp
    qed
  qed
qed

lemma resolve_root: "y \<noteq> [] \<Longrightarrow> hd y = slash \<Longrightarrow> \<exists>r. resolve [] (segments y) = [slash] # r"
proof -
  assume "y \<noteq> []" "hd y = slash"
  then obtain y' where y: "y = slash # y'" by (cases y) auto
  have "\<exists>r. resolve ([slash] # st) xs = [slash] # r" for st xs
  proof (induction xs arbitrary: st)
    case (Cons x xs)
    have "\<exists>st'. seg_pop ([slash] # st) = [slash] # st'" by (auto simp: seg_pop_def)
    with Cons show ?case by auto
  qed simp
  then show ?thesis using y by (simp add: seg_name_def ch_def)
qed

text \<open>C37. Resolving the dot segments of a path in place ends without touching memory outside the path.  The result starts
  with a slash, is not longer than the path, is the path resolved segment by segment, and has no segment named
  ``.'' or ``..'' left, so it cannot lead out of the directory it is appended to.\<close>

theorem mg_normalize_uri_path_safe:
  assumes "s + length y \<le> length mem" and "bslice mem s (length y) = y" and "y \<noteq> []" and "hd y = slash"
    and "length y < 2 ^ 31"
  shows "\<exists>mem' n. mg_normalize_uri_path mem s (length y) s = Some (1, mem', n) \<and> n \<le> length y \<and>
    bslice mem' s n = concat (resolve [] (segments y)) \<and> hd (bslice mem' s n) = slash \<and>
    no_dots (segments (bslice mem' s n)) \<and>
    length mem' = length mem \<and> take s mem' = take s mem \<and> drop (s + length y) mem' = drop (s + length y) mem"
proof -
  let ?out = "concat (resolve [] (segments y))"
  obtain r where root: "resolve [] (segments y) = [slash] # r" using resolve_root [OF assms(3,4)] by blast
  have "norm_result mem s (s + length y) ?out (norm_loop mem s (s + length y) s (s + length (concat ([] :: bytes list))))"
    using assms by (intro norm_loop_spec) (simp_all add: bslice_def stack_ok_def)
  then obtain mem' where l: "norm_loop mem s (s + length y) s s = Some (mem', s + length ?out)"
    and m: "bslice mem' s (length ?out) = ?out" "length ?out \<le> length y" "length mem' = length mem"
      "take s mem' = take s mem" "drop (s + length y) mem' = drop (s + length y) mem"
    by (auto simp: norm_result_def)
  have "rd mem s = Some slash"
    using rd_bslice [OF assms(2,1), of 0] assms(3,4) by (simp add: hd_conv_nth)
  then have "mg_normalize_uri_path mem s (length y) s = Some (1, mem', length ?out)"
    using l root assms(3) by (simp add: mg_normalize_uri_path_def)
  moreover have "no_dots (segments ?out)"
    using resolve_ok [of "[]" "segments y"] segs_ok_segments segments_concat_id by (simp add: no_dots_def)
  ultimately show ?thesis using m root by auto
qed

theorem mg_normalize_uri_path_safe_witness:
  "\<exists>mem' n. mg_normalize_uri_path (str ''/a/../../etc'') 0 (length ''/a/../../etc'') 0 = Some (1, mem', n) \<and> bslice mem' 0 n = str ''/etc''"
proof -
  let ?x = "str ''/a/../../etc''"
  have "concat (resolve [] (segments ?x)) = str ''/etc''" "?x \<noteq> []" "hd ?x = slash"
    by (simp_all add: ch_def slash_def seg_name_def seg_pop_def)
  then show ?thesis
    using mg_normalize_uri_path_safe [of 0 ?x ?x] by (auto simp: bslice_def simp del: str_Cons)
qed

section \<open>Encoding and decoding\<close>

definition url_esc :: "u8 \<Rightarrow> bytes" where
  "url_esc c = (if url_plain c then [c] else [0x25, hex_digits ! unat (drop_bit 4 c), hex_digits ! unat (c AND 0xf)])"

lemma length_url_esc: "0 < length (url_esc c)" "length (url_esc c) \<le> 3"
  by (simp_all add: url_esc_def)

lemma url_encode_loop_spec:
  assumes "n \<le> length src"
  shows "i \<le> n \<Longrightarrow> length out + 3 * (n - i) + 4 \<le> dst_len \<Longrightarrow>
    url_encode_loop src n dst_len i out = Some (out @ concat (map url_esc (drop i (take n src))))"
proof (induction "n - i" arbitrary: i out)
  case 0
  then show ?case by (simp add: url_encode_loop.simps)
next
  case (Suc k)
  then have i: "i < n" "length out + 2 < dst_len - 1" by linarith+
  have r: "rd src i = Some (src ! i)" using i(1) assms by (simp add: rd_def)
  have d: "drop i (take n src) = src ! i # drop (i + 1) (take n src)"
    using i(1) assms by (subst Cons_nth_drop_Suc [symmetric]) simp_all
  have "length (out @ url_esc (src ! i)) + 3 * (n - (i + 1)) + 4 \<le> dst_len"
    using length_url_esc(2) [of "src ! i"] Suc.prems(2) i(1) by simp
  with Suc.hyps(1) [of "i + 1" "out @ url_esc (src ! i)"] Suc.hyps(2) i(1)
  have "url_encode_loop src n dst_len (i + 1) (out @ url_esc (src ! i)) =
      Some (out @ concat (map url_esc (drop i (take n src))))" using d by simp
  then show ?case
    using i r by (subst url_encode_loop.simps) (simp add: url_esc_def)
qed

lemma hex_digit_facts:
  assumes "k < 16"
  shows "is_xdigit (hex_digits ! k)" "hextoi (tolower (hex_digits ! k)) = of_nat k"
proof -
  have "list_all (\<lambda>k. is_xdigit (hex_digits ! k) \<and> hextoi (tolower (hex_digits ! k)) = of_nat k) [0..<16]"
    by (simp add: upt_rec hex_digits_def is_xdigit_def is_digit_def hextoi_def tolower_def ch_def)
  then show "is_xdigit (hex_digits ! k)" "hextoi (tolower (hex_digits ! k)) = of_nat k"
    using assms by (auto simp: list_all_iff)
qed

lemma nibble_join: "push_bit 4 (drop_bit 4 c) OR (c AND 0xf) = (c :: u8)"
  by (rule u8_eqI) (simp_all add: bit_simps)

lemma url_plain_safe: "url_plain c \<Longrightarrow> c \<noteq> 0x25 \<and> c \<noteq> 0x2B"
  by (auto simp: url_plain_def is_alpha_def is_digit_def dont_escape_def ch_def)

lemma url_decode_loop_spec:
  assumes "drop i src = concat (map url_esc s) @ r" and "int i + int (length (concat (map url_esc s))) = src_len"
    and "int (length out) + int (length s) < dst_len"
  shows "url_decode_loop src src_len dst_len form i out = Some (Some (nat src_len), out @ s)"
  using assms
proof (induction s arbitrary: i out)
  case Nil
  then show ?case by (simp add: url_decode_loop.simps)
next
  case (Cons c s)
  have d: "drop i src = url_esc c @ concat (map url_esc s) @ r" using Cons.prems(1) by simp
  have dr: "drop (i + length (url_esc c)) src = concat (map url_esc s) @ r" using drop_past [OF d refl] .
  have IH: "url_decode_loop src src_len dst_len form (i + length (url_esc c)) (out @ [c]) = Some (Some (nat src_len), out @ c # s)"
    using Cons.IH [OF dr] Cons.prems by simp
  have lt: "int i < src_len" "int (length out) < dst_len - 1"
    using Cons.prems(2,3) length_url_esc(1) [of c] by (simp_all del: length_greater_0_conv)
  show ?case
  proof (cases "url_plain c")
    case True
    then have e: "url_esc c = [c]" by (simp add: url_esc_def)
    then have "rd src i = Some c" using rd_ahead [of i src c] d by simp
    with IH e lt url_plain_safe [OF True] show ?thesis by (subst url_decode_loop.simps) simp
  next
    case False
    define x where "x = hex_digits ! unat (drop_bit 4 c)"
    define y where "y = hex_digits ! unat (c AND 0xf)"
    have e: "url_esc c = [0x25, x, y]" using False by (simp add: url_esc_def x_def y_def)
    have rds: "rd src i = Some 0x25" "rd src (i + 1) = Some x" "rd src (i + 2) = Some y"
      using d e by (auto intro: rd_at [where p = i and a = "[]"] rd_at [where p = i and a = "[0x25]"]
        rd_at [where p = i and a = "[0x25, x]"])
    have hx: "is_xdigit x" "is_xdigit y" "hextoi (tolower x) = drop_bit 4 c" "hextoi (tolower y) = c AND 0xf"
      using nibbles_less [of c] by (simp_all add: x_def y_def hex_digit_facts)
    have "int i < src_len - 2" using Cons.prems(2) e by simp
    moreover have "i + length (url_esc c) = i + 3" using e by simp
    ultimately show ?thesis
      using IH lt rds hx by (subst url_decode_loop.simps) (simp add: nibble_join)
  qed
qed

text \<open>C38. Encoding a string for a URL and decoding it, as a form or not, gives the string back, whatever its bytes
  are; the encoding takes at most three bytes for each.\<close>

theorem url_coding_roundtrip:
  assumes "3 * length s + 4 \<le> dst_len" and "length s < length dst" and "int (length s) < cap" and "length s < 2 ^ 29"
  shows "\<exists>k enc. mg_url_encode (s @ t) (length s) dst_len = Some (k, enc) \<and> k \<le> 3 * length s \<and>
    mg_url_decode enc (int k) dst cap form = Some (int (length s), overlay dst 0 (s @ [0]))"
proof -
  let ?e = "concat (map url_esc s)"
  have "mg_url_encode (s @ t) (length s) dst_len = Some (length ?e, ?e @ [0])"
    using url_encode_loop_spec [of "length s" "s @ t" 0 "[]" dst_len] assms(1) by (simp add: mg_url_encode_def)
  moreover have "length ?e \<le> 3 * length s"
    using length_url_esc(2) by (induction s) (simp_all add: le_Suc_eq add_mono)
  moreover have "url_decode_loop (?e @ [0]) (int (length ?e)) cap form 0 [] = Some (Some (length ?e), s)"
    using url_decode_loop_spec [of 0 "?e @ [0]" s "[0]" "int (length ?e)" "[]" cap form] assms(3) by simp
  ultimately show ?thesis using assms(2) by (auto simp: mg_url_decode_def)
qed

theorem url_coding_roundtrip_witness:
  "\<exists>k enc. mg_url_encode (str ''a b&'' @ [0]) (length (str ''a b&'')) 20 = Some (k, enc) \<and> k \<le> 3 * length (str ''a b&'') \<and>
    mg_url_decode enc (int k) (replicate 8 1) 8 True =
      Some (int (length (str ''a b&'')), overlay (replicate 8 1) 0 (str ''a b&'' @ [0]))"
  by (rule url_coding_roundtrip) simp_all

section \<open>Splitting a URI into its components\<close>

lemma skip_while_valid:
  assumes "p \<le> fin" and "fin \<le> length mem"
  shows "\<exists>q. skip_while P mem p fin = Some q \<and> p \<le> q \<and> q \<le> fin \<and> (q < fin \<longrightarrow> \<not> P (mem ! q)) \<and> (p < q \<longrightarrow> P (mem ! p))"
  using assms
proof (induction P mem p fin rule: skip_while.induct)
  case (1 P mem s e)
  show ?case
  proof (cases "s < e \<and> P (mem ! s)")
    case True
    then have "rd mem s = Some (mem ! s)" using "1.prems" by (simp add: rd_def)
    with "1.IH" [OF _ this] True "1.prems" show ?thesis by (subst skip_while.simps) fastforce
  next
    case False
    then show ?thesis using "1.prems" by (subst skip_while.simps) (auto simp: rd_def)
  qed
qed

lemma uri_port_loop_valid:
  "p \<le> fin \<Longrightarrow> fin \<le> length mem \<Longrightarrow> \<exists>q port'. uri_port_loop mem p fin port = Some (q, port') \<and> p \<le> q \<and> q \<le> fin"
proof (induction mem p fin port rule: uri_port_loop.induct)
  case (1 mem p fin port)
  show ?case
  proof (cases "p < fin")
    case True
    then have r: "rd mem p = Some (mem ! p)" using "1.prems" by (simp add: rd_def)
    show ?thesis
    proof (cases "mem ! p = slash")
      case False
      have "p + 1 \<le> fin" using True by simp
      from "1.IH" [OF True r False this "1.prems"(2)] True r False show ?thesis
        by (subst uri_port_loop.simps) fastforce
    qed (use True r "1.prems" in \<open>simp add: uri_port_loop.simps\<close>)
  qed (use "1.prems" in \<open>simp add: uri_port_loop.simps\<close>)
qed

lemma parse_component_valid:
  assumes "p \<le> fin" and "fin \<le> length mem"
  shows "\<exists>c q. parse_uri_component mem p fin sep = Some (c, q) \<and> p \<le> q \<and> q \<le> fin \<and> (p < fin \<longrightarrow> p < q)"
proof -
  obtain q where "skip_while (\<lambda>c. c \<noteq> sep) mem p fin = Some q" "p \<le> q" "q \<le> fin"
    using skip_while_valid [OF assms, of "\<lambda>c. c \<noteq> sep"] by blast
  then show ?thesis by (auto simp: parse_uri_component_def)
qed

text \<open>Every turn of the machine moves forward or to a later state.\<close>

fun uri_rank :: "uri_state \<Rightarrow> nat" where
  "uri_rank P_START = 5" | "uri_rank P_SCHEME_OR_PORT = 4" | "uri_rank P_USER_INFO = 3"
| "uri_rank P_HOST = 2" | "uri_rank P_PORT = 1" | "uri_rank P_REST = 0"

lemma strn_eq_Some: "length pat \<le> length s \<Longrightarrow> \<exists>b. c_strn_eq s pat = Some b"
  by (simp add: strn_eq_take)

lemma uri_step_progress:
  assumes "p < fin" and "fin \<le> length mem"
  shows "\<exists>st' p' r'. uri_step mem u fin st p r = Some (st', p', r') \<and> p \<le> p' \<and> p' \<le> fin \<and>
    (p < p' \<or> uri_rank st' < uri_rank st)"
proof (cases st)
  case P_START
  obtain q where "skip_while (\<lambda>c. c \<noteq> colon \<and> c \<noteq> slash) mem p fin = Some q" "p \<le> q" "q \<le> fin"
    using skip_while_valid [of p fin mem "\<lambda>c. c \<noteq> colon \<and> c \<noteq> slash"] assms by auto
  with P_START assms show ?thesis by (cases "q < fin") (auto simp: uri_step_def stop_state_def rd_def)
next
  case P_SCHEME_OR_PORT
  obtain b where "(if fin - p \<ge> 3 then c_strn_eq (drop p mem) (str ''://'') else Some False) = Some b" "b \<longrightarrow> fin - p \<ge> 3"
  proof (cases "fin - p \<ge> 3")
    case True
    then have "length (str ''://'') \<le> length (drop p mem)" using assms by (simp del: str_Cons)
    from strn_eq_Some [OF this] True that show ?thesis by auto
  qed simp
  with P_SCHEME_OR_PORT assms show ?thesis by (cases b) (auto simp: uri_step_def)
next
  case P_USER_INFO
  obtain q where "skip_while (\<lambda>c. c \<noteq> at_sign \<and> c \<noteq> slash) mem (p + 1) fin = Some q" "p + 1 \<le> q" "q \<le> fin"
    using skip_while_valid [of "p + 1" fin mem "\<lambda>c. c \<noteq> at_sign \<and> c \<noteq> slash"] assms by auto
  with P_USER_INFO assms show ?thesis by (cases "q < fin") (auto simp: uri_step_def rd_def Let_def)
next
  case P_HOST
  define p1 where "p1 = (if mem ! p = at_sign then p + 1 else p)"
  have p1: "p \<le> p1" "p1 \<le> fin" using assms by (auto simp: p1_def)
  obtain q where "skip_while (\<lambda>c. c \<noteq> colon \<and> c \<noteq> slash) mem p1 fin = Some q" "p1 \<le> q" "q \<le> fin"
    using skip_while_valid [of p1 fin mem "\<lambda>c. c \<noteq> colon \<and> c \<noteq> slash"] assms p1 by auto
  with P_HOST assms p1 show ?thesis
    by (cases "q < fin") (auto simp: uri_step_def stop_state_def rd_def Let_def p1_def [symmetric])
next
  case P_PORT
  obtain q port where "uri_port_loop mem (p + 1) fin (up_port r) = Some (q, port)" "p + 1 \<le> q" "q \<le> fin"
    using uri_port_loop_valid [of "p + 1" fin mem "up_port r"] assms by auto
  with P_PORT assms show ?thesis by (auto simp: uri_step_def)
next
  case P_REST
  obtain c1 q1 where 1: "parse_uri_component mem p fin 0x3F = Some (c1, q1)" "p < q1" "q1 \<le> fin"
    using parse_component_valid [of p fin mem "0x3F"] assms by auto
  obtain c2 q2 where 2: "parse_uri_component mem q1 fin 0x23 = Some (c2, q2)" "q1 \<le> q2" "q2 \<le> fin"
    using parse_component_valid [of q1 fin mem "0x23"] assms 1 by auto
  obtain c3 q3 where 3: "parse_uri_component mem q2 fin 0 = Some (c3, q3)" "q2 \<le> q3" "q3 \<le> fin"
    using parse_component_valid [of q2 fin mem 0] assms 2 by auto
  from 1 2 3 P_REST show ?thesis by (auto simp: uri_step_def)
qed

lemma uri_loop_terminates:
  assumes "fin \<le> length mem"
  shows "p \<le> fin \<Longrightarrow> \<exists>r'. uri_loop mem u fin st p r = Some r'"
proof (induction "(fin - p, uri_rank st)" arbitrary: p st r rule: wf_induct_rule [OF wf_lex_prod [OF wf_less_than wf_less_than]])
  case (1 p st r)
  show ?case
  proof (cases "p < fin")
    case True
    obtain st' p' r' where s: "uri_step mem u fin st p r = Some (st', p', r')" "p \<le> p'" "p' \<le> fin"
      "p < p' \<or> uri_rank st' < uri_rank st" using uri_step_progress [OF True assms] by blast
    have "((fin - p', uri_rank st'), (fin - p, uri_rank st)) \<in> less_than <*lex*> less_than"
      using s True by auto
    from "1.hyps" [OF this s(3)] s(1) True show ?thesis by (subst uri_loop.simps) simp
  qed (simp add: uri_loop.simps)
qed

lemma mg_parse_uri_terminates: "ms_valid uri \<Longrightarrow> \<exists>r. mg_parse_uri uri = Some r"
  using uri_loop_terminates [of "ms_p uri + ms_len uri" "ms_mem uri" "ms_p uri"]
  by (simp add: mg_parse_uri_def ms_valid_def)

lemma skip_ahead:
  assumes "drop p mem = t @ r" and "\<forall>c \<in> set t. P c" and "p + length t \<le> fin"
    and "fin = p + length t \<or> r \<noteq> [] \<and> \<not> P (hd r)"
  shows "skip_while P mem p fin = Some (p + length t)"
  using assms
proof (induction t arbitrary: p)
  case Nil
  then show ?case
    using rd_ahead [of p mem "hd r" "tl r"] by (subst skip_while.simps) auto
next
  case (Cons c t)
  have "drop (p + 1) mem = t @ r" using drop_past [of p mem "[c]" "t @ r" 1] Cons.prems(1) by simp
  from Cons.IH [OF this] Cons.prems rd_ahead [of p mem c "t @ r"] show ?case
    by (subst skip_while.simps) simp
qed

lemma component_ahead:
  assumes "drop p mem = t @ r" and "sep \<notin> set t" and "p + length t \<le> fin"
    and "fin = p + length t \<or> r \<noteq> [] \<and> hd r = sep"
  shows "parse_uri_component mem p fin sep =
    Some (piece mem p (p + length t), if p + length t < fin then p + length t + 1 else fin)"
proof -
  have "skip_while (\<lambda>c. c \<noteq> sep) mem p fin = Some (p + length t)"
    by (rule skip_ahead [OF assms(1)]) (use assms in auto)
  with assms(3) show ?thesis by (auto simp: parse_uri_component_def piece_def)
qed

lemma piece_bytes: "drop p mem = t @ r \<Longrightarrow> ms_bytes (piece mem p (p + length t)) = t"
  by (simp add: piece_def ms_bytes_def bslice_def)

lemma piece_empty [simp]: "ms_bytes (piece mem p p) = []"
  by (simp add: piece_def ms_bytes_def bslice_def)

lemma null_bytes [simp]: "ms_bytes null_str = []"
  by (simp add: null_str_def ms_bytes_def bslice_def)

text \<open>The number a list of digits stands for, in an \<open>unsigned\<close>.\<close>

definition port_value :: "bytes \<Rightarrow> u32" where
  "port_value ds = fold (\<lambda>c n. n * 10 + word_of_int (schar c - 48)) ds 0"

lemma port_ahead:
  assumes "drop p mem = ds @ r" and "slash \<notin> set ds" and "p + length ds \<le> fin"
    and "fin = p + length ds \<or> r \<noteq> [] \<and> hd r = slash"
  shows "uri_port_loop mem p fin n = Some (p + length ds, fold (\<lambda>c n. n * 10 + word_of_int (schar c - 48)) ds n)"
  using assms
proof (induction ds arbitrary: p n)
  case Nil
  have "r \<noteq> [] \<and> hd r = slash \<Longrightarrow> rd mem p = Some slash"
    using rd_ahead [of p mem slash "tl r"] Nil.prems(1) by (metis append_Nil list.collapse)
  with Nil.prems(3,4) show ?case by (subst uri_port_loop.simps) auto
next
  case (Cons c ds)
  have "drop (p + 1) mem = ds @ r" using drop_past [of p mem "[c]" "ds @ r" 1] Cons.prems(1) by simp
  from Cons.IH [OF this] Cons.prems rd_ahead [of p mem c "ds @ r"] show ?case
    by (subst uri_port_loop.simps) auto
qed

definition port_text :: "bytes option \<Rightarrow> bytes" where
  "port_text port = (case port of None \<Rightarrow> [] | Some ds \<Rightarrow> colon # ds)"

definition user_text :: "bytes option \<Rightarrow> bytes" where
  "user_text user = (case user of None \<Rightarrow> [] | Some x \<Rightarrow> x @ [at_sign])"

definition query_text :: "(bytes \<times> bytes option) option \<Rightarrow> bytes" where
  "query_text q = (case q of None \<Rightarrow> []
     | Some (x, f) \<Rightarrow> 0x3F # x @ (case f of None \<Rightarrow> [] | Some y \<Rightarrow> 0x23 # y))"

definition uri_text :: "bytes \<Rightarrow> bytes option \<Rightarrow> bytes \<Rightarrow> bytes option \<Rightarrow> bytes \<Rightarrow> (bytes \<times> bytes option) option \<Rightarrow> bytes" where
  "uri_text sch user host port path q = sch @ str ''://'' @ user_text user @ host @ port_text port @ path @ query_text q"

lemma uri_loop_step:
  "p < fin \<Longrightarrow> uri_step mem u fin st p r = Some (st', p', r') \<Longrightarrow>
    uri_loop mem u fin st p r = uri_loop mem u fin st' p' r'"
  by (subst uri_loop.simps) simp

text \<open>From the slash of the path on.\<close>

lemma uri_rest:
  assumes d: "drop p mem = path @ query_text q @ t" and p: "path \<noteq> []" "0x3F \<notin> set path"
    and q: "\<forall>x f. q = Some (x, f) \<longrightarrow> 0x23 \<notin> set x \<and> (\<forall>y. f = Some y \<longrightarrow> 0 \<notin> set y)"
    and fin: "fin = p + length (path @ query_text q)"
  shows "\<exists>r'. uri_loop mem u fin P_REST p r = Some r' \<and> up_scheme r' = up_scheme r \<and> up_user_info r' = up_user_info r \<and>
    up_host r' = up_host r \<and> up_port r' = up_port r \<and> ms_bytes (up_path r') = path \<and>
    ms_bytes (up_query r') = (case q of None \<Rightarrow> [] | Some (x, f) \<Rightarrow> x) \<and>
    ms_bytes (up_fragment r') = (case q of Some (x, Some y) \<Rightarrow> y | _ \<Rightarrow> [])"
proof -
  let ?q1 = "p + length path"
  have lt: "p < fin" using p fin by simp
  have a: "ms_bytes (piece mem p ?q1) = path" using piece_bytes [OF d] .
  have end_comp: "parse_uri_component mem fin fin sep = Some (piece mem fin fin, fin)" for sep
    by (simp add: parse_uri_component_def skip_while.simps piece_def)
  have loop: "uri_loop mem u fin P_REST p r = Some (r\<lparr>up_path := a, up_query := b, up_fragment := c\<rparr>)"
    if "parse_uri_component mem p fin 0x3F = Some (a, p1)" "parse_uri_component mem p1 fin 0x23 = Some (b, p2)"
      "parse_uri_component mem p2 fin 0 = Some (c, fin)" for a b c p1 p2
  proof -
    have "uri_step mem u fin P_REST p r = Some (P_REST, fin, r\<lparr>up_path := a, up_query := b, up_fragment := c\<rparr>)"
      using that by (simp add: uri_step_def)
    from uri_loop_step [OF lt this] show ?thesis by (simp add: uri_loop.simps)
  qed
  show ?thesis
  proof (cases q)
    case None
    then have "parse_uri_component mem p fin 0x3F = Some (piece mem p ?q1, fin)"
      using component_ahead [OF d, of "0x3F" fin] p fin by (simp add: query_text_def)
    from loop [OF this end_comp end_comp] a None show ?thesis by auto
  next
    case (Some xf)
    obtain x f where xf: "q = Some (x, f)" using Some by (cases xf) auto
    let ?f = "case f of None \<Rightarrow> [] | Some y \<Rightarrow> 0x23 # y"
    have d1: "drop p mem = path @ 0x3F # x @ ?f @ t" using d xf by (simp add: query_text_def)
    have fin1: "fin = ?q1 + 1 + length x + length ?f" using fin xf by (simp add: query_text_def)
    have c1: "parse_uri_component mem p fin 0x3F = Some (piece mem p ?q1, ?q1 + 1)"
      using component_ahead [OF d1, of "0x3F" fin] p fin1 by simp
    have d2: "drop (?q1 + 1) mem = x @ ?f @ t"
      using drop_past [of p mem "path @ [0x3F]" "x @ ?f @ t"] d1 by simp
    have b: "ms_bytes (piece mem (?q1 + 1) (?q1 + 1 + length x)) = x" using piece_bytes [OF d2] .
    have nx: "0x23 \<notin> set x" using q xf by blast
    show ?thesis
    proof (cases f)
      case None
      then have "parse_uri_component mem (?q1 + 1) fin 0x23 = Some (piece mem (?q1 + 1) (?q1 + 1 + length x), fin)"
        using component_ahead [OF d2 nx, of fin] fin1 by simp
      from loop [OF c1 this end_comp] a b None xf show ?thesis by auto
    next
      case (Some y)
      let ?q2 = "?q1 + 1 + length x"
      have c2: "parse_uri_component mem (?q1 + 1) fin 0x23 = Some (piece mem (?q1 + 1) ?q2, ?q2 + 1)"
        using component_ahead [OF d2 nx, of fin] fin1 Some by simp
      have d3: "drop (?q2 + 1) mem = y @ t"
        using drop_past [of "?q1 + 1" mem "x @ [0x23]" "y @ t"] d2 Some by simp
      have "0 \<notin> set y" using q xf Some by blast
      then have c3: "parse_uri_component mem (?q2 + 1) fin 0 = Some (piece mem (?q2 + 1) (?q2 + 1 + length y), fin)"
        using component_ahead [OF d3, of 0 fin] fin1 Some by simp
      from loop [OF c1 c2 c3] a b piece_bytes [OF d3] Some xf show ?thesis by auto
    qed
  qed
qed

text \<open>The parts of a URI that the theorem below speaks of.\<close>

definition plain_part :: "bytes \<Rightarrow> bool" where
  "plain_part w \<longleftrightarrow> slash \<notin> set w \<and> 0x3F \<notin> set w \<and> 0x23 \<notin> set w"

definition uri_ok :: "bytes \<Rightarrow> bytes option \<Rightarrow> bytes \<Rightarrow> bytes option \<Rightarrow> bytes \<Rightarrow> (bytes \<times> bytes option) option \<Rightarrow> bool" where
  "uri_ok sch user host port path q \<longleftrightarrow>
     sch \<noteq> [] \<and> plain_part sch \<and> colon \<notin> set sch \<and>
     (\<forall>x. user = Some x \<longrightarrow> plain_part x \<and> at_sign \<notin> set x) \<and>
     host \<noteq> [] \<and> plain_part host \<and> colon \<notin> set host \<and> at_sign \<notin> set host \<and>
     (\<forall>ds. port = Some ds \<longrightarrow> ds \<noteq> [] \<and> length ds < 10 \<and> (\<forall>c \<in> set ds. 0x30 \<le> c \<and> c \<le> 0x39)) \<and>
     (path = [] \<longrightarrow> q = None) \<and> (path \<noteq> [] \<longrightarrow> hd path = slash) \<and> 0x3F \<notin> set path \<and> 0x23 \<notin> set path \<and>
     (\<forall>x f. q = Some (x, f) \<longrightarrow> 0x23 \<notin> set x \<and> (\<forall>y. f = Some y \<longrightarrow> 0 \<notin> set y))"

text \<open>What the proofs need of it.\<close>

lemma uri_okD:
  assumes "uri_ok sch user host port path q"
  shows "colon \<notin> set sch \<and> slash \<notin> set sch \<and>
     (\<forall>x. user = Some x \<longrightarrow> at_sign \<notin> set x \<and> slash \<notin> set x) \<and>
     host \<noteq> [] \<and> colon \<notin> set host \<and> slash \<notin> set host \<and> at_sign \<notin> set host \<and>
     (\<forall>ds. port = Some ds \<longrightarrow> slash \<notin> set ds \<and> at_sign \<notin> set ds) \<and>
     (path = [] \<longrightarrow> q = None) \<and> (path \<noteq> [] \<longrightarrow> hd path = slash) \<and> 0x3F \<notin> set path \<and>
     (\<forall>x f. q = Some (x, f) \<longrightarrow> 0x23 \<notin> set x \<and> (\<forall>y. f = Some y \<longrightarrow> 0 \<notin> set y))"
proof -
  have "slash \<notin> set ds" "at_sign \<notin> set ds" if "\<forall>c \<in> set ds. 0x30 \<le> c \<and> c \<le> (0x39 :: u8)" for ds
    using that by (auto simp: slash_def at_sign_def)
  then show ?thesis using assms by (auto simp: uri_ok_def plain_part_def)
qed

definition uri_tail_ok :: "uri_parts \<Rightarrow> uri_parts \<Rightarrow> bytes \<Rightarrow> u32 \<Rightarrow> bytes \<Rightarrow> (bytes \<times> bytes option) option \<Rightarrow> bool" where
  "uri_tail_ok r r' host port path q \<longleftrightarrow> up_scheme r' = up_scheme r \<and> up_user_info r' = up_user_info r \<and>
     ms_bytes (up_host r') = host \<and> up_port r' = port \<and> ms_bytes (up_path r') = path \<and>
     ms_bytes (up_query r') = (case q of None \<Rightarrow> [] | Some (x, f) \<Rightarrow> x) \<and>
     ms_bytes (up_fragment r') = (case q of Some (x, Some y) \<Rightarrow> y | _ \<Rightarrow> [])"

lemma differ: "colon \<noteq> slash" "at_sign \<noteq> slash" "at_sign \<noteq> colon" "slash \<noteq> colon"
  by (simp_all add: colon_def slash_def at_sign_def)

lemma fresh_tail: "ms_bytes (up_path r) = [] \<Longrightarrow> ms_bytes (up_query r) = [] \<Longrightarrow> ms_bytes (up_fragment r) = [] \<Longrightarrow>
    ms_bytes (up_host r') = host \<Longrightarrow> r' = r\<lparr>up_host := h, up_port := n\<rparr> \<Longrightarrow> uri_tail_ok r r' host n [] None"
  by (simp add: uri_tail_ok_def)

text \<open>From the host on, at \<open>p\<close>, or at the at-sign before it.\<close>

lemma uri_host:
  assumes ok: "uri_ok sch user host port path q"
    and d: "drop p mem = host @ port_text port @ path @ query_text q @ t"
    and fin: "fin = p + length (host @ port_text port @ path @ query_text q)"
    and at: "p0 = p \<or> p = p0 + 1 \<and> rd mem p0 = Some at_sign"
    and r: "ms_bytes (up_path r) = []" "ms_bytes (up_query r) = []" "ms_bytes (up_fragment r) = []" "up_port r = 0"
  shows "\<exists>r'. uri_loop mem u fin P_HOST p0 r = Some r' \<and>
    uri_tail_ok r r' host (case port of None \<Rightarrow> 0 | Some ds \<Rightarrow> port_value ds) path q"
proof -
  let ?h = "p + length host" and ?r1 = "r\<lparr>up_host := piece mem p (p + length host)\<rparr>"
  have h: "host \<noteq> []" "\<forall>c \<in> set host. c \<noteq> colon \<and> c \<noteq> slash" "at_sign \<notin> set host"
    using uri_okD [OF ok] by auto
  have hb: "ms_bytes (piece mem p ?h) = host" using piece_bytes [OF d] .
  have first: "rd mem p = Some (hd host)"
    using rd_ahead [of p mem "hd host" "tl host @ port_text port @ path @ query_text q @ t"] d h(1)
    by (cases host) simp_all
  have "hd host \<noteq> at_sign" using h(1,3) by (metis hd_in_set)
  then obtain c where c: "rd mem p0 = Some c" "(if c = at_sign then p0 + 1 else p0) = p" "p0 \<le> p"
    using at first by auto
  have lt0: "p0 < fin" using fin h(1) c(3) by (cases host) simp_all
  have dh: "drop ?h mem = port_text port @ path @ query_text q @ t" using drop_past [OF d refl] .
  have step: "uri_step mem u fin P_HOST p0 r = Some (st, ?h, ?r1)"
    if "skip_while (\<lambda>c. c \<noteq> colon \<and> c \<noteq> slash) mem p fin = Some ?h" "stop_state mem ?h fin P_PORT P_HOST = Some st" for st
    using that c by (simp add: uri_step_def Let_def)
  show ?thesis
  proof (cases port)
    case (Some ds)
    have dc: "drop p mem = host @ colon # ds @ path @ query_text q @ t" "drop ?h mem = colon # ds @ path @ query_text q @ t"
      using d dh Some by (simp_all add: port_text_def)
    have fin': "fin = ?h + 1 + length ds + length (path @ query_text q)" using fin Some by (simp add: port_text_def)
    have s1: "skip_while (\<lambda>c. c \<noteq> colon \<and> c \<noteq> slash) mem p fin = Some ?h"
      by (rule skip_ahead [OF dc(1) h(2)]) (use fin' in simp_all)
    have s2: "stop_state mem ?h fin P_PORT P_HOST = Some P_PORT"
      using rd_ahead [OF dc(2)] fin' by (simp add: stop_state_def)
    have l1: "uri_loop mem u fin P_HOST p0 r = uri_loop mem u fin P_PORT ?h ?r1"
      by (rule uri_loop_step [OF lt0 step [OF s1 s2]])
    let ?e = "?h + 1 + length ds" and ?r2 = "?r1\<lparr>up_port := port_value ds\<rparr>"
    have dd: "drop (?h + 1) mem = ds @ path @ query_text q @ t"
      using drop_past [of ?h mem "[colon]" "ds @ path @ query_text q @ t" 1] dc(2) by simp
    have de: "drop ?e mem = path @ query_text q @ t" using drop_past [OF dd refl] .
    have nds: "slash \<notin> set ds" using uri_okD [OF ok] Some by simp
    have np: "path = [] \<longrightarrow> q = None" "path \<noteq> [] \<longrightarrow> hd path = slash" using uri_okD [OF ok] by auto
    have "uri_port_loop mem (?h + 1) fin 0 = Some (?e, port_value ds)"
      unfolding port_value_def
      by (rule port_ahead [OF dd nds]) (use fin' np in \<open>auto simp: query_text_def hd_append\<close>)
    then have "uri_step mem u fin P_PORT ?h ?r1 = Some (if ?e < fin then P_REST else P_PORT, ?e, ?r2)"
      using r(4) by (simp add: uri_step_def)
    then have l2: "uri_loop mem u fin P_PORT ?h ?r1 = uri_loop mem u fin (if ?e < fin then P_REST else P_PORT) ?e ?r2"
      using uri_loop_step [of ?h fin] fin' by simp
    show ?thesis
    proof (cases "path = []")
      case True
      then have "fin = ?e" using fin' np by (simp add: query_text_def)
      then show ?thesis
        using l1 l2 hb r True np Some by (auto simp: uri_loop.simps uri_tail_ok_def)
    next
      case False
      then have "?e < fin" using fin' by simp
      moreover have "0x3F \<notin> set path" "\<forall>x f. q = Some (x, f) \<longrightarrow> 0x23 \<notin> set x \<and> (\<forall>y. f = Some y \<longrightarrow> 0 \<notin> set y)"
        using uri_okD [OF ok] by auto
      ultimately show ?thesis
        using uri_rest [OF de False, of fin u ?r2] fin' l1 l2 hb Some by (auto simp: uri_tail_ok_def)
    qed
  next
    case None
    have fin': "fin = ?h + length (path @ query_text q)" using fin None by (simp add: port_text_def)
    have de: "drop ?h mem = path @ query_text q @ t" using dh None by (simp add: port_text_def)
    have dp: "drop p mem = host @ path @ query_text q @ t" using d None by (simp add: port_text_def)
    have np: "path = [] \<longrightarrow> q = None" "path \<noteq> [] \<longrightarrow> hd path = slash" using uri_okD [OF ok] by auto
    have s1: "skip_while (\<lambda>c. c \<noteq> colon \<and> c \<noteq> slash) mem p fin = Some ?h"
      by (rule skip_ahead [OF dp h(2)]) (use fin' np in \<open>auto simp: query_text_def hd_append\<close>)
    show ?thesis
    proof (cases "path = []")
      case True
      then have f: "fin = ?h" using fin' np by (simp add: query_text_def)
      then have "stop_state mem ?h fin P_PORT P_HOST = Some P_HOST" by (simp add: stop_state_def)
      from uri_loop_step [OF lt0 step [OF s1 this]] show ?thesis
        using f hb r True np None by (auto simp: uri_loop.simps uri_tail_ok_def)
    next
      case False
      then have "rd mem ?h = Some slash"
        using rd_ahead [of ?h mem slash "tl path @ query_text q @ t"] de np by (cases path) simp_all
      then have "stop_state mem ?h fin P_PORT P_HOST = Some P_REST"
        using fin' False differ by (simp add: stop_state_def)
      from uri_loop_step [OF lt0 step [OF s1 this]]
      have l1: "uri_loop mem u fin P_HOST p0 r = uri_loop mem u fin P_REST ?h ?r1" .
      have "0x3F \<notin> set path" "\<forall>x f. q = Some (x, f) \<longrightarrow> 0x23 \<notin> set x \<and> (\<forall>y. f = Some y \<longrightarrow> 0 \<notin> set y)"
        using uri_okD [OF ok] by auto
      then show ?thesis
        using uri_rest [OF de False, of fin u ?r1] fin' l1 hb None r by (auto simp: uri_tail_ok_def)
    qed
  qed
qed

lemma strn_eq_ahead: "drop p mem = pat @ r \<Longrightarrow> c_strn_eq (drop p mem) pat = Some True"
  by (simp add: strn_eq_take)

lemma uri_scheme:
  assumes ok: "uri_ok sch user host port path q" and d: "drop p mem = uri_text sch user host port path q @ t"
    and fin: "fin = p + length (uri_text sch user host port path q)"
  shows "uri_loop mem p fin P_START p no_parts =
    uri_loop mem p fin P_USER_INFO (p + length sch + 2) (no_parts\<lparr>up_scheme := piece mem p (p + length sch)\<rparr>)"
proof -
  let ?q = "p + length sch" and ?r = "user_text user @ host @ port_text port @ path @ query_text q"
  have sep: "str ''://'' = [colon, slash, slash]" by (simp add: ch_def colon_def slash_def)
  have d1: "drop p mem = sch @ colon # [slash, slash] @ ?r @ t" using d by (simp add: uri_text_def sep del: str_Cons)
  have d2: "drop ?q mem = str ''://'' @ ?r @ t" using drop_past [OF d1 refl] by (simp add: sep del: str_Cons)
  have l: "fin = ?q + 3 + length ?r" using fin by (simp add: uri_text_def)
  have s: "\<forall>c \<in> set sch. c \<noteq> colon \<and> c \<noteq> slash" using uri_okD [OF ok] by auto
  have "skip_while (\<lambda>c. c \<noteq> colon \<and> c \<noteq> slash) mem p fin = Some ?q"
    by (rule skip_ahead [OF d1 s]) (use l in simp_all)
  moreover have "rd mem ?q = Some colon" using rd_ahead [of ?q mem colon "[slash, slash] @ ?r @ t"] d2 by (simp add: sep del: str_Cons)
  ultimately have "uri_step mem p fin P_START p no_parts = Some (P_SCHEME_OR_PORT, ?q, no_parts)"
    using l by (simp add: uri_step_def stop_state_def)
  moreover have "uri_step mem p fin P_SCHEME_OR_PORT ?q no_parts =
      Some (P_USER_INFO, ?q + 2, no_parts\<lparr>up_scheme := piece mem p ?q\<rparr>)"
    using l strn_eq_ahead [OF d2] by (simp add: uri_step_def)
  ultimately show ?thesis using uri_loop_step [of p fin] uri_loop_step [of ?q fin] l by simp
qed

lemma uri_user:
  assumes ok: "uri_ok sch user host port path q"
    and d: "drop (p + 1) mem = user_text user @ host @ port_text port @ path @ query_text q @ t"
    and fin: "fin = p + 1 + length (user_text user @ host @ port_text port @ path @ query_text q)"
  shows "\<exists>p0 ui. uri_loop mem u fin P_USER_INFO p r = uri_loop mem u fin P_HOST p0 (r\<lparr>up_user_info := ui\<rparr>) \<and>
    ms_bytes ui = (case user of None \<Rightarrow> [] | Some x \<Rightarrow> x) \<and>
    (p0 = p + 1 + length (user_text user) \<or>
     p + 1 + length (user_text user) = p0 + 1 \<and> rd mem p0 = Some at_sign)"
proof (cases user)
  case (Some x)
  let ?q = "p + 1 + length x" and ?r = "host @ port_text port @ path @ query_text q @ t"
  have d1: "drop (p + 1) mem = x @ at_sign # ?r" using d Some by (simp add: user_text_def)
  have s: "\<forall>c \<in> set x. c \<noteq> at_sign \<and> c \<noteq> slash" using uri_okD [OF ok] Some by auto
  have lt: "?q < fin" "p < fin" using fin Some by (simp_all add: user_text_def)
  have sk: "skip_while (\<lambda>c. c \<noteq> at_sign \<and> c \<noteq> slash) mem (p + 1) fin = Some ?q"
    by (rule skip_ahead [OF d1 s]) (use lt in simp_all)
  have at: "rd mem ?q = Some at_sign" using rd_ahead [OF drop_past [OF d1 refl]] .
  have "uri_step mem u fin P_USER_INFO p r = Some (P_HOST, ?q, r\<lparr>up_user_info := piece mem (p + 1) ?q\<rparr>)"
    using sk at lt differ by (simp add: uri_step_def)
  from uri_loop_step [OF lt(2) this] piece_bytes [OF d1] at Some show ?thesis
    by (intro exI [where x = ?q] exI [where x = "piece mem (p + 1) ?q"]) (simp add: user_text_def)
next
  case None
  let ?a = "host @ port_text port" and ?b = "path @ query_text q"
  let ?q = "p + 1 + length ?a"
  have d1: "drop (p + 1) mem = ?a @ ?b @ t" using d None by (simp add: user_text_def)
  have s: "\<forall>c \<in> set ?a. c \<noteq> at_sign \<and> c \<noteq> slash"
    using uri_okD [OF ok] differ by (auto simp: port_text_def split: option.splits)
  have f: "fin = ?q + length ?b" using fin None by (simp add: user_text_def)
  have np: "path = [] \<longrightarrow> q = None" "path \<noteq> [] \<longrightarrow> hd path = slash" using uri_okD [OF ok] by auto
  have sk: "skip_while (\<lambda>c. c \<noteq> at_sign \<and> c \<noteq> slash) mem (p + 1) fin = Some ?q"
    by (rule skip_ahead [OF d1 s]) (use f np in \<open>auto simp: query_text_def hd_append\<close>)
  have "?q < fin \<Longrightarrow> rd mem ?q = Some slash"
    using rd_ahead [of ?q mem slash "tl path @ query_text q @ t"] drop_past [OF d1 refl] f np
    by (cases path) (simp_all add: query_text_def)
  then have "uri_step mem u fin P_USER_INFO p r = Some (P_HOST, p + 1, r\<lparr>up_user_info := piece mem (p + 1) (p + 1)\<rparr>)"
    using sk by (simp add: uri_step_def Let_def)
  moreover have "p < fin" using f by simp
  ultimately show ?thesis
    using uri_loop_step [of p fin mem u P_USER_INFO r] None
    by (intro exI [where x = "p + 1"] exI [where x = "piece mem (p + 1) (p + 1)"]) (simp add: user_text_def)
qed

text \<open>A fragment without a query becomes part of the path, a query without a path part of the host, and a host in square brackets
  ends at its first colon.\<close>

lemma uri_loop_end: "\<not> p < fin \<Longrightarrow> uri_loop mem u fin st p r = Some r"
  by (simp add: uri_loop.simps)

lemmas uri_eval = mg_parse_uri_def mg_mk_str_def uri_loop_step uri_loop_end uri_step_def skip_while.simps stop_state_def
  parse_uri_component_def uri_port_loop.simps rd_def piece_def no_parts_def null_str_def ms_bytes_def bslice_def slash_def
  colon_def at_sign_def ch_def

lemma uri_hash_in_path:
  "map_option (\<lambda>r. (ms_bytes (up_path r), ms_bytes (up_fragment r))) (mg_parse_uri (mg_mk_str (str ''h/a#b''))) = Some (str ''/a#b'', [])"
  by (simp add: uri_eval)

lemma uri_query_in_host:
  "map_option (\<lambda>r. (ms_bytes (up_host r), ms_bytes (up_query r))) (mg_parse_uri (mg_mk_str (str ''h?x''))) = Some (str ''h?x'', [])"
  by (simp add: uri_eval)

lemma uri_bracket_host:
  "map_option (\<lambda>r. ms_bytes (up_host r)) (mg_parse_uri (mg_mk_str (str ''[::1]''))) = Some (str ''['')"
  by (simp add: uri_eval)



end
