(* ===== verification/Http.thy ===== *)
theory Http
  imports Websocket Uri
begin

text \<open>
  The HTTP parser of \<open>mongoose/src/http.c\<close>: finding the end of the head of a message, its first line,
  its headers, the length of its body and the lookup of a header.

  Pointers are indices into the memory they point into; \<open>None\<close> is an access outside it.  In this theory
  and those built on it string literals are kept folded.
\<close>

declare str_Cons [simp del]

lemma str_Nil_iff [simp]: "str s = [] \<longleftrightarrow> s = []"
  by (simp add: str_def)


section \<open>Messages\<close>

definition MG_MAX_HTTP_HEADERS :: nat where "MG_MAX_HTTP_HEADERS = 20"

record http_message =
  hm_message :: mg_str
  hm_method :: mg_str
  hm_uri :: mg_str
  hm_proto :: mg_str
  hm_resp_code :: int
  hm_resp_status_msg :: mg_str
  hm_query_string :: mg_str
  hm_header_names :: "mg_str list"
  hm_header_values :: "mg_str list"
  hm_body :: mg_str

text \<open>\<open>memset (hm, 0, sizeof( *hm))\<close>; a NULL string has no memory behind it.\<close>

definition zero_hm :: http_message where
  "zero_hm = \<lparr>hm_message = null_str, hm_method = null_str, hm_uri = null_str, hm_proto = null_str,
     hm_resp_code = 0, hm_resp_status_msg = null_str, hm_query_string = null_str,
     hm_header_names = replicate MG_MAX_HTTP_HEADERS null_str,
     hm_header_values = replicate MG_MAX_HTTP_HEADERS null_str, hm_body = null_str\<rparr>"

section \<open>Numbers\<close>

text \<open>\<open>strtoll (s, NULL, 10)\<close> on the memory from \<open>s\<close> on, which saturates, and \<open>atoi\<close>, which is its
  conversion to \<open>int\<close>.\<close>

fun strto_digits :: "bytes \<Rightarrow> int \<Rightarrow> int option" where
  "strto_digits [] n = None"
| "strto_digits (c # s) n = (if is_digit c then strto_digits s (n * 10 + (schar c - 48)) else Some n)"

definition c_strtoll :: "bytes \<Rightarrow> int option" where
  "c_strtoll s =
     (case dropWhile is_space s of
        [] \<Rightarrow> None
      | c # r \<Rightarrow>
          if c = ch (CHR ''-'') then map_option (\<lambda>n. max (- (2 ^ 63)) (- n)) (strto_digits r 0)
          else map_option (\<lambda>n. min (2 ^ 63 - 1) n) (strto_digits (if c = ch (CHR ''+'') then r else c # r) 0))"

definition c_atoi :: "bytes \<Rightarrow> int option" where
  "c_atoi s = map_option c_int (c_strtoll s)"

section \<open>Is the head of the message there?\<close>

definition is_print :: "u8 \<Rightarrow> bool" where
  "is_print c \<longleftrightarrow> 0x20 \<le> c \<and> c \<le> 0x7e"

text \<open>The loop of \<open>mg_http_get_request_len\<close> at index \<open>i\<close>.\<close>

function http_req_len_loop :: "bytes \<Rightarrow> nat \<Rightarrow> int \<Rightarrow> nat \<Rightarrow> int option" where
  "http_req_len_loop mem s buf_len i =
     (if int i < buf_len then do {
        c \<leftarrow> rd mem (s + i);
        if \<not> is_print c \<and> c \<noteq> 13 \<and> c \<noteq> 10 \<and> c < 128 then Some (-1)
        else do {
          c1 \<leftarrow> (if c = 10 \<and> int i + 1 < buf_len then rd mem (s + i + 1) else Some 0);
          if c = 10 \<and> int i + 1 < buf_len \<and> c1 = 10 then Some (int i + 2)
          else do {
            c2 \<leftarrow> (if c = 10 \<and> int i + 2 < buf_len \<and> c1 = 13 then rd mem (s + i + 2) else Some 0);
            if c = 10 \<and> int i + 2 < buf_len \<and> c1 = 13 \<and> c2 = 10 then Some (int i + 3)
            else http_req_len_loop mem s buf_len (i + 1) } } }
      else Some 0)"
  by pat_completeness auto
termination by (relation "measure (\<lambda>(mem, s, n, i). nat (n - int i))") auto

declare http_req_len_loop.simps [simp del]

definition mg_http_get_request_len :: "bytes \<Rightarrow> nat \<Rightarrow> int \<Rightarrow> int option" where
  "mg_http_get_request_len mem s buf_len = http_req_len_loop mem s buf_len 0"

section \<open>Headers\<close>

text \<open>The length of a header value without the spaces at its end.\<close>

fun http_trim :: "bytes \<Rightarrow> nat \<Rightarrow> nat \<Rightarrow> nat option" where
  "http_trim mem p 0 = Some 0"
| "http_trim mem p (Suc n) = do { c \<leftarrow> rd mem (p + n); if c = 0x20 then http_trim mem p n else Some (Suc n) }"

definition put_header :: "nat \<Rightarrow> mg_str \<Rightarrow> mg_str \<Rightarrow> http_message \<Rightarrow> http_message" where
  "put_header i k v hm = hm\<lparr>hm_header_names := (hm_header_names hm)[i := k],
                            hm_header_values := (hm_header_values hm)[i := v]\<rparr>"

definition content_length_name :: bytes where
  "content_length_name = str ''Content-Length''"

text \<open>One header at \<open>s\<close>: name, value and the position behind them.\<close>

definition http_header_at :: "bytes \<Rightarrow> nat \<Rightarrow> nat \<Rightarrow> (mg_str \<times> mg_str \<times> nat) option" where
  "http_header_at mem s fin = do {
     (k, s) \<leftarrow> mg_skip mem s fin (str '': '');
     (v, s) \<leftarrow> mg_skip mem s fin crlf;
     n \<leftarrow> http_trim mem (ms_p v) (ms_len v);
     Some (k, v\<lparr>ms_len := n\<rparr>, s) }"

definition http_note_length :: "bytes \<Rightarrow> nat \<Rightarrow> mg_str \<Rightarrow> mg_str \<Rightarrow> http_message \<Rightarrow> http_message option" where
  "http_note_length mem len k v hm = do {
     r \<leftarrow> mg_ncasecmp (drop (ms_p k) mem) (content_length_name @ [0]) 14;
     if r = 0 then do {
       n \<leftarrow> c_strtoll (drop (ms_p v) mem);
       let b = nat (n mod 2 ^ 64);
       Some (hm\<lparr>hm_body := (hm_body hm)\<lparr>ms_len := b\<rparr>,
                hm_message := (hm_message hm)\<lparr>ms_len := (len + b) mod 2 ^ 64\<rparr>\<rparr>) }
     else Some hm }"

lemma skip_while_end: "skip_while P mem s e = Some t \<Longrightarrow> s \<le> t \<and> t \<le> max s e"
proof (induction P mem s e rule: skip_while.induct)
  case (1 P mem s e)
  show ?case
  proof (cases "s < e")
    case True
    then obtain c where c: "rd mem s = Some c" using "1.prems" by (auto simp: skip_while.simps [of P mem s e] split: bind_splits)
    then show ?thesis using "1.prems" True "1.IH" [OF True c]
      by (auto simp: skip_while.simps [of P mem s e] split: if_splits)
  qed (use "1.prems" in \<open>simp add: skip_while.simps [of P mem s e]\<close>)
qed

lemma mg_skip_end:
  assumes "mg_skip mem s e d = Some (t, s')"
  shows "s \<le> s'" and "s' \<le> max s e" and "0 < ms_len t \<Longrightarrow> s < s' \<and> s < e"
    and "ms_p t = s" and "ms_mem t = mem" and "s + ms_len t \<le> s'"
proof -
  obtain s1 where s1: "skip_while (\<lambda>c. \<not> is_delim d c) mem s e = Some s1" "skip_while (is_delim d) mem s1 e = Some s'"
    and t: "t = \<lparr>ms_mem = mem, ms_p = s, ms_len = s1 - s\<rparr>"
    using assms by (auto simp: mg_skip_def split: bind_splits)
  show "s \<le> s'" "s' \<le> max s e" "0 < ms_len t \<Longrightarrow> s < s' \<and> s < e" "ms_p t = s" "ms_mem t = mem" "s + ms_len t \<le> s'"
    using skip_while_end [OF s1(1)] skip_while_end [OF s1(2)] by (auto simp: t)
qed

lemma http_header_at_end:
  assumes "http_header_at mem s e = Some (k, v, s')"
  shows "s \<le> s'" and "s' \<le> max s e" and "0 < ms_len k \<Longrightarrow> s < s' \<and> s < e"
proof -
  obtain s1 v' where 1: "mg_skip mem s e (str '': '') = Some (k, s1)" "mg_skip mem s1 e crlf = Some (v', s')"
    using assms by (auto simp: http_header_at_def split: bind_splits)
  show "s \<le> s'" "s' \<le> max s e" "0 < ms_len k \<Longrightarrow> s < s' \<and> s < e"
    using mg_skip_end(1-3) [OF 1(1)] mg_skip_end(1,2) [OF 1(2)] by auto
qed

text \<open>The loop of \<open>mg_http_parse_headers\<close> with slot \<open>i\<close>: a header with an empty value is written to the
  slot but the slot is used again.\<close>

function http_headers_loop ::
  "bytes \<Rightarrow> nat \<Rightarrow> nat \<Rightarrow> nat \<Rightarrow> nat \<Rightarrow> http_message \<Rightarrow> (nat \<times> http_message) option"
where
  "http_headers_loop mem s fin len i hm =
     (if i < MG_MAX_HTTP_HEADERS - 1 then
        (case http_header_at mem s fin of
           None \<Rightarrow> None
         | Some (k, v, s') \<Rightarrow>
             if ms_len k \<noteq> 0 \<and> ms_len v = 0 then http_headers_loop mem s' fin len i (put_header i k v hm)
             else if ms_len k = 0 \<or> ms_len v = 0 then Some (s', put_header i null_str null_str hm)
             else
               (case http_note_length mem len k v (put_header i k v hm) of
                  None \<Rightarrow> None
                | Some hm' \<Rightarrow> http_headers_loop mem s' fin len (i + 1) hm'))
      else Some (s, hm))"
  by pat_completeness auto
termination
  by (relation "measure (\<lambda>(mem, s, fin, len, i, hm). fin - s)")
    (auto dest!: http_header_at_end(3))

declare http_headers_loop.simps [simp del]

definition mg_http_parse_headers ::
  "bytes \<Rightarrow> nat \<Rightarrow> nat \<Rightarrow> nat \<Rightarrow> http_message \<Rightarrow> (nat \<times> http_message) option"
where
  "mg_http_parse_headers mem s fin len req = http_headers_loop mem s fin len 0 req"

section \<open>The parser\<close>

definition http_request_line :: "bytes \<Rightarrow> nat \<Rightarrow> nat \<Rightarrow> http_message \<Rightarrow> (nat \<times> http_message) option option" where
  "http_request_line mem s fin hm = do {
     (method, s) \<leftarrow> mg_skip mem s fin (str '' '');
     (uri, s) \<leftarrow> mg_skip mem s fin (str '' '');
     (proto, s) \<leftarrow> mg_skip mem s fin crlf;
     if ms_p uri \<le> ms_p method \<or> ms_p proto \<le> ms_p uri then Some None
     else
       let hm = hm\<lparr>hm_method := method, hm_uri := uri, hm_proto := proto\<rparr> in
       (case c_memchr 0x3F (ms_bytes uri) of
          None \<Rightarrow> Some (Some (s, hm))
        | Some k \<Rightarrow> Some (Some (s, hm\<lparr>hm_query_string := uri\<lparr>ms_p := ms_p uri + k + 1, ms_len := ms_len uri - (k + 1)\<rparr>,
                                      hm_uri := uri\<lparr>ms_len := k\<rparr>\<rparr>))) }"

definition http_status_line :: "bytes \<Rightarrow> nat \<Rightarrow> nat \<Rightarrow> http_message \<Rightarrow> (nat \<times> http_message) option option" where
  "http_status_line mem s fin hm = do {
     (proto, s) \<leftarrow> mg_skip mem s fin (str '' '');
     if fin - s < 4 then Some None
     else do {
       c \<leftarrow> rd mem (s + 3);
       if c \<noteq> 0x20 then Some None
       else do {
         code \<leftarrow> c_atoi (drop s mem);
         if code < 100 \<or> code \<ge> 600 then Some None
         else do {
           (msg, s) \<leftarrow> mg_skip mem (s + 4) fin crlf;
           Some (Some (s, hm\<lparr>hm_proto := proto, hm_resp_code := code, hm_resp_status_msg := msg\<rparr>)) } } } }"

text \<open>The end of \<open>mg_parse_http\<close>: a request without a length has no body unless it is a PUT or a POST.\<close>

definition http_no_body :: "int \<Rightarrow> bool \<Rightarrow> http_message \<Rightarrow> http_message option" where
  "http_no_body len is_req hm =
     (if ms_len (hm_body hm) = SIZE_MAX \<and> is_req then do {
        put \<leftarrow> mg_vcasecmp (hm_method hm) (str ''PUT'');
        post \<leftarrow> (if put \<noteq> 0 then mg_vcasecmp (hm_method hm) (str ''POST'') else Some 0);
        Some (if put \<noteq> 0 \<and> post \<noteq> 0
              then hm\<lparr>hm_body := (hm_body hm)\<lparr>ms_len := 0\<rparr>, hm_message := (hm_message hm)\<lparr>ms_len := nat len\<rparr>\<rparr>
              else hm) }
      else Some hm)"

definition http_start :: "bytes \<Rightarrow> nat \<Rightarrow> nat \<Rightarrow> http_message" where
  "http_start mem s fin = zero_hm\<lparr>hm_message := \<lparr>ms_mem = mem, ms_p = s, ms_len = SIZE_MAX\<rparr>,
                                 hm_body := \<lparr>ms_mem = mem, ms_p = fin, ms_len = SIZE_MAX\<rparr>\<rparr>"

text \<open>
  \<open>mg_parse_http\<close> on \<open>n\<close> bytes at \<open>s\<close>: the length of the head and the message, for which callers look
  only when the length is positive.
\<close>

definition mg_parse_http :: "bytes \<Rightarrow> nat \<Rightarrow> int \<Rightarrow> bool \<Rightarrow> (int \<times> http_message) option" where
  "mg_parse_http mem s n is_req = do {
     len \<leftarrow> mg_http_get_request_len mem s n;
     if len \<le> 0 then Some (len, zero_hm)
     else do {
       let fin = s + nat len;
       let hm = http_start mem s fin;
       s \<leftarrow> skip_while is_space mem s fin;
       line \<leftarrow> (if is_req then http_request_line mem s fin hm else http_status_line mem s fin hm);
       (case line of
          None \<Rightarrow> Some (-1, hm)
        | Some (s, hm) \<Rightarrow> do {
            (s, hm) \<leftarrow> mg_http_parse_headers mem s fin (nat len) hm;
            hm \<leftarrow> http_no_body len is_req hm;
            Some (len, hm) }) } }"

text \<open>The value of the header \<open>name\<close>.  A slot whose name has a length has a pointer, too.\<close>

function http_find_header :: "http_message \<Rightarrow> bytes \<Rightarrow> nat \<Rightarrow> mg_str option option" where
  "http_find_header hm name i =
     (if i < length (hm_header_names hm) \<and> i < length (hm_header_values hm) then
        (let h = hm_header_names hm ! i; v = hm_header_values hm ! i in
         if ms_len h > 0 then do {
           r \<leftarrow> (if ms_len h = length name
                 then mg_ncasecmp (drop (ms_p h) (ms_mem h)) (name @ [0]) (length name) else Some 1);
           if r = 0 then Some (Some v) else http_find_header hm name (i + 1) }
         else Some None)
      else None)"
  by pat_completeness auto
termination by (relation "measure (\<lambda>(hm, name, i). length (hm_header_names hm) - i)") auto

declare http_find_header.simps [simp del]

definition mg_get_http_header :: "http_message \<Rightarrow> bytes \<Rightarrow> mg_str option option" where
  "mg_get_http_header hm name = http_find_header hm name 0"

section \<open>The parser stays inside the message\<close>

text \<open>What the length check has seen of a head of length \<open>r\<close>: characters it accepts and a newline last.\<close>

definition head_char :: "u8 \<Rightarrow> bool" where
  "head_char c \<longleftrightarrow> is_print c \<or> c = 13 \<or> c = 10 \<or> 128 \<le> c"

definition http_head :: "bytes \<Rightarrow> bool" where
  "http_head h \<longleftrightarrow> h \<noteq> [] \<and> last h = 10 \<and> (\<forall>c \<in> set h. head_char c)"

lemma head_char_cases: "\<not> (\<not> is_print c \<and> c \<noteq> 13 \<and> c \<noteq> 10 \<and> c < 128) \<Longrightarrow> head_char c"
  by (auto simp: head_char_def)

lemma http_headI:
  assumes "\<forall>j < k. \<exists>c. rd mem (s + j) = Some c \<and> head_char c" and "rd mem (s + (k - 1)) = Some 10" and "0 < k"
  shows "http_head (bslice mem s k)"
proof -
  have l: "s + (k - 1) < length mem" using assms(2) by (simp add: rd_Some_iff)
  then have len: "length (bslice mem s k) = k" using assms(3) by (simp add: bslice_def)
  have nth: "bslice mem s k ! j = mem ! (s + j)" if "j < k" for j
    using that l by (simp add: bslice_def)
  have "last (bslice mem s k) = 10"
    using assms(2,3) len nth [of "k - 1"] by (subst last_conv_nth) (auto simp: rd_Some_iff)
  moreover have "\<forall>c \<in> set (bslice mem s k). head_char c"
    using assms(1) nth len by (auto simp: in_set_conv_nth rd_Some_iff)
  ultimately show ?thesis using len assms(3) by (auto simp: http_head_def)
qed

lemma http_req_len_loop_head:
  assumes "s + n \<le> length mem" and "\<forall>j < i. \<exists>c. rd mem (s + j) = Some c \<and> head_char c"
  shows "\<exists>r. http_req_len_loop mem s (int n) i = Some r \<and> r \<le> int n \<and> (0 < r \<longrightarrow> http_head (bslice mem s (nat r)))"
  using assms
proof (induction "n - i" arbitrary: i)
  case 0
  then show ?case by (simp add: http_req_len_loop.simps)
next
  case (Suc d)
  then have i: "i < n" by simp
  obtain c where c: "rd mem (s + i) = Some c" using i Suc.prems(1) by (simp add: rd_in)
  show ?case
  proof (cases "head_char c")
    case False
    then have "http_req_len_loop mem s (int n) i = Some (-1)"
      using c i by (subst http_req_len_loop.simps) (auto simp: head_char_def not_le)
    then show ?thesis by simp
  next
    case True
    then have ok: "\<not> (\<not> is_print c \<and> c \<noteq> 13 \<and> c \<noteq> 10 \<and> c < 128)" by (auto simp: head_char_def)
    have upto: "\<forall>j < Suc i. \<exists>c. rd mem (s + j) = Some c \<and> head_char c"
      using Suc.prems(2) c True by (auto simp: less_Suc_eq)
    have d: "d = n - (i + 1)" using Suc.hyps(2) by simp
    obtain r where r: "http_req_len_loop mem s (int n) (i + 1) = Some r" "r \<le> int n"
      "0 < r \<longrightarrow> http_head (bslice mem s (nat r))"
      using Suc.hyps(1) [of "i + 1"] Suc.prems(1) upto d by auto
    have hc: "head_char 10" "head_char 13" by (simp_all add: head_char_def)
    consider (two) "i + 1 < n" "c = 10" "rd mem (s + i + 1) = Some 10"
      | (three) "i + 2 < n" "c = 10" "rd mem (s + i + 1) = Some 13" "rd mem (s + i + 2) = Some 10"
      | (on) "\<not> (i + 1 < n \<and> c = 10 \<and> rd mem (s + i + 1) = Some 10)"
          "\<not> (i + 2 < n \<and> c = 10 \<and> rd mem (s + i + 1) = Some 13 \<and> rd mem (s + i + 2) = Some 10)"
      by blast
    then show ?thesis
    proof cases
      case two
      then have "http_req_len_loop mem s (int n) i = Some (int i + 2)"
        using c i ok by (subst http_req_len_loop.simps) simp
      moreover have "http_head (bslice mem s (i + 2))"
      proof (rule http_headI)
        have "\<exists>c. rd mem (s + j) = Some c \<and> head_char c" if "j < i + 2" for j
        proof (cases "j < Suc i")
          case False
          with that have "j = i + 1" by simp
          with two(3) hc show ?thesis by (simp add: add.assoc)
        qed (use upto in blast)
        then show "\<forall>j < i + 2. \<exists>c. rd mem (s + j) = Some c \<and> head_char c" by blast
      qed (use two(3) in \<open>simp_all add: add.assoc\<close>)
      ultimately show ?thesis using two(1) by (simp add: nat_add_distrib)
    next
      case three
      then have "http_req_len_loop mem s (int n) i = Some (int i + 3)"
        using c i ok by (subst http_req_len_loop.simps) simp
      moreover have "http_head (bslice mem s (i + 3))"
      proof (rule http_headI)
        have "\<exists>c. rd mem (s + j) = Some c \<and> head_char c" if "j < i + 3" for j
        proof (cases "j < Suc i")
          case False
          with that have "j = i + 1 \<or> j = i + 2" by linarith
          with three(3,4) hc show ?thesis by (auto simp: add.assoc)
        qed (use upto in blast)
        then show "\<forall>j < i + 3. \<exists>c. rd mem (s + j) = Some c \<and> head_char c" by blast
      qed (use three(4) in \<open>simp_all add: add.assoc\<close>)
      ultimately show ?thesis using three(1) by (simp add: nat_add_distrib)
    next
      case on
      let ?c1 = "mem ! (s + i + 1)" and ?c2 = "mem ! (s + i + 2)"
      have r1: "rd mem (s + i + 1) = Some ?c1" if "i + 1 < n" using that Suc.prems(1) by (intro rd_in) simp
      have r2: "rd mem (s + i + 2) = Some ?c2" if "i + 2 < n" using that Suc.prems(1) by (intro rd_in) simp
      have n1: "\<not> (i + 1 < n \<and> c = 10 \<and> ?c1 = 10)" using on(1) r1 by auto
      have n2: "\<not> (i + 2 < n \<and> c = 10 \<and> ?c1 = 13 \<and> ?c2 = 10)"
      proof
        assume x: "i + 2 < n \<and> c = 10 \<and> ?c1 = 13 \<and> ?c2 = 10"
        then have "i + 1 < n" by linarith
        with x r1 r2 on(2) show False by simp
      qed
      have r1': "rd mem (Suc (s + i)) = Some (mem ! Suc (s + i))" if "Suc i < n" using r1 that by simp
      have r2': "rd mem (Suc (Suc (s + i))) = Some (mem ! Suc (Suc (s + i)))" if "Suc (Suc i) < n" using r2 that by simp
      have i1: "(int i + 1 < int n) = (Suc i < n)" "(int i + 2 < int n) = (Suc (Suc i) < n)" by linarith+
      have "http_req_len_loop mem s (int n) i = http_req_len_loop mem s (int n) (i + 1)"
      proof (cases "c = 10")
        case False
        then show ?thesis using c i ok by (subst http_req_len_loop.simps) auto
      next
        case True
        show ?thesis
        proof (cases "Suc i < n")
          case s1: True
          show ?thesis
          proof (cases "Suc (Suc i) < n")
            case s2: True
            show ?thesis using c i ok True s1 s2 n1 n2 r1' r2' i1 by (subst http_req_len_loop.simps) simp
          next
            case False
            show ?thesis using c i ok True s1 False n1 r1' i1 by (subst http_req_len_loop.simps) simp
          qed
        next
          case False
          then have "\<not> Suc (Suc i) < n" by simp
          then show ?thesis using c i ok True False i1 by (subst http_req_len_loop.simps) simp
        qed
      qed
      with r show ?thesis by simp
    qed
  qed
qed

lemma mg_http_get_request_len_head:
  assumes "s + n \<le> length mem"
  obtains r where "mg_http_get_request_len mem s (int n) = Some r" and "r \<le> int n"
    and "0 < r \<Longrightarrow> http_head (bslice mem s (nat r))"
  using http_req_len_loop_head [OF assms, of 0] that by (auto simp: mg_http_get_request_len_def)

lemma mg_ncasecmp_length:
  "n \<le> length xs \<Longrightarrow> n \<le> length ys \<Longrightarrow> \<exists>r. mg_ncasecmp xs ys n = Some r"
  by (induction xs ys n rule: mg_ncasecmp.induct) (auto simp: Let_def)

text \<open>A byte that does not occur in the second string ends the comparison.\<close>

lemma mg_ncasecmp_stops:
  assumes "n \<le> length ys" and "c \<in> set xs" and "\<forall>y \<in> set ys. tolower y \<noteq> tolower c"
  shows "\<exists>r. mg_ncasecmp xs ys n = Some r"
  using assms
  by (induction xs ys n rule: mg_ncasecmp.induct) (auto simp: Let_def dest!: word_uint_eqI)

lemma strto_digits_stops: "c \<in> set xs \<Longrightarrow> \<not> is_digit c \<Longrightarrow> \<exists>n. strto_digits xs k = Some n"
  by (induction xs arbitrary: k) auto

text \<open>The number ends where something that is neither a space nor a digit stands, after a character that
  is not a space or in place of it.\<close>

lemma c_strtoll_stops:
  assumes "\<not> is_space x" and "d \<in> set b \<and> \<not> is_digit d \<or> \<not> is_digit x \<and> x \<noteq> ch (CHR ''-'') \<and> x \<noteq> ch (CHR ''+'')"
  shows "\<exists>n. c_strtoll (a @ x # b) = Some n"
proof -
  obtain y r where y: "dropWhile is_space (a @ x # b) = y # r" and r: "y = x \<and> r = b \<or> x # b = drop (length r - length b - 1) r"
  proof (cases "\<forall>c \<in> set a. is_space c")
    case True
    then have "dropWhile is_space (a @ x # b) = x # b" using assms(1) by simp
    then show ?thesis using that by simp
  next
    case False
    then obtain y q where "dropWhile is_space a = y # q" by (metis dropWhile_eq_Nil_conv neq_Nil_conv)
    moreover have "dropWhile is_space (a @ x # b) = dropWhile is_space a @ x # b" using False by (auto simp: dropWhile_append1)
    ultimately show ?thesis using that [of y "q @ x # b"] by simp
  qed
  have sub: "r = b \<and> y = x \<or> x \<in> set r \<and> set b \<subseteq> set r"
    using r by (metis in_set_dropD list.set_intros(1,2) subsetI)
  show ?thesis
  proof (cases "y = x \<and> r = b \<and> \<not> (d \<in> set b \<and> \<not> is_digit d)")
    case True
    then show ?thesis using y assms(2) by (auto simp: c_strtoll_def)
  next
    case False
    then obtain d' where d': "d' \<in> set r" "\<not> is_digit d'" using sub assms(2) by blast
    then show ?thesis
      using y strto_digits_stops [of d' r] strto_digits_stops [of d' "y # r"]
      by (auto simp: c_strtoll_def simp del: strto_digits.simps)
  qed
qed

lemma http_trim_bounds:
  assumes "p + n \<le> length mem"
  shows "\<exists>k. http_trim mem p n = Some k \<and> k \<le> n \<and> (0 < k \<longrightarrow> mem ! (p + k - 1) \<noteq> 0x20)"
  using assms by (induction n) (auto simp: rd_in le_Suc_eq)


lemma skip_while_holds:
  "skip_while P mem s e = Some t \<Longrightarrow> s \<le> j \<Longrightarrow> j < t \<Longrightarrow> P (mem ! j)"
proof (induction P mem s e rule: skip_while.induct)
  case (1 P mem s e)
  show ?case
  proof (cases "s < e")
    case True
    then obtain c where c: "rd mem s = Some c" using "1.prems" by (auto simp: skip_while.simps [of P mem s e] split: bind_splits)
    then have "c = mem ! s" by (simp add: rd_Some_iff)
    moreover have "skip_while P mem s e = (if P c then skip_while P mem (s + 1) e else Some s)"
      using True c by (simp add: skip_while.simps [of P mem s e])
    ultimately show ?thesis using "1.prems" "1.IH" [OF True c] by (cases "s = j"; cases "P c") simp_all
  qed (use "1.prems" in \<open>simp add: skip_while.simps [of P mem s e]\<close>)
qed

lemma mg_skip_token:
  assumes "mg_skip mem s e d = Some (t, s')" and "j < ms_len t"
  shows "\<not> is_delim d (mem ! (s + j))"
proof -
  obtain s1 where "skip_while (\<lambda>c. \<not> is_delim d c) mem s e = Some s1" "t = \<lparr>ms_mem = mem, ms_p = s, ms_len = s1 - s\<rparr>"
    using assms(1) by (auto simp: mg_skip_def split: bind_splits)
  then show ?thesis using skip_while_holds [of "\<lambda>c. \<not> is_delim d c" mem s e s1 "s + j"] assms(2) by simp
qed

lemma mg_skip_total:
  assumes "s \<le> e" and "e \<le> length mem"
  shows "\<exists>t s'. mg_skip mem s e d = Some (t, s')"
  using mg_skip_spec [OF assms, of d] by (auto simp: Let_def)

text \<open>A string inside a part of the memory, or NULL.\<close>

definition str_inside :: "bytes \<Rightarrow> nat \<Rightarrow> nat \<Rightarrow> mg_str \<Rightarrow> bool" where
  "str_inside mem lo hi x \<longleftrightarrow> x = null_str \<or> ms_mem x = mem \<and> lo \<le> ms_p x \<and> ms_p x + ms_len x \<le> hi"

lemma str_inside_null [simp]: "str_inside mem lo hi null_str"
  by (simp add: str_inside_def)

lemma mg_skip_inside:
  assumes "s \<le> e" and "e \<le> length mem" and "lo \<le> s"
  obtains t s' where "mg_skip mem s e d = Some (t, s')" and "ms_mem t = mem" and "ms_p t = s" and "s + ms_len t \<le> s'"
    and "s' \<le> e" and "str_inside mem lo e t"
proof -
  obtain t s' where t: "mg_skip mem s e d = Some (t, s')" using mg_skip_total [OF assms(1,2)] by blast
  then show ?thesis using mg_skip_end [OF t] assms that [of t s'] by (auto simp: str_inside_def)
qed

text \<open>The situation in which the headers are parsed: a head between \<open>lo\<close> and \<open>hi\<close>.\<close>

definition in_head :: "bytes \<Rightarrow> nat \<Rightarrow> nat \<Rightarrow> bool" where
  "in_head mem lo hi \<longleftrightarrow> lo < hi \<and> hi \<le> length mem \<and> mem ! (hi - 1) = 10 \<and> (\<forall>j. lo \<le> j \<and> j < hi \<longrightarrow> head_char (mem ! j))"

lemma in_headI:
  assumes "http_head (bslice mem s r)" and "s + r \<le> length mem"
  shows "in_head mem s (s + r)"
proof -
  have l: "length (bslice mem s r) = r" using assms(2) by (simp add: bslice_def)
  have nth: "bslice mem s r ! j = mem ! (s + j)" if "j < r" for j using that assms(2) by (simp add: bslice_def)
  have r: "0 < r" using assms(1) l by (cases "r = 0") (auto simp: http_head_def)
  have "mem ! (s + (r - 1)) = 10" using assms(1) l r nth [of "r - 1"] last_conv_nth [of "bslice mem s r"] by (simp add: http_head_def)
  moreover have "head_char (mem ! j)" if "s \<le> j" "j < s + r" for j
  proof -
    have "bslice mem s r ! (j - s) \<in> set (bslice mem s r)" using that l by (intro nth_mem) simp
    then show ?thesis using assms(1) nth [of "j - s"] that by (auto simp: http_head_def)
  qed
  ultimately show ?thesis using r assms(2) by (simp add: in_head_def)
qed

lemma http_header_at_inside:
  assumes "in_head mem lo hi" and "lo \<le> s" and "s \<le> hi"
  obtains k v s' where "http_header_at mem s hi = Some (k, v, s')" and "str_inside mem lo hi k" and "str_inside mem lo hi v"
    and "s \<le> s'" and "s' \<le> hi" and "ms_mem k = mem" and "ms_mem v = mem" and "ms_p k = s" and "lo \<le> ms_p v"
    and "ms_p v + ms_len v \<le> hi"
    and "0 < ms_len v \<Longrightarrow> \<not> is_space (mem ! (ms_p v + ms_len v - 1)) \<and> ms_p v + ms_len v < hi"
proof -
  have l: "hi \<le> length mem" using assms(1) by (simp add: in_head_def)
  obtain k s1 where k: "mg_skip mem s hi (str '': '') = Some (k, s1)" "ms_mem k = mem" "ms_p k = s" "s + ms_len k \<le> s1"
    "s1 \<le> hi" "str_inside mem lo hi k" using mg_skip_inside [OF assms(3) l assms(2)] by metis
  have s1: "lo \<le> s1" using k(4) assms(2) by simp
  obtain v s2 where v: "mg_skip mem s1 hi crlf = Some (v, s2)" "ms_mem v = mem" "ms_p v = s1" "s1 + ms_len v \<le> s2"
    "s2 \<le> hi" "str_inside mem lo hi v" using mg_skip_inside [OF k(5) l s1] by metis
  obtain n where n: "http_trim mem s1 (ms_len v) = Some n" "n \<le> ms_len v" "0 < n \<Longrightarrow> mem ! (s1 + n - 1) \<noteq> 0x20"
    using http_trim_bounds [of s1 "ms_len v" mem] v(4,5) l by auto
  have nsp: "\<not> is_space (mem ! (s1 + n - 1)) \<and> s1 + n < hi" if "0 < n"
  proof -
    have "\<not> is_delim crlf (mem ! (s1 + (n - 1)))" using mg_skip_token [OF v(1), of "n - 1"] n(2) that by simp
    then have c: "mem ! (s1 + n - 1) \<noteq> 13" "mem ! (s1 + n - 1) \<noteq> 10" using that by (auto simp: is_delim_def crlf_def)
    have "s1 + n - 1 < hi" "lo \<le> s1 + n - 1" using that n(2) v(4,5) s1 by simp_all
    then have "head_char (mem ! (s1 + n - 1))" using assms(1) by (simp add: in_head_def)
    moreover have "s1 + n - 1 \<noteq> hi - 1" using c(2) assms(1) by (auto simp: in_head_def)
    ultimately show ?thesis using c n(3) [OF that] that \<open>s1 + n - 1 < hi\<close>
      by (auto simp: head_char_def is_space_def is_print_def word_le_nat_alt word_eq_iff_unsigned)
  qed
  show ?thesis
  proof (rule that)
    show "http_header_at mem s hi = Some (k, v\<lparr>ms_len := n\<rparr>, s2)"
      using k(1) v(1,2,3) n(1) by (simp add: http_header_at_def)
  qed (use k v n nsp assms s1 in \<open>auto simp: str_inside_def\<close>)
qed

text \<open>All strings of the header slots lie in the head; the slots behind \<open>i\<close> are unused.\<close>

definition slots_ok :: "bytes \<Rightarrow> nat \<Rightarrow> nat \<Rightarrow> nat \<Rightarrow> http_message \<Rightarrow> bool" where
  "slots_ok mem lo hi i hm \<longleftrightarrow>
     length (hm_header_names hm) = MG_MAX_HTTP_HEADERS \<and> length (hm_header_values hm) = MG_MAX_HTTP_HEADERS \<and>
     (\<forall>x \<in> set (hm_header_names hm) \<union> set (hm_header_values hm). str_inside mem lo hi x) \<and>
     (\<forall>j. i < j \<and> j < MG_MAX_HTTP_HEADERS \<longrightarrow> hm_header_names hm ! j = null_str)"

definition ends_in_slots :: "http_message \<Rightarrow> bool" where
  "ends_in_slots hm \<longleftrightarrow> (\<exists>j < MG_MAX_HTTP_HEADERS. ms_len (hm_header_names hm ! j) = 0)"

lemma slots_ok_put:
  assumes "slots_ok mem lo hi i hm" and "str_inside mem lo hi k" and "str_inside mem lo hi v"
  shows "slots_ok mem lo hi i (put_header i k v hm)"
  using assms by (auto simp: slots_ok_def put_header_def nth_list_update dest!: subsetD [OF set_update_subset_insert])

lemma http_note_length_slots:
  assumes "http_note_length mem len k v hm = Some hm'"
  shows "hm_header_names hm' = hm_header_names hm" and "hm_header_values hm' = hm_header_values hm"
  using assms by (auto simp: http_note_length_def Let_def split: bind_splits if_splits)

text \<open>The other fields are not touched.\<close>

definition hm_line :: "http_message \<Rightarrow> mg_str \<times> mg_str \<times> mg_str \<times> int \<times> mg_str \<times> mg_str \<times> nat \<times> bytes \<times> nat \<times> bytes" where
  "hm_line hm = (hm_method hm, hm_uri hm, hm_proto hm, hm_resp_code hm, hm_resp_status_msg hm, hm_query_string hm,
     ms_p (hm_body hm), ms_mem (hm_body hm), ms_p (hm_message hm), ms_mem (hm_message hm))"

lemma hm_line_put [simp]: "hm_line (put_header i k v hm) = hm_line hm"
  by (simp add: hm_line_def put_header_def)

lemma http_note_length_line: "http_note_length mem len k v hm = Some hm' \<Longrightarrow> hm_line hm' = hm_line hm"
  by (auto simp: http_note_length_def Let_def hm_line_def split: bind_splits if_splits)

lemma http_note_length_total:
  assumes "in_head mem lo hi" and "ms_p k < hi" and "lo \<le> ms_p v" and "0 < ms_len v"
    and "\<not> is_space (mem ! (ms_p v + ms_len v - 1))" and "ms_p v + ms_len v < hi"
  shows "\<exists>hm'. http_note_length mem len k v hm = Some hm'"
proof -
  have hi: "hi \<le> length mem" "mem ! (hi - 1) = 10" using assms(1) by (auto simp: in_head_def)
  have nl: "\<exists>b. drop p mem = take (hi - 1 - p) (drop p mem) @ 10 # b" if "p < hi" for p
  proof -
    have "drop (hi - 1 - p) (drop p mem) = drop (hi - 1) mem" using that by simp
    also have "\<dots> = mem ! (hi - 1) # drop hi mem"
      using Cons_nth_drop_Suc [of "hi - 1" mem] that hi(1) by simp
    finally have "drop (hi - 1 - p) (drop p mem) = 10 # drop hi mem" using hi(2) by simp
    then show ?thesis by (metis append_take_drop_id)
  qed
  have "10 \<in> set (drop (ms_p k) mem)" using nl [OF assms(2)] by (metis in_set_conv_decomp)
  then obtain r where r: "mg_ncasecmp (drop (ms_p k) mem) (content_length_name @ [0]) 14 = Some r"
    using mg_ncasecmp_stops [of 14 "content_length_name @ [0]" 10]
    by (auto simp: content_length_name_def str_def ch_def tolower_def)
  let ?q = "ms_p v + ms_len v - 1"
  have "drop (ms_p v) mem = bslice mem (ms_p v) (ms_len v - 1) @ mem ! ?q # drop (ms_p v + ms_len v) mem"
  proof -
    have "drop (ms_p v) mem = bslice mem (ms_p v) (ms_len v - 1) @ drop ?q mem"
      using append_take_drop_id [of "ms_len v - 1" "drop (ms_p v) mem"] assms(4) by (simp add: bslice_def add.commute)
    moreover have "drop ?q mem = mem ! ?q # drop (ms_p v + ms_len v) mem"
      using assms(4,6) hi(1) by (simp add: Cons_nth_drop_Suc [symmetric])
    ultimately show ?thesis by simp
  qed
  moreover have "10 \<in> set (drop (ms_p v + ms_len v) mem)" using nl [OF assms(6)] by (metis in_set_conv_decomp)
  ultimately obtain n where "c_strtoll (drop (ms_p v) mem) = Some n"
    using c_strtoll_stops [OF assms(5), of 10 "drop (ms_p v + ms_len v) mem"] by (auto simp: is_digit_def ch_def)
  with r show ?thesis by (simp add: http_note_length_def Let_def)
qed

lemma http_headers_loop_safe:
  assumes "in_head mem lo hi" and "lo \<le> s" and "s \<le> hi" and "slots_ok mem lo hi i hm"
    and "i < MG_MAX_HTTP_HEADERS - 1 \<or> i = MG_MAX_HTTP_HEADERS - 1 \<and> ms_len (hm_header_names hm ! i) = 0"
  shows "\<exists>s' hm'. http_headers_loop mem s hi len i hm = Some (s', hm') \<and> slots_ok mem lo hi MG_MAX_HTTP_HEADERS hm' \<and>
    ends_in_slots hm' \<and> hm_line hm' = hm_line hm"
  using assms
proof (induction mem s hi len i hm rule: http_headers_loop.induct)
  case (1 mem s hi len i hm)
  have weak: "slots_ok mem lo hi i h \<Longrightarrow> slots_ok mem lo hi j h" if "i \<le> j" for j h
    using that by (auto simp: slots_ok_def)
  show ?case
  proof (cases "i < MG_MAX_HTTP_HEADERS - 1")
    case False
    then have i: "i = MG_MAX_HTTP_HEADERS - 1" "ms_len (hm_header_names hm ! i) = 0" using "1.prems"(5) by auto
    then have "ends_in_slots hm" unfolding ends_in_slots_def MG_MAX_HTTP_HEADERS_def by (intro exI [of _ i]) simp
    moreover have "slots_ok mem lo hi MG_MAX_HTTP_HEADERS hm" using weak [OF _ "1.prems"(4), of MG_MAX_HTTP_HEADERS] i by simp
    ultimately show ?thesis using False http_headers_loop.simps [of mem s hi len i hm] by simp
  next
    case True
    obtain k v s' where h: "http_header_at mem s hi = Some (k, v, s')" "str_inside mem lo hi k" "str_inside mem lo hi v"
      "s \<le> s'" "s' \<le> hi" "ms_p k = s" "lo \<le> ms_p v"
      and nsp: "0 < ms_len v \<Longrightarrow> \<not> is_space (mem ! (ms_p v + ms_len v - 1)) \<and> ms_p v + ms_len v < hi"
      using http_header_at_inside [OF "1.prems"(1,2,3)] by metis
    have lo: "lo \<le> s'" using h(4) "1.prems"(2) by simp
    have put: "slots_ok mem lo hi i (put_header i k v hm)" using slots_ok_put [OF "1.prems"(4) h(2,3)] .
    note un = http_headers_loop.simps [of mem s hi len i hm]
    consider (skip) "ms_len k \<noteq> 0" "ms_len v = 0" | (stop) "ms_len k = 0" | (take) "ms_len k \<noteq> 0" "ms_len v \<noteq> 0" by blast
    then show ?thesis
    proof cases
      case skip
      have "\<exists>s'' hm'. http_headers_loop mem s' hi len i (put_header i k v hm) = Some (s'', hm') \<and>
          slots_ok mem lo hi MG_MAX_HTTP_HEADERS hm' \<and> ends_in_slots hm' \<and> hm_line hm' = hm_line (put_header i k v hm)"
        using "1.IH"(1) [OF True h(1) refl refl, OF _ "1.prems"(1) lo h(5) put] True skip by simp
      then show ?thesis using True skip h(1) by (simp add: un)
    next
      case stop
      let ?hm = "put_header i null_str null_str hm"
      have "slots_ok mem lo hi i ?hm" using slots_ok_put [OF "1.prems"(4), of null_str null_str] by simp
      then have "slots_ok mem lo hi MG_MAX_HTTP_HEADERS ?hm" using True weak [of MG_MAX_HTTP_HEADERS] by simp
      moreover have "ends_in_slots ?hm"
        using True "1.prems"(4) unfolding ends_in_slots_def
        by (intro exI [of _ i]) (simp add: put_header_def slots_ok_def null_str_def)
      ultimately show ?thesis using True stop h(1) by (simp add: un)
    next
      case take
      have "s < hi" using http_header_at_end(3) [OF h(1)] take(1) by simp
      then obtain hm1 where hm1: "http_note_length mem len k v (put_header i k v hm) = Some hm1"
        using http_note_length_total [OF "1.prems"(1) _ h(7), of k len "put_header i k v hm"] nsp take(2) h(6) by auto
      have ok1: "slots_ok mem lo hi i hm1"
        using put http_note_length_slots [OF hm1] by (simp add: slots_ok_def)
      have nxt: "i + 1 < MG_MAX_HTTP_HEADERS - 1 \<or> i + 1 = MG_MAX_HTTP_HEADERS - 1 \<and> ms_len (hm_header_names hm1 ! (i + 1)) = 0"
      proof (cases "i + 1 < MG_MAX_HTTP_HEADERS - 1")
        case False
        then have e: "i + 1 = MG_MAX_HTTP_HEADERS - 1" using True by simp
        then have "hm_header_names hm1 ! (i + 1) = null_str" using ok1 unfolding slots_ok_def MG_MAX_HTTP_HEADERS_def by simp
        then show ?thesis using e by (simp add: null_str_def)
      qed simp
      have "\<exists>s'' hm'. http_headers_loop mem s' hi len (i + 1) hm1 = Some (s'', hm') \<and>
          slots_ok mem lo hi MG_MAX_HTTP_HEADERS hm' \<and> ends_in_slots hm' \<and> hm_line hm' = hm_line hm1"
        using "1.IH"(2) [OF True h(1) refl refl _ _ hm1, OF _ _ "1.prems"(1) lo h(5) weak [OF _ ok1] nxt] take by simp
      then show ?thesis using True take h(1) hm1 http_note_length_line [OF hm1] by (simp add: un)
    qed
  qed
qed

lemma mg_vcasecmp_total:
  assumes "ms_valid x"
  shows "\<exists>r. mg_vcasecmp x w = Some r"
proof -
  let ?n = "if ms_len x < length w then ms_len x else length w"
  have "?n \<le> length (drop (ms_p x) (ms_mem x))" "?n \<le> length (w @ [0])" using assms by (auto simp: ms_valid_def)
  then obtain r where "mg_ncasecmp (drop (ms_p x) (ms_mem x)) (w @ [0]) ?n = Some r"
    using mg_ncasecmp_length [of ?n "drop (ms_p x) (ms_mem x)" "w @ [0]"] by blast
  then show ?thesis by (simp add: mg_vcasecmp_def Let_def)
qed

definition http_inside :: "bytes \<Rightarrow> nat \<Rightarrow> nat \<Rightarrow> http_message \<Rightarrow> bool" where
  "http_inside mem lo hi hm \<longleftrightarrow>
     (\<forall>x \<in> {hm_method hm, hm_uri hm, hm_proto hm, hm_resp_status_msg hm, hm_query_string hm}
        \<union> set (hm_header_names hm) \<union> set (hm_header_values hm). str_inside mem lo hi x) \<and>
     ms_mem (hm_body hm) = mem \<and> ms_p (hm_body hm) = hi \<and> ms_mem (hm_message hm) = mem \<and> ms_p (hm_message hm) = lo"

definition lines_inside :: "bytes \<Rightarrow> nat \<Rightarrow> nat \<Rightarrow> http_message \<Rightarrow> bool" where
  "lines_inside mem lo hi hm \<longleftrightarrow>
     str_inside mem lo hi (hm_method hm) \<and> str_inside mem lo hi (hm_uri hm) \<and> str_inside mem lo hi (hm_proto hm) \<and>
     str_inside mem lo hi (hm_resp_status_msg hm) \<and> str_inside mem lo hi (hm_query_string hm) \<and>
     ms_mem (hm_body hm) = mem \<and> ms_p (hm_body hm) = hi \<and> ms_mem (hm_message hm) = mem \<and> ms_p (hm_message hm) = lo"

lemma lines_inside_line: "hm_line hm' = hm_line hm \<Longrightarrow> lines_inside mem lo hi hm \<Longrightarrow> lines_inside mem lo hi hm'"
  by (simp add: hm_line_def lines_inside_def)

lemma http_insideI: "lines_inside mem lo hi hm \<Longrightarrow> slots_ok mem lo hi i hm \<Longrightarrow> http_inside mem lo hi hm"
  by (auto simp: lines_inside_def slots_ok_def http_inside_def)

text \<open>The first line leaves the header slots as they are.\<close>

definition same_slots :: "http_message \<Rightarrow> http_message \<Rightarrow> bool" where
  "same_slots a b \<longleftrightarrow> hm_header_names a = hm_header_names b \<and> hm_header_values a = hm_header_values b"

lemma http_request_line_safe:
  assumes "lo \<le> s" and "s \<le> hi" and "hi \<le> length mem" and "lines_inside mem lo hi hm"
  shows "http_request_line mem s hi hm = Some None \<or>
    (\<exists>s' hm'. http_request_line mem s hi hm = Some (Some (s', hm')) \<and> lo \<le> s' \<and> s' \<le> hi \<and> lines_inside mem lo hi hm' \<and>
       same_slots hm' hm \<and> ms_mem (hm_method hm') = mem \<and> ms_p (hm_method hm') + ms_len (hm_method hm') \<le> hi)"
proof -
  obtain t1 s1 where 1: "mg_skip mem s hi (str '' '') = Some (t1, s1)" "ms_mem t1 = mem" "ms_p t1 = s" "s + ms_len t1 \<le> s1"
    "s1 \<le> hi" "str_inside mem lo hi t1" using mg_skip_inside [OF assms(2,3,1)] by metis
  have l1: "lo \<le> s1" using 1 assms(1) by simp
  obtain t2 s2 where 2: "mg_skip mem s1 hi (str '' '') = Some (t2, s2)" "ms_mem t2 = mem" "ms_p t2 = s1" "s1 + ms_len t2 \<le> s2"
    "s2 \<le> hi" "str_inside mem lo hi t2" using mg_skip_inside [OF 1(5) assms(3) l1] by metis
  have l2: "lo \<le> s2" using 2 l1 by simp
  obtain t3 s3 where 3: "mg_skip mem s2 hi crlf = Some (t3, s3)" "ms_mem t3 = mem" "ms_p t3 = s2" "s2 + ms_len t3 \<le> s3"
    "s3 \<le> hi" "str_inside mem lo hi t3" using mg_skip_inside [OF 2(5) assms(3) l2] by metis
  have l3: "lo \<le> s3" using 3 l2 by simp
  note un = http_request_line_def 1(1) 2(1) 3(1)
  show ?thesis
  proof (cases "ms_p t2 \<le> ms_p t1 \<or> ms_p t3 \<le> ms_p t2")
    case False
    show ?thesis
    proof (cases "c_memchr 0x3F (ms_bytes t2)")
      case None
      with False show ?thesis using 1 2 3 l3 assms(4) by (simp add: un lines_inside_def same_slots_def)
    next
      case (Some k)
      have "length (ms_bytes t2) = ms_len t2" using 2 assms(3) by (simp add: ms_bytes_def bslice_def)
      then have "k < ms_len t2" using c_memchr_Some(1) [OF Some] by simp
      with False Some show ?thesis using 1 2 3 l1 l3 assms(4)
        by (auto simp add: un lines_inside_def same_slots_def str_inside_def)
    qed
  qed (simp add: un)
qed

text \<open>The number of a response may be looked for behind the head, so something must stop it there.\<close>

lemma http_status_line_safe:
  assumes "lo \<le> s" and "s \<le> hi" and "hi \<le> z" and "lines_inside mem lo hi hm" and "rd mem z = Some 0"
  shows "http_status_line mem s hi hm = Some None \<or>
    (\<exists>s' hm'. http_status_line mem s hi hm = Some (Some (s', hm')) \<and> lo \<le> s' \<and> s' \<le> hi \<and> lines_inside mem lo hi hm' \<and>
       same_slots hm' hm)"
proof -
  have l: "z < length mem" "mem ! z = 0" using assms(5) by (auto simp: rd_Some_iff)
  have hi: "hi \<le> length mem" using l assms(3) by simp
  obtain t1 s1 where 1: "mg_skip mem s hi (str '' '') = Some (t1, s1)" "ms_mem t1 = mem" "ms_p t1 = s" "s + ms_len t1 \<le> s1"
    "s1 \<le> hi" "str_inside mem lo hi t1" using mg_skip_inside [OF assms(2) hi assms(1)] by metis
  have l1: "lo \<le> s1" using 1 assms(1) by simp
  show ?thesis
  proof (cases "hi - s1 < 4")
    case False
    then have "s1 + 4 \<le> hi" "lo \<le> s1 + 4" using l1 by simp_all
    then obtain t2 s2 where 2: "mg_skip mem (s1 + 4) hi crlf = Some (t2, s2)" "ms_mem t2 = mem" "s1 + 4 + ms_len t2 \<le> s2"
      "s2 \<le> hi" "str_inside mem lo hi t2" using mg_skip_inside [OF _ hi] by metis
    obtain c where c: "rd mem (s1 + 3) = Some c" using False hi by (simp add: rd_in)
    have "drop s1 mem = take (z - s1) (drop s1 mem) @ 0 # drop (z + 1) mem"
    proof -
      have "drop (z - s1) (drop s1 mem) = drop z mem" using 1(5) assms(3) by simp
      also have "\<dots> = 0 # drop (z + 1) mem" using Cons_nth_drop_Suc [OF l(1)] l(2) by simp
      finally show ?thesis by (metis append_take_drop_id)
    qed
    then obtain n where "c_strtoll (drop s1 mem) = Some n"
      using c_strtoll_stops [of 0 0 "drop (z + 1) mem" "take (z - s1) (drop s1 mem)"]
      by (auto simp: is_space_def is_digit_def ch_def)
    then have "c_atoi (drop s1 mem) = Some (c_int n)" by (simp add: c_atoi_def)
    then show ?thesis using False 1 2 c l1 assms(4)
      by (auto simp: http_status_line_def lines_inside_def same_slots_def)
  qed (use 1 in \<open>simp add: http_status_line_def\<close>)
qed

lemma http_find_header_total:
  assumes "slots_ok mem lo hi i hm" and "hi \<le> length mem" and "k \<le> j" and "j < MG_MAX_HTTP_HEADERS"
    and "ms_len (hm_header_names hm ! j) = 0"
  shows "\<exists>v. http_find_header hm name k = Some v"
  using assms(1,3,5)
proof (induction hm name k rule: http_find_header.induct)
  case hyp: (1 hm name k)
  let ?h = "hm_header_names hm ! k"
  have k: "k < length (hm_header_names hm)" "k < length (hm_header_values hm)"
    using hyp.prems assms(4) by (simp_all add: slots_ok_def)
  show ?case
  proof (cases "ms_len ?h > 0")
    case True
    have "?h \<noteq> null_str" using True by (auto simp: null_str_def)
    then have h: "ms_mem ?h = mem" "ms_p ?h + ms_len ?h \<le> hi"
      using hyp.prems(1) k by (auto simp: slots_ok_def str_inside_def)
    have "\<exists>r. (if ms_len ?h = length name then mg_ncasecmp (drop (ms_p ?h) (ms_mem ?h)) (name @ [0]) (length name) else Some 1) = Some r"
      using h assms(2) by (auto intro!: mg_ncasecmp_length)
    then obtain r where r: "(if ms_len ?h = length name then mg_ncasecmp (drop (ms_p ?h) (ms_mem ?h)) (name @ [0]) (length name) else Some 1) = Some r"
      by blast
    have un: "http_find_header hm name k = (if r = 0 then Some (Some (hm_header_values hm ! k)) else http_find_header hm name (k + 1))"
      using k True r by (subst http_find_header.simps) (simp add: Let_def)
    show ?thesis
    proof (cases "r = 0")
      case False
      have "k \<noteq> j" using True hyp.prems by auto
      then have "k + 1 \<le> j" using hyp.prems(2) by simp
      then show ?thesis using hyp.IH [OF _ refl refl True r False hyp.prems(1) _ hyp.prems(3)] k un False by simp
    qed (simp add: un)
  next
    case False
    then show ?thesis using k by (subst http_find_header.simps) (simp add: Let_def)
  qed
qed

text \<open>The parser on any bytes: it ends, reads nothing outside them, returns no more than there are, and for a
  complete head all strings of the message lie in it and any header can be looked up.\<close>

lemma mg_parse_http_inside:
  assumes "s + n \<le> length mem" and "is_req \<or> rd mem (s + n) = Some 0"
  shows "\<exists>len hm. mg_parse_http mem s (int n) is_req = Some (len, hm) \<and> len \<le> int n \<and>
    (len \<le> 0 \<or> http_inside mem s (s + nat len) hm \<and> (\<forall>name. \<exists>v. mg_get_http_header hm name = Some v))"
proof -
  obtain r where r: "mg_http_get_request_len mem s (int n) = Some r" "r \<le> int n"
    "0 < r \<Longrightarrow> http_head (bslice mem s (nat r))" using mg_http_get_request_len_head [OF assms(1)] by blast
  show ?thesis
  proof (cases "r \<le> 0")
    case True
    then show ?thesis using r by (simp add: mg_parse_http_def)
  next
    case False
    let ?hi = "s + nat r"
    have hi: "?hi \<le> s + n" "?hi \<le> length mem" using r(2) assms(1) False by linarith+
    have head: "in_head mem s ?hi" using r(3) False hi by (intro in_headI) simp_all
    let ?hm = "http_start mem s ?hi"
    have hm: "lines_inside mem s ?hi ?hm" "slots_ok mem s ?hi 0 ?hm" "ms_len (hm_header_names ?hm ! 0) = 0"
      by (auto simp: lines_inside_def slots_ok_def http_start_def zero_hm_def null_str_def MG_MAX_HTTP_HEADERS_def str_inside_def)
    obtain s1 where s1: "skip_while is_space mem s ?hi = Some s1"
      using skip_while_takeWhile [of s ?hi mem is_space] hi by auto
    have b1: "s \<le> s1" "s1 \<le> ?hi" using skip_while_end [OF s1] by auto
    define line where "line = (if is_req then http_request_line mem s1 ?hi ?hm else http_status_line mem s1 ?hi ?hm)"
    have line: "line = Some None \<or> (\<exists>s' hm'. line = Some (Some (s', hm')) \<and> s \<le> s' \<and> s' \<le> ?hi \<and>
        lines_inside mem s ?hi hm' \<and> same_slots hm' ?hm \<and>
        (is_req \<longrightarrow> ms_mem (hm_method hm') = mem \<and> ms_p (hm_method hm') + ms_len (hm_method hm') \<le> ?hi))"
    proof (cases is_req)
      case True
      with http_request_line_safe [OF b1 hi(2) hm(1)] show ?thesis by (auto simp: line_def)
    next
      case False
      with http_status_line_safe [OF b1 hi(1) hm(1)] assms(2) show ?thesis by (auto simp: line_def)
    qed
    have un: "mg_parse_http mem s (int n) is_req = Option.bind line (\<lambda>l. case l of
          None \<Rightarrow> Some (-1, ?hm)
        | Some (s, hm) \<Rightarrow> do {
            (s, hm) \<leftarrow> mg_http_parse_headers mem s ?hi (nat r) hm;
            hm \<leftarrow> http_no_body r is_req hm;
            Some (r, hm) })"
      using r(1) False s1 by (simp add: mg_parse_http_def line_def Let_def)
    from line consider (bad) "line = Some None" | (good) s' hm' where "line = Some (Some (s', hm'))" "s \<le> s'" "s' \<le> ?hi"
      "lines_inside mem s ?hi hm'" "same_slots hm' ?hm"
      "is_req \<longrightarrow> ms_mem (hm_method hm') = mem \<and> ms_p (hm_method hm') + ms_len (hm_method hm') \<le> ?hi" by blast
    then show ?thesis
    proof cases
      case bad
      then show ?thesis by (simp add: un)
    next
      case good
      have sl: "slots_ok mem s ?hi 0 hm'" "ms_len (hm_header_names hm' ! 0) = 0"
        using hm(2,3) good(5) by (auto simp: slots_ok_def same_slots_def)
      obtain s2 hm2 where h2: "mg_http_parse_headers mem s' ?hi (nat r) hm' = Some (s2, hm2)"
        "slots_ok mem s ?hi MG_MAX_HTTP_HEADERS hm2" "ends_in_slots hm2" "hm_line hm2 = hm_line hm'"
        using http_headers_loop_safe [OF head good(2,3) sl(1), of "nat r"]
        by (auto simp: mg_http_parse_headers_def MG_MAX_HTTP_HEADERS_def)
      have li: "lines_inside mem s ?hi hm2" using lines_inside_line [OF h2(4) good(4)] .
      obtain j where j: "j < MG_MAX_HTTP_HEADERS" "ms_len (hm_header_names hm2 ! j) = 0" using h2(3) by (auto simp: ends_in_slots_def)
      have fin: "http_inside mem s ?hi h \<and> (\<forall>name. \<exists>v. mg_get_http_header h name = Some v)"
        if "lines_inside mem s ?hi h" "same_slots h hm2" for h
      proof -
        have "slots_ok mem s ?hi MG_MAX_HTTP_HEADERS h" using h2(2) that(2) by (simp add: slots_ok_def same_slots_def)
        then show ?thesis using http_insideI [OF that(1)] http_find_header_total [OF _ hi(2) _ j(1)] j(2) that(2)
          by (simp add: mg_get_http_header_def same_slots_def)
      qed
      have m2: "ms_mem (hm_method hm2) = mem" "ms_p (hm_method hm2) + ms_len (hm_method hm2) \<le> length mem" if is_req
        using good(6) h2(4) that hi by (auto simp: hm_line_def)
      have vc: "\<exists>x. mg_vcasecmp (hm_method hm2) w = Some x" if is_req for w
        using m2 [OF that] by (intro mg_vcasecmp_total) (simp add: ms_valid_def)
      obtain p1 p2 where p: "is_req \<Longrightarrow> mg_vcasecmp (hm_method hm2) (str ''PUT'') = Some p1"
        "is_req \<Longrightarrow> mg_vcasecmp (hm_method hm2) (str ''POST'') = Some p2" using vc by (cases is_req) blast+
      let ?fixed = "hm2\<lparr>hm_body := (hm_body hm2)\<lparr>ms_len := 0\<rparr>, hm_message := (hm_message hm2)\<lparr>ms_len := nat r\<rparr>\<rparr>"
      have "\<exists>h. http_no_body r is_req hm2 = Some h \<and> (h = hm2 \<or> h = ?fixed)"
        using p by (cases is_req) (auto simp: http_no_body_def)
      then obtain h where h: "http_no_body r is_req hm2 = Some h" "h = hm2 \<or> h = ?fixed" by blast
      have fx: "lines_inside mem s ?hi ?fixed" "same_slots ?fixed hm2" using li by (simp_all add: lines_inside_def same_slots_def)
      have "same_slots hm2 hm2" by (simp add: same_slots_def)
      note both = fin [OF li this] fin [OF fx]
      have "mg_parse_http mem s (int n) is_req = Some (r, h)" using un good(1) h2(1) h(1) by simp
      then show ?thesis using both r(2) h(2) by blast
    qed
  qed
qed



section \<open>Requests on the wire\<close>

definition text_char :: "u8 \<Rightarrow> bool" where
  "text_char c \<longleftrightarrow> head_char c \<and> c \<noteq> 13 \<and> c \<noteq> 10"

lemma text_char_not0: "text_char c \<Longrightarrow> c \<noteq> 0"
  by (auto simp: text_char_def head_char_def is_print_def)

lemma text_char_space: "text_char c \<Longrightarrow> is_space c \<longleftrightarrow> c = 0x20"
  by (auto simp: text_char_def head_char_def is_print_def is_space_def word_le_nat_alt word_eq_iff_unsigned)

definition text_word :: "bytes \<Rightarrow> bool" where
  "text_word w \<longleftrightarrow> w \<noteq> [] \<and> (\<forall>c \<in> set w. text_char c \<and> c \<noteq> 0x20)"

definition header_name_ok :: "bytes \<Rightarrow> bool" where
  "header_name_ok k \<longleftrightarrow> text_word k \<and> 0x3A \<notin> set k"

definition header_value_ok :: "bytes \<Rightarrow> bool" where
  "header_value_ok v \<longleftrightarrow> v \<noteq> [] \<and> (\<forall>c \<in> set v. text_char c) \<and> hd v \<noteq> 0x20 \<and> hd v \<noteq> 0x3A \<and> last v \<noteq> 0x20"

definition header_line :: "bytes \<times> bytes \<Rightarrow> bytes" where
  "header_line h = fst h @ str '': '' @ snd h"

definition lines_text :: "bytes list \<Rightarrow> bytes" where
  "lines_text ls = concat (map (\<lambda>l. l @ crlf) ls)"

lemma length_content_length_name: "length content_length_name = 14"
  by (simp add: content_length_name_def)

text \<open>
  The parser looks at the first 14 characters of a name only.  A header whose name starts with \<open>Content-Length\<close> must be that
  header, with a number as its value; there are at most 19 headers, all with a name and a value.
\<close>

definition names_length :: "bytes \<Rightarrow> bool" where
  "names_length k \<longleftrightarrow> map tolower (take 14 k) = map tolower content_length_name"

definition is_length_name :: "bytes \<Rightarrow> bool" where
  "is_length_name k \<longleftrightarrow> map tolower k = map tolower content_length_name"

definition headers_ok :: "(bytes \<times> bytes) list \<Rightarrow> bool" where
  "headers_ok hs \<longleftrightarrow> length hs < MG_MAX_HTTP_HEADERS \<and>
     (\<forall>(k, v) \<in> set hs. header_name_ok k \<and> header_value_ok v \<and>
        (names_length k \<longrightarrow> is_length_name k \<and> (\<forall>c \<in> set v. is_digit c) \<and> digits_value 0 v < 2 ^ 62))"

definition declared_length :: "(bytes \<times> bytes) list \<Rightarrow> nat \<Rightarrow> nat" where
  "declared_length hs b = fold (\<lambda>(k, v) b. if is_length_name k then nat (digits_value 0 v) else b) hs b"

lemma is_length_names: "is_length_name k \<Longrightarrow> names_length k"
proof -
  assume k: "is_length_name k"
  then have "length k = 14" unfolding is_length_name_def by (metis length_map length_content_length_name)
  with k show ?thesis by (simp add: is_length_name_def names_length_def)
qed

subsection \<open>Finding the end of the head\<close>

lemma req_len_text:
  assumes "rd mem (s + i) = Some c" and "text_char c \<or> c = 13" and "i < n"
  shows "http_req_len_loop mem s (int n) i = http_req_len_loop mem s (int n) (Suc i)"
proof -
  have "\<not> (\<not> is_print c \<and> c \<noteq> 13 \<and> c \<noteq> 10 \<and> c < 128)" "c \<noteq> 10"
    using assms(2) by (auto simp: text_char_def head_char_def)
  then show ?thesis using assms(1,3) by (subst http_req_len_loop.simps) auto
qed

lemma req_len_word:
  assumes "drop (s + i) mem = w @ r" and "\<forall>c \<in> set w. text_char c \<or> c = 13" and "i + length w \<le> n"
  shows "http_req_len_loop mem s (int n) i = http_req_len_loop mem s (int n) (i + length w)"
  using assms
proof (induction w arbitrary: i)
  case (Cons c w)
  have "rd mem (s + i) = Some c" using Cons.prems(1) by (intro rd_ahead) simp
  moreover have "drop (s + Suc i) mem = w @ r" using drop_past [of "s + i" mem "[c]" "w @ r" 1] Cons.prems(1) by simp
  ultimately show ?case using req_len_text [of mem s i c n] Cons by simp
qed simp

lemma req_len_newline:
  assumes "rd mem (s + i) = Some 10" and "rd mem (s + i + 1) = Some c" and "c \<noteq> 10" "c \<noteq> 13" and "i + 1 < n"
  shows "http_req_len_loop mem s (int n) i = http_req_len_loop mem s (int n) (Suc i)"
proof -
  have "rd mem (Suc (s + i)) = Some c" using assms(2) by simp
  then show ?thesis using assms by (subst http_req_len_loop.simps) simp
qed

lemma req_len_last:
  assumes "rd mem (s + i) = Some 10" and "rd mem (s + i + 1) = Some 13" and "rd mem (s + i + 2) = Some 10" and "i + 2 < n"
  shows "http_req_len_loop mem s (int n) i = Some (int i + 3)"
proof -
  have "rd mem (Suc (s + i)) = Some 13" "rd mem (Suc (Suc (s + i))) = Some 10" using assms(2,3) by simp_all
  then show ?thesis using assms by (subst http_req_len_loop.simps) simp
qed

definition text_lines :: "bytes list \<Rightarrow> bool" where
  "text_lines ls \<longleftrightarrow> (\<forall>l \<in> set ls. l \<noteq> [] \<and> (\<forall>c \<in> set l. text_char c))"

lemma req_len_lines:
  assumes "drop (s + i) mem = lines_text (l # ls) @ crlf @ r" and "text_lines (l # ls)"
    and "i + length (lines_text (l # ls)) + 2 \<le> n"
  shows "http_req_len_loop mem s (int n) i = Some (int (i + length (lines_text (l # ls)) + 2))"
  using assms
proof (induction ls arbitrary: l i)
  case Nil
  let ?w = "l @ [13]"
  have d: "drop (s + i) mem = ?w @ 10 # 13 # 10 # r" using Nil.prems(1) by (simp add: lines_text_def crlf_def)
  have "http_req_len_loop mem s (int n) i = http_req_len_loop mem s (int n) (i + length ?w)"
    using Nil.prems by (intro req_len_word [OF d]) (auto simp: text_lines_def lines_text_def crlf_def)
  also have "\<dots> = Some (int (i + length ?w) + 3)"
    using Nil.prems(3) rd_at [OF d, of "s + (i + length ?w)"] rd_at [of "s + i" mem "?w @ [10]" 13 "10 # r" "s + (i + length ?w) + 1"]
      rd_at [of "s + i" mem "?w @ [10, 13]" 10 r "s + (i + length ?w) + 2"] d
    by (intro req_len_last) (simp_all add: lines_text_def crlf_def)
  finally show ?case by (simp add: lines_text_def crlf_def)
next
  case (Cons l' ls)
  let ?w = "l @ [13]"
  obtain c l'' where l': "l' = c # l''" using Cons.prems(2) by (cases l') (auto simp: text_lines_def)
  have c: "c \<noteq> 10" "c \<noteq> 13" using Cons.prems(2) l' by (auto simp: text_lines_def text_char_def)
  let ?t = "lines_text (l' # ls) @ crlf @ r"
  have d: "drop (s + i) mem = ?w @ 10 # ?t" using Cons.prems(1) by (simp add: lines_text_def crlf_def)
  obtain t where t: "?t = c # t" using l' by (simp add: lines_text_def)
  have len: "i + length ?w + 1 + length (lines_text (l' # ls)) + 2 \<le> n" using Cons.prems(3) by (simp add: lines_text_def crlf_def)
  have "http_req_len_loop mem s (int n) i = http_req_len_loop mem s (int n) (i + length ?w)"
    using Cons.prems(2) len by (intro req_len_word [OF d]) (auto simp: text_lines_def)
  also have "\<dots> = http_req_len_loop mem s (int n) (Suc (i + length ?w))"
    using d t c len rd_at [OF d, of "s + (i + length ?w)"] rd_at [of "s + i" mem "?w @ [10]" c t "s + (i + length ?w) + 1"]
    by (intro req_len_newline) simp_all
  also have "\<dots> = Some (int (Suc (i + length ?w) + length (lines_text (l' # ls)) + 2))"
  proof (rule Cons.IH)
    show "drop (s + Suc (i + length ?w)) mem = ?t"
      using drop_past [of "s + i" mem "?w @ [10]" ?t "Suc (length ?w)"] d by (simp add: add.assoc)
  qed (use Cons.prems(2) len in \<open>simp_all add: text_lines_def\<close>)
  finally show ?case by (simp add: lines_text_def crlf_def)
qed

subsection \<open>Tokens\<close>

lemma mg_skip_ahead:
  assumes "drop p mem = t @ d @ r" and "\<forall>c \<in> set t. \<not> is_delim D c" and "\<forall>c \<in> set d. is_delim D c" and "d \<noteq> []"
    and "p + length t + length d \<le> e" and "e \<le> length mem"
    and "p + length t + length d = e \<or> (\<exists>x r'. r = x # r' \<and> \<not> is_delim D x)"
  shows "mg_skip mem p e D = Some (\<lparr>ms_mem = mem, ms_p = p, ms_len = length t\<rparr>, p + length t + length d)"
proof -
  define n where "n = e - (p + length t + length d)"
  have x: "bslice mem p (e - p) = t @ d @ take n r" using assms(1,5) by (simp add: bslice_def n_def)
  obtain d0 d' where d0: "d = d0 # d'" using assms(4) by (cases d) auto
  have tok: "takeWhile (\<lambda>c. \<not> is_delim D c) (t @ d @ take n r) = t"
    using assms(2,3) d0 by (simp add: takeWhile_append2)
  have del: "takeWhile (is_delim D) (d @ take n r) = d"
    using assms(3,7) by (auto simp: takeWhile_append2 take_Cons' n_def)
  show ?thesis
    using mg_skip_spec [of p e mem D] assms(5,6) by (simp add: x tok del Let_def del: takeWhile_append)
qed

lemma strto_digits_value:
  assumes "\<forall>c \<in> set ds. is_digit c" and "\<not> is_digit t"
  shows "strto_digits (ds @ t # r) acc = Some (digits_value acc ds)"
  using assms(1) by (induction ds arbitrary: acc) (use assms(2) in auto)

lemma c_strtoll_digits:
  assumes "\<forall>c \<in> set ds. is_digit c" and "ds \<noteq> []" and "\<not> is_digit t" and "digits_value 0 ds < 2 ^ 62"
  shows "c_strtoll (ds @ t # r) = Some (digits_value 0 ds)"
proof -
  obtain c cs where ds: "ds = c # cs" using assms(2) by (cases ds) auto
  have "is_digit c" using assms(1) ds by simp
  then have "48 \<le> c" "c \<le> 57" by (simp_all add: is_digit_def ch_def)
  then have c: "\<not> is_space c" "c \<noteq> ch (CHR ''-'')" "c \<noteq> ch (CHR ''+'')"
    by (auto simp: is_space_def ch_def word_le_nat_alt)
  have "c_strtoll (ds @ t # r) = map_option (\<lambda>n. min (2 ^ 63 - 1) n) (strto_digits (ds @ t # r) 0)"
    using c by (simp add: c_strtoll_def ds del: strto_digits.simps)
  also have "\<dots> = Some (min (2 ^ 63 - 1) (digits_value 0 ds))" by (simp only: strto_digits_value [OF assms(1,3)] option.map)
  also have "min (2 ^ 63 - 1) (digits_value 0 ds) = digits_value 0 ds" using assms(4) by simp
  finally show ?thesis .
qed

lemma http_trim_all: "p + n \<le> length mem \<Longrightarrow> 0 < n \<Longrightarrow> mem ! (p + n - 1) \<noteq> 0x20 \<Longrightarrow> http_trim mem p n = Some n"
  by (cases n) (auto simp: rd_in)

lemma crlf_delim [simp]: "is_delim crlf c \<longleftrightarrow> c = 0 \<or> c = 13 \<or> c = 10"
  by (auto simp: is_delim_def crlf_def)

lemma text_no_delim: "text_char c \<Longrightarrow> \<not> is_delim crlf c"
  using text_char_not0 by (auto simp: text_char_def)

lemma colon_delim: "is_delim (str '': '') c \<longleftrightarrow> c = 0 \<or> c = 0x3A \<or> c = 0x20"
  by (auto simp: is_delim_def str_def ch_def)

lemma space_delim: "is_delim (str '' '') c \<longleftrightarrow> c = 0 \<or> c = 0x20"
  by (auto simp: is_delim_def str_def ch_def)

lemma http_header_at_ahead:
  assumes "drop p mem = header_line (k, v) @ d @ r" and "header_name_ok k" and "header_value_ok v"
    and "\<forall>c \<in> set d. c = 13 \<or> c = 10" and "d \<noteq> []"
    and "p + length (header_line (k, v)) + length d \<le> e" and "e \<le> length mem"
    and "p + length (header_line (k, v)) + length d = e \<or> (\<exists>x r'. r = x # r' \<and> text_char x)"
  shows "http_header_at mem p e = Some (\<lparr>ms_mem = mem, ms_p = p, ms_len = length k\<rparr>,
    \<lparr>ms_mem = mem, ms_p = p + length k + 2, ms_len = length v\<rparr>, p + length (header_line (k, v)) + length d)"
proof -
  have dk: "drop p mem = k @ str '': '' @ v @ d @ r" using assms(1) by (simp add: header_line_def)
  obtain v0 v' where v0: "v = v0 # v'" using assms(3) by (cases v) (auto simp: header_value_ok_def)
  have s1: "mg_skip mem p e (str '': '') = Some (\<lparr>ms_mem = mem, ms_p = p, ms_len = length k\<rparr>, p + length k + length (str '': ''))"
  proof (rule mg_skip_ahead [OF dk])
    show "\<forall>c \<in> set k. \<not> is_delim (str '': '') c"
      using assms(2) text_char_not0 by (auto simp: header_name_ok_def text_word_def colon_delim)
    show "\<forall>c \<in> set (str '': ''). is_delim (str '': '') c" by (simp add: is_delim_def)
    have "\<not> is_delim (str '': '') v0" using assms(3) v0 text_char_not0 by (auto simp: header_value_ok_def colon_delim)
    then show "p + length k + length (str '': '') = e \<or> (\<exists>x r'. v @ d @ r = x # r' \<and> \<not> is_delim (str '': '') x)"
      using v0 by auto
  qed (use assms(6,7) in \<open>simp_all add: header_line_def\<close>)
  have dv: "drop (p + length k + 2) mem = v @ d @ r"
    using drop_past [of p mem "k @ str '': ''" "v @ d @ r" "length k + 2"] dk by (simp add: add.assoc)
  have s2: "mg_skip mem (p + length k + 2) e crlf = Some (\<lparr>ms_mem = mem, ms_p = p + length k + 2, ms_len = length v\<rparr>,
      p + length k + 2 + length v + length d)"
  proof (rule mg_skip_ahead [OF dv])
    show "\<forall>c \<in> set v. \<not> is_delim crlf c" using assms(3) text_no_delim by (auto simp: header_value_ok_def)
    show "\<forall>c \<in> set d. is_delim crlf c" using assms(4) by auto
    show "p + length k + 2 + length v + length d = e \<or> (\<exists>x r'. r = x # r' \<and> \<not> is_delim crlf x)"
      using assms(8) text_no_delim by (auto simp: header_line_def)
  qed (use assms(5,6,7) in \<open>simp_all add: header_line_def\<close>)
  have "http_trim mem (p + length k + 2) (length v) = Some (length v)"
  proof (rule http_trim_all)
    show "p + length k + 2 + length v \<le> length mem" using assms(6,7) by (simp add: header_line_def)
    show "0 < length v" using v0 by simp
    have "mem ! (p + length k + 2 + (length v - 1)) = v ! (length v - 1)"
      using dv v0 assms(6,7) by (metis (no_types, lifting) add_leD1 append_Cons diff_less length_Cons length_append nth_append nth_drop zero_less_Suc zero_less_one
          header_line_def fst_conv snd_conv length_str le_trans ahead_fits neq_Nil_conv)
    then show "mem ! (p + length k + 2 + length v - 1) \<noteq> 0x20"
      using assms(3) v0 last_conv_nth [of v] by (auto simp: header_value_ok_def)
  qed
  with s1 s2 show ?thesis by (simp add: http_header_at_def header_line_def)
qed

lemma mg_ncasecmp_more: "mg_ncasecmp xs ys n = Some r \<Longrightarrow> mg_ncasecmp (xs @ zs) ys n = Some r"
proof (induction xs ys n rule: mg_ncasecmp.induct, goal_cases)
  case (2 b len)
  then show ?case by (cases b; cases zs) (auto split: if_splits)
qed (auto simp: Let_def split: if_splits)

lemma http_note_length_ahead:
  assumes "drop p mem = k @ 0x3A # 0x20 # v @ t # r" and "header_name_ok k"
    and "names_length k \<Longrightarrow> (\<forall>c \<in> set v. is_digit c) \<and> v \<noteq> [] \<and> digits_value 0 v < 2 ^ 62" and "\<not> is_digit t" and "len < 2 ^ 31"
  shows "http_note_length mem len \<lparr>ms_mem = mem, ms_p = p, ms_len = length k\<rparr>
      \<lparr>ms_mem = mem, ms_p = p + length k + 2, ms_len = length v\<rparr> hm =
    Some (if names_length k
          then hm\<lparr>hm_body := (hm_body hm)\<lparr>ms_len := nat (digits_value 0 v)\<rparr>,
                  hm_message := (hm_message hm)\<lparr>ms_len := len + nat (digits_value 0 v)\<rparr>\<rparr>
          else hm)"
proof -
  have z: "0 \<notin> set content_length_name" by (simp add: content_length_name_def str_def ch_def)
  have t14: "take 14 content_length_name = content_length_name" by (simp add: content_length_name_def)
  let ?m = "drop p mem @ replicate 14 0"
  have "map tolower (take 14 ?m) = map tolower content_length_name \<longleftrightarrow> names_length k"
  proof (cases "14 \<le> length k")
    case False
    then have "map tolower (take 14 ?m) ! length k = tolower 0x3A" using assms(1) by (simp add: nth_append)
    moreover have "map tolower content_length_name ! length k \<noteq> tolower 0x3A"
    proof -
      have "list_all (\<lambda>c. tolower c \<noteq> tolower 0x3A) content_length_name"
        by (simp add: content_length_name_def str_def ch_def tolower_def)
      then have "\<forall>n < length content_length_name. tolower (content_length_name ! n) \<noteq> tolower 0x3A"
        by (simp only: list_all_length)
      moreover have "length k < length content_length_name" using False by (simp add: content_length_name_def)
      ultimately show ?thesis by simp
    qed
    moreover have "\<not> names_length k"
    proof
      assume "names_length k"
      then have "length (map tolower (take 14 k)) = 14" by (simp only: names_length_def) (simp add: content_length_name_def)
      with False show False by simp
    qed
    ultimately show ?thesis by metis
  qed (use assms(1) in \<open>simp add: names_length_def\<close>)
  moreover obtain y where y: "mg_ncasecmp (drop p mem) (content_length_name @ [0]) 14 = Some y"
    using mg_ncasecmp_stops [of 14 "content_length_name @ [0]" "0x3A" "drop p mem"] assms(1)
    by (auto simp: content_length_name_def str_def ch_def tolower_def)
  ultimately obtain x where x: "mg_ncasecmp (drop p mem) (content_length_name @ [0]) 14 = Some x" "x = 0 \<longleftrightarrow> names_length k"
    using y z t14 ncasecmp_eq [of 14 ?m content_length_name "[0]"] mg_ncasecmp_more [OF y, of "replicate 14 0"]
    by (auto simp: content_length_name_def)
  have dv: "drop (p + length k + 2) mem = v @ t # r"
    using drop_past [of p mem "k @ [0x3A, 0x20]" "v @ t # r" "length k + 2"] assms(1) by (simp add: add.assoc)
  show ?thesis
  proof (cases "names_length k")
    case True
    then have v: "\<forall>c \<in> set v. is_digit c" "v \<noteq> []" "digits_value 0 v < 2 ^ 62" using assms(3) by auto
    have nn: "0 \<le> digits_value 0 v" using digits_value_mono [OF v(1), of 0] by simp
    have "nat (digits_value 0 v mod 2 ^ 64) = nat (digits_value 0 v)" using nn v(3) by simp
    moreover have "(len + nat (digits_value 0 v)) mod 2 ^ 64 = len + nat (digits_value 0 v)" using nn v(3) assms(5) by simp
    moreover have "c_strtoll (drop (p + length k + 2) mem) = Some (digits_value 0 v)"
      using c_strtoll_digits [OF v(1,2) assms(4) v(3)] dv by simp
    ultimately show ?thesis using x True by (simp add: http_note_length_def Let_def)
  qed (use x in \<open>simp add: http_note_length_def\<close>)
qed

definition header_list :: "http_message \<Rightarrow> (bytes \<times> bytes) list" where
  "header_list hm = zip (map ms_bytes (takeWhile (\<lambda>k. ms_len k \<noteq> 0) (hm_header_names hm))) (map ms_bytes (hm_header_values hm))"

text \<open>The slots before \<open>i\<close> hold the headers \<open>hs\<close>.\<close>

definition slots_hold :: "bytes \<Rightarrow> (bytes \<times> bytes) list \<Rightarrow> http_message \<Rightarrow> bool" where
  "slots_hold mem hs hm \<longleftrightarrow>
     length (hm_header_names hm) = MG_MAX_HTTP_HEADERS \<and> length (hm_header_values hm) = MG_MAX_HTTP_HEADERS \<and>
     length hs < MG_MAX_HTTP_HEADERS \<and>
     (\<forall>j < length hs. ms_bytes (hm_header_names hm ! j) = fst (hs ! j) \<and> ms_bytes (hm_header_values hm ! j) = snd (hs ! j) \<and>
        ms_len (hm_header_names hm ! j) = length (fst (hs ! j)) \<and> ms_valid (hm_header_names hm ! j) \<and>
        ms_valid (hm_header_values hm ! j) \<and> ms_len (hm_header_values hm ! j) = length (snd (hs ! j)))"

lemma slots_hold_put:
  assumes "slots_hold mem hs hm" and "length hs + 1 < MG_MAX_HTTP_HEADERS" and "drop p mem = k @ a @ v @ r" and "length a = 2"
    and "v \<noteq> []"
  shows "slots_hold mem (hs @ [(k, v)])
    (put_header (length hs) \<lparr>ms_mem = mem, ms_p = p, ms_len = length k\<rparr> \<lparr>ms_mem = mem, ms_p = p + length k + 2, ms_len = length v\<rparr> hm)"
proof -
  have dv: "drop (p + length k + 2) mem = v @ r"
    using drop_past [of p mem "k @ a" "v @ r" "length k + 2"] assms(3,4) by (simp add: add.assoc)
  have "p + length k \<le> length mem" "p + length k + 2 + length v \<le> length mem"
    using ahead_fits [OF dv] assms(5) by simp_all
  then show ?thesis
    using assms(1,2) dv assms(3)
    by (auto simp: slots_hold_def put_header_def nth_list_update nth_append less_Suc_eq ms_bytes_def bslice_def ms_valid_def)
qed

definition headers_text :: "(bytes \<times> bytes) list \<Rightarrow> bytes" where
  "headers_text hs = (if hs = [] then [] else lines_text (map header_line hs) @ crlf)"

lemma headers_text_Cons:
  "headers_text ((k, v) # hs) = header_line (k, v) @ (if hs = [] then crlf @ crlf else crlf) @ headers_text hs"
  by (simp add: headers_text_def lines_text_def)

lemma names_length_long: "names_length k \<Longrightarrow> 14 \<le> length k"
proof -
  assume "names_length k"
  then have "length (map tolower (take 14 k)) = 14" by (simp only: names_length_def) (simp add: content_length_name_def)
  then show ?thesis by simp
qed

lemma http_headers_loop_ahead:
  assumes "drop s mem = headers_text hs @ r" and "fin = s + length (headers_text hs)" and "fin \<le> length mem"
    and "length gs + length hs < MG_MAX_HTTP_HEADERS" and "headers_ok hs" and "slots_hold mem gs hm" and "len < 2 ^ 31"
    and "ms_len (hm_message hm) = (if ms_len (hm_body hm) = SIZE_MAX then SIZE_MAX else len + ms_len (hm_body hm))"
    and "length gs = MG_MAX_HTTP_HEADERS - 1 \<Longrightarrow> ms_len (hm_header_names hm ! (MG_MAX_HTTP_HEADERS - 1)) = 0"
    and "\<forall>j. length gs < j \<and> j < MG_MAX_HTTP_HEADERS \<longrightarrow> ms_len (hm_header_names hm ! j) = 0"
  shows "\<exists>hm'. http_headers_loop mem s fin len (length gs) hm = Some (fin, hm') \<and> slots_hold mem (gs @ hs) hm' \<and>
    ms_len (hm_header_names hm' ! (length gs + length hs)) = 0 \<and> hm_line hm' = hm_line hm \<and>
    ms_len (hm_body hm') = declared_length hs (ms_len (hm_body hm)) \<and>
    ms_len (hm_message hm') = (if ms_len (hm_body hm') = SIZE_MAX then SIZE_MAX else len + ms_len (hm_body hm'))"
  using assms
proof (induction hs arbitrary: s gs hm)
  case Nil
  have fin: "fin = s" using Nil.prems(2) by (simp add: headers_text_def)
  show ?case
  proof (cases "length gs < MG_MAX_HTTP_HEADERS - 1")
    case True
    have e: "mg_skip mem s s D = Some (\<lparr>ms_mem = mem, ms_p = s, ms_len = 0\<rparr>, s)" for D
      by (simp add: mg_skip_def skip_while.simps)
    have "http_headers_loop mem s fin len (length gs) hm = Some (s, put_header (length gs) null_str null_str hm)"
      unfolding fin using True by (subst http_headers_loop.simps) (simp add: http_header_at_def e)
    moreover have "slots_hold mem gs (put_header (length gs) null_str null_str hm)"
      using Nil.prems(6) by (auto simp: slots_hold_def put_header_def nth_list_update)
    ultimately show ?thesis using Nil.prems(4,6,8) fin
      by (auto simp: put_header_def slots_hold_def null_str_def declared_length_def hm_line_def)
  next
    case False
    then have "length gs = MG_MAX_HTTP_HEADERS - 1" using Nil.prems(4) by simp
    moreover have "http_headers_loop mem s fin len (length gs) hm = Some (fin, hm)"
      using False fin by (subst http_headers_loop.simps) simp
    ultimately show ?thesis using Nil.prems by (intro exI [of _ hm]) (simp add: declared_length_def)
  qed
next
  case (Cons h hs)
  obtain k v where h: "h = (k, v)" by (cases h)
  let ?d = "if hs = [] then crlf @ crlf else crlf"
  let ?K = "\<lparr>ms_mem = mem, ms_p = s, ms_len = length k\<rparr>"
  let ?V = "\<lparr>ms_mem = mem, ms_p = s + length k + 2, ms_len = length v\<rparr>"
  have ok: "header_name_ok k" "header_value_ok v" "names_length k \<longrightarrow> (\<forall>c \<in> set v. is_digit c) \<and> digits_value 0 v < 2 ^ 62"
    "headers_ok hs" using Cons.prems(5) by (auto simp: headers_ok_def h)
  have nl: "is_length_name k \<longleftrightarrow> names_length k" using Cons.prems(5) is_length_names by (auto simp: headers_ok_def h)
  have ne: "k \<noteq> []" "v \<noteq> []" using ok by (auto simp: header_name_ok_def header_value_ok_def text_word_def)
  have i: "length gs < MG_MAX_HTTP_HEADERS - 1" using Cons.prems(4) by simp
  have d: "drop s mem = header_line (k, v) @ ?d @ headers_text hs @ r" using Cons.prems(1) by (simp add: headers_text_Cons h)
  let ?s = "s + length (header_line (k, v)) + length ?d"
  have fin: "fin = ?s + length (headers_text hs)" using Cons.prems(2) by (simp add: headers_text_Cons h)
  have nxt: "?s = fin \<or> (\<exists>x t. headers_text hs @ r = x # t \<and> text_char x)"
  proof (cases hs)
    case Nil
    then show ?thesis using fin by (simp add: headers_text_def)
  next
    case (Cons h2 hs2)
    obtain x k2 v2 where "h2 = (x # k2, v2)" "text_char x"
      using ok(4) Cons by (cases h2; cases "fst h2") (auto simp: headers_ok_def header_name_ok_def text_word_def)
    then show ?thesis using Cons by (simp add: headers_text_def lines_text_def header_line_def)
  qed
  have at: "http_header_at mem s fin = Some (?K, ?V, ?s)"
    using fin Cons.prems(3) nxt ok(1,2) by (intro http_header_at_ahead [OF d]) (auto simp: crlf_def)
  let ?hm = "put_header (length gs) ?K ?V hm"
  let ?hm' = "if names_length k then ?hm\<lparr>hm_body := (hm_body ?hm)\<lparr>ms_len := nat (digits_value 0 v)\<rparr>,
                  hm_message := (hm_message ?hm)\<lparr>ms_len := len + nat (digits_value 0 v)\<rparr>\<rparr> else ?hm"
  have "?d = 13 # tl ?d" by (simp add: crlf_def)
  then obtain t where t: "?d = 13 # t" by blast
  have "drop s mem = k @ 0x3A # 0x20 # v @ 13 # t @ headers_text hs @ r"
    using d t by (simp add: header_line_def str_def ch_def)
  then have noted: "http_note_length mem len ?K ?V ?hm = Some ?hm'"
    using ok ne Cons.prems(7) by (intro http_note_length_ahead) (auto simp: is_digit_def ch_def)
  have put: "slots_hold mem (gs @ [h]) ?hm"
  proof -
    have "drop s mem = k @ str '': '' @ v @ ?d @ headers_text hs @ r" using d by (simp add: header_line_def)
    then show ?thesis using slots_hold_put [OF Cons.prems(6) _ _ _ ne(2)] i by (simp add: h)
  qed
  have small: "digits_value 0 v < 2 ^ 62" if "names_length k" using ok that by simp
  have nsz: "nat (digits_value 0 v) \<noteq> SIZE_MAX" if "names_length k" using small [OF that] by (auto simp: SIZE_MAX_def)
  have un: "http_headers_loop mem s fin len (length gs) hm = http_headers_loop mem ?s fin len (length gs + 1) ?hm'"
    using i at ne noted by (simp add: http_headers_loop.simps [of mem s fin])
  have len0: "\<forall>j. length gs + 1 < j \<and> j < MG_MAX_HTTP_HEADERS \<longrightarrow> ms_len (hm_header_names ?hm' ! j) = 0"
    "length gs + 1 = MG_MAX_HTTP_HEADERS - 1 \<Longrightarrow> ms_len (hm_header_names ?hm' ! (MG_MAX_HTTP_HEADERS - 1)) = 0"
    using Cons.prems(10) by (auto simp: put_header_def MG_MAX_HTTP_HEADERS_def)
  have "\<exists>hm''. http_headers_loop mem ?s fin len (length (gs @ [h])) ?hm' = Some (fin, hm'') \<and> slots_hold mem ((gs @ [h]) @ hs) hm'' \<and>
    ms_len (hm_header_names hm'' ! (length (gs @ [h]) + length hs)) = 0 \<and> hm_line hm'' = hm_line ?hm' \<and>
    ms_len (hm_body hm'') = declared_length hs (ms_len (hm_body ?hm')) \<and>
    ms_len (hm_message hm'') = (if ms_len (hm_body hm'') = SIZE_MAX then SIZE_MAX else len + ms_len (hm_body hm''))"
  proof (rule Cons.IH)
    show "drop ?s mem = headers_text hs @ r"
      using drop_past [of s mem "header_line (k, v) @ ?d" "headers_text hs @ r"] d by (simp add: add.assoc)
    show "slots_hold mem (gs @ [h]) ?hm'" using put by (simp add: slots_hold_def)
    show "ms_len (hm_message ?hm') = (if ms_len (hm_body ?hm') = SIZE_MAX then SIZE_MAX else len + ms_len (hm_body ?hm'))"
      using Cons.prems(8) nsz by (auto simp: put_header_def)
    show "length (gs @ [h]) = MG_MAX_HTTP_HEADERS - 1 \<Longrightarrow> ms_len (hm_header_names ?hm' ! (MG_MAX_HTTP_HEADERS - 1)) = 0"
      using len0(2) by simp
    show "\<forall>j. length (gs @ [h]) < j \<and> j < MG_MAX_HTTP_HEADERS \<longrightarrow> ms_len (hm_header_names ?hm' ! j) = 0"
      using len0(1) by simp
  qed (use Cons.prems fin ok in \<open>simp_all add: h\<close>)
  moreover have "hm_line ?hm' = hm_line hm" by (simp add: hm_line_def put_header_def)
  moreover have "declared_length hs (ms_len (hm_body ?hm')) = declared_length (h # hs) (ms_len (hm_body hm))"
    by (simp add: declared_length_def h put_header_def nl)
  ultimately show ?case using un by simp
qed

definition target_text :: "bytes \<Rightarrow> bytes option \<Rightarrow> bytes" where
  "target_text u q = u @ (case q of None \<Rightarrow> [] | Some x \<Rightarrow> 0x3F # x)"

definition request_line :: "bytes \<Rightarrow> bytes \<Rightarrow> bytes option \<Rightarrow> bytes \<Rightarrow> bytes" where
  "request_line m u q pr = m @ 0x20 # target_text u q @ 0x20 # pr"

definition request_text :: "bytes \<Rightarrow> bytes \<Rightarrow> bytes option \<Rightarrow> bytes \<Rightarrow> (bytes \<times> bytes) list \<Rightarrow> bytes" where
  "request_text m u q pr hs = lines_text (request_line m u q pr # map header_line hs) @ crlf"

definition request_ok :: "bytes \<Rightarrow> bytes \<Rightarrow> bytes option \<Rightarrow> bytes \<Rightarrow> (bytes \<times> bytes) list \<Rightarrow> bool" where
  "request_ok m u q pr hs \<longleftrightarrow> text_word m \<and> text_word u \<and> 0x3F \<notin> set u \<and>
     (case q of None \<Rightarrow> True | Some x \<Rightarrow> (\<forall>c \<in> set x. text_char c \<and> c \<noteq> 0x20)) \<and>
     pr \<noteq> [] \<and> (\<forall>c \<in> set pr. text_char c) \<and> hd pr \<noteq> 0x20 \<and> headers_ok hs"

definition has_body :: "bytes \<Rightarrow> bool" where
  "has_body m \<longleftrightarrow> map tolower m = map tolower (str ''PUT'') \<or> map tolower m = map tolower (str ''POST'')"

definition request_body_len :: "bytes \<Rightarrow> (bytes \<times> bytes) list \<Rightarrow> nat" where
  "request_body_len m hs =
     (let b = declared_length hs SIZE_MAX in if b = SIZE_MAX \<and> \<not> has_body m then 0 else b)"

definition lookup_header :: "(bytes \<times> bytes) list \<Rightarrow> bytes \<Rightarrow> bytes option" where
  "lookup_header hs name = map_option snd (find (\<lambda>h. map tolower (fst h) = map tolower name) hs)"

lemma http_find_header_hold:
  assumes "slots_hold mem hs hm" and "ms_len (hm_header_names hm ! length hs) = 0" and "i \<le> length hs"
    and "\<forall>h \<in> set hs. fst h \<noteq> []" and "0 \<notin> set name"
  shows "map_option (map_option ms_bytes) (http_find_header hm name i) = Some (lookup_header (drop i hs) name)"
  using assms(3)
proof (induction "length hs - i" arbitrary: i)
  case 0
  then have i: "i = length hs" by simp
  then have "i < length (hm_header_names hm)" "i < length (hm_header_values hm)" using assms(1) by (auto simp: slots_hold_def)
  then show ?case using assms(2) i by (subst http_find_header.simps) (simp add: lookup_header_def Let_def)
next
  case (Suc d)
  then have i: "i < length hs" by simp
  let ?h = "hm_header_names hm ! i" and ?v = "hm_header_values hm ! i"
  obtain k v where kv: "hs ! i = (k, v)" by (cases "hs ! i")
  have sl: "ms_bytes ?h = k" "ms_bytes ?v = v" "ms_len ?h = length k" "ms_valid ?h" "i < length (hm_header_names hm)"
    "i < length (hm_header_values hm)" using assms(1) i kv by (auto simp: slots_hold_def)
  have ne: "k \<noteq> []" using assms(4) i kv nth_mem [OF i] by auto
  have d: "drop i hs = (k, v) # drop (Suc i) hs" using Cons_nth_drop_Suc [OF i] kv by simp
  let ?cmp = "if ms_len ?h = length name then mg_ncasecmp (drop (ms_p ?h) (ms_mem ?h)) (name @ [0]) (length name) else Some 1"
  have "\<exists>r. ?cmp = Some r \<and> (r = 0 \<longleftrightarrow> map tolower k = map tolower name)"
  proof (cases "length k = length name")
    case True
    then have t: "take (length name) (drop (ms_p ?h) (ms_mem ?h)) = k" using sl(1,3) by (simp add: ms_bytes_def bslice_def)
    have "length name \<le> length (drop (ms_p ?h) (ms_mem ?h))" using True sl(3,4) by (simp add: ms_valid_def)
    then show ?thesis using True sl(3) t assms(5) ncasecmp_eq [of "length name" "drop (ms_p ?h) (ms_mem ?h)" name "[0]"] by auto
  next
    case False
    then have "map tolower k \<noteq> map tolower name" by (metis length_map)
    then show ?thesis using sl(3) False by simp
  qed
  then obtain r where r: "?cmp = Some r" "r = 0 \<longleftrightarrow> map tolower k = map tolower name" by blast
  have un: "http_find_header hm name i = (if r = 0 then Some (Some ?v) else http_find_header hm name (i + 1))"
    using sl(3,5,6) ne r(1) by (subst http_find_header.simps) (simp add: Let_def)
  show ?case
  proof (cases "r = 0")
    case True
    then show ?thesis using un r(2) sl(2) by (simp add: d lookup_header_def)
  next
    case False
    then show ?thesis using un r(2) Suc.hyps by (simp add: d lookup_header_def)
  qed
qed

lemma header_list_hold:
  assumes "slots_hold mem hs hm" and "ms_len (hm_header_names hm ! length hs) = 0" and "\<forall>h \<in> set hs. fst h \<noteq> []"
  shows "header_list hm = hs"
proof -
  let ?n = "hm_header_names hm" and ?l = "length hs"
  have sl: "?l < length ?n" "?l < length (hm_header_values hm)"
    "\<And>j. j < ?l \<Longrightarrow> ms_bytes (?n ! j) = fst (hs ! j) \<and> ms_bytes (hm_header_values hm ! j) = snd (hs ! j) \<and>
       ms_len (?n ! j) = length (fst (hs ! j))" using assms(1) by (auto simp: slots_hold_def)
  have "takeWhile (\<lambda>k. ms_len k \<noteq> 0) ?n = take ?l ?n"
    using sl assms(2,3) by (intro takeWhile_eq_take_P_nth) (auto simp: nth_mem)
  then show ?thesis
    unfolding header_list_def using sl by (intro nth_equalityI) (auto simp: prod_eq_iff)
qed

lemma request_line_parsed:
  assumes "drop s mem = request_line m u q pr @ d @ r" and "request_ok m u q pr hs" and "\<forall>c \<in> set d. c = 13 \<or> c = 10"
    and "d \<noteq> []" and "s + length (request_line m u q pr) + length d \<le> fin" and "fin \<le> length mem"
    and "s + length (request_line m u q pr) + length d = fin \<or> (\<exists>x t. r = x # t \<and> text_char x)"
  shows "\<exists>hm'. http_request_line mem s fin hm = Some (Some (s + length (request_line m u q pr) + length d, hm')) \<and>
    same_slots hm' hm \<and> hm_body hm' = hm_body hm \<and> hm_message hm' = hm_message hm \<and>
    ms_bytes (hm_method hm') = m \<and> ms_valid (hm_method hm') \<and> ms_len (hm_method hm') = length m \<and> ms_bytes (hm_uri hm') = u \<and>
    ms_valid (hm_uri hm') \<and> ms_mem (hm_uri hm') = mem \<and> ms_p (hm_uri hm') = s + length m + 1 \<and> ms_bytes (hm_proto hm') = pr \<and>
    ms_bytes (hm_query_string hm') = (case q of None \<Rightarrow> ms_bytes (hm_query_string hm) | Some x \<Rightarrow> x)"
proof -
  let ?t = "target_text u q"
  have ok: "text_word m" "text_word u" "0x3F \<notin> set u" "\<forall>c \<in> set pr. text_char c" "pr \<noteq> []" "hd pr \<noteq> 0x20"
    and okq: "\<forall>c \<in> set (case q of None \<Rightarrow> [] | Some x \<Rightarrow> x). text_char c \<and> c \<noteq> 0x20"
    using assms(2) by (simp_all add: request_ok_def split: option.splits)
  have "text_char 0x3F" by (simp add: text_char_def head_char_def is_print_def)
  then have okt: "\<forall>c \<in> set ?t. text_char c \<and> c \<noteq> 0x20"
    using ok(2) okq by (cases q) (simp_all add: target_text_def text_word_def ball_Un)
  obtain p0 p' where p0: "pr = p0 # p'" using ok(5) by (cases pr) auto
  obtain u0 u' where u0: "?t = u0 # u'" using ok(2) by (cases u) (auto simp: target_text_def text_word_def)
  have sp: "\<not> is_delim (str '' '') c" if "text_char c" "c \<noteq> 0x20" for c using that text_char_not0 by (auto simp: space_delim)
  have d1: "drop s mem = m @ [0x20] @ (?t @ 0x20 # pr @ d @ r)" using assms(1) by (simp add: request_line_def)
  have 1: "mg_skip mem s fin (str '' '') = Some (\<lparr>ms_mem = mem, ms_p = s, ms_len = length m\<rparr>, s + length m + 1)"
    using mg_skip_ahead [OF d1, of "str '' ''" fin] ok(1) okt sp u0 assms(5,6)
    by (auto simp: text_word_def space_delim request_line_def)
  have d2: "drop (s + length m + 1) mem = ?t @ [0x20] @ (pr @ d @ r)"
    using drop_past [of s mem "m @ [0x20]" "?t @ 0x20 # pr @ d @ r" "length m + 1"] d1 by (simp add: add.assoc)
  let ?p2 = "s + length m + 1 + length ?t + 1"
  have 2: "mg_skip mem (s + length m + 1) fin (str '' '') = Some (\<lparr>ms_mem = mem, ms_p = s + length m + 1, ms_len = length ?t\<rparr>, ?p2)"
    using mg_skip_ahead [OF d2, of "str '' ''" fin] ok(4,6) okt sp p0 assms(5,6)
    by (auto simp: space_delim request_line_def)
  have d3: "drop ?p2 mem = pr @ d @ r"
    using drop_past [of "s + length m + 1" mem "?t @ [0x20]" "pr @ d @ r" "length ?t + 1"] d2 by (simp add: add.assoc)
  have 3: "mg_skip mem ?p2 fin crlf = Some (\<lparr>ms_mem = mem, ms_p = ?p2, ms_len = length pr\<rparr>, ?p2 + length pr + length d)"
    using ok(4) assms(3-7) text_no_delim
    by (intro mg_skip_ahead [OF d3]) (auto simp: request_line_def simp del: crlf_delim, auto)
  have bm: "bslice mem s (length m) = m" using d1 by (simp add: bslice_def)
  have bt: "bslice mem (s + length m + 1) (length ?t) = ?t" using d2 by (simp add: bslice_def)
  have bp: "bslice mem ?p2 (length pr) = pr" using d3 by (simp add: bslice_def)
  have bu: "bslice mem (s + length m + 1) (length u) = u" using d2 by (simp add: bslice_def target_text_def)
  have fits: "s + length m + 1 + length ?t + 1 + length pr \<le> length mem" using assms(5,6) by (simp add: request_line_def)
  let ?T = "\<lparr>ms_mem = mem, ms_p = s + length m + 1, ms_len = length ?t\<rparr>"
  have fin_pos: "?p2 + length pr + length d = s + length (request_line m u q pr) + length d" by (simp add: request_line_def)
  show ?thesis
  proof (cases q)
    case None
    then have "c_memchr 0x3F (ms_bytes ?T) = None" using bt ok(3) by (simp add: ms_bytes_def c_memchr_def target_text_def)
    then show ?thesis using 1 2 3 bm bp bu fits None fin_pos
      by (simp add: http_request_line_def same_slots_def ms_bytes_def ms_valid_def target_text_def)
  next
    case (Some x)
    have "takeWhile (\<lambda>c. c \<noteq> 0x3F) (u @ 0x3F # x) = u" using ok(3) by (induction u) auto
    then have mc: "c_memchr 0x3F (ms_bytes ?T) = Some (length u)" using bt Some by (simp add: ms_bytes_def c_memchr_def target_text_def)
    have "drop (s + length m + 1 + (length u + 1)) mem = x @ [0x20] @ pr @ d @ r"
      using drop_past [of "s + length m + 1" mem "u @ [0x3F]" "x @ [0x20] @ pr @ d @ r" "length u + 1"] d2 Some
      by (simp add: target_text_def)
    then have bx: "bslice mem (s + length m + 1 + (length u + 1)) (length x) = x" by (simp add: bslice_def)
    then show ?thesis using 1 2 3 bm bp bu fits Some fin_pos mc
      by (simp add: http_request_line_def same_slots_def ms_bytes_def ms_valid_def target_text_def add.assoc)
  qed
qed

text \<open>What a parsed request looks like.\<close>

definition request_parsed ::
  "bytes \<Rightarrow> nat \<Rightarrow> bytes \<Rightarrow> bytes \<Rightarrow> bytes option \<Rightarrow> bytes \<Rightarrow> (bytes \<times> bytes) list \<Rightarrow> http_message \<Rightarrow> bool"
where
  "request_parsed mem s m u q pr hs hm \<longleftrightarrow>
     (let len = length (request_text m u q pr hs); b = request_body_len m hs in
      ms_bytes (hm_method hm) = m \<and> ms_bytes (hm_uri hm) = u \<and> ms_valid (hm_uri hm) \<and>
      ms_mem (hm_uri hm) = mem \<and> ms_p (hm_uri hm) = s + length m + 1 \<and>
      ms_bytes (hm_query_string hm) = (case q of None \<Rightarrow> [] | Some x \<Rightarrow> x) \<and> ms_bytes (hm_proto hm) = pr \<and>
      header_list hm = hs \<and> slots_hold mem hs hm \<and> ms_len (hm_header_names hm ! length hs) = 0 \<and>
      hm_body hm = \<lparr>ms_mem = mem, ms_p = s + len, ms_len = b\<rparr> \<and>
      hm_message hm = \<lparr>ms_mem = mem, ms_p = s, ms_len = (if b = SIZE_MAX then SIZE_MAX else len + b)\<rparr>)"

lemma ms_str_eqI: "ms_mem x = a \<Longrightarrow> ms_p x = b \<Longrightarrow> ms_len x = c \<Longrightarrow> x = \<lparr>ms_mem = a, ms_p = b, ms_len = c\<rparr>"
  by simp

lemma text_lines_request:
  assumes "request_ok m u q pr hs"
  shows "text_lines (request_line m u q pr # map header_line hs)"
proof -
  have t: "text_char 0x20" "text_char 0x3F" "text_char 0x3A" by (simp_all add: text_char_def head_char_def is_print_def)
  have "\<forall>c \<in> set (request_line m u q pr). text_char c"
    using assms t by (cases q) (simp_all add: request_ok_def request_line_def target_text_def text_word_def ball_Un)
  moreover have "\<forall>c \<in> set (header_line h). text_char c" "header_line h \<noteq> []" if "h \<in> set hs" for h
  proof -
    have "header_name_ok (fst h)" "header_value_ok (snd h)" using assms that by (auto simp: request_ok_def headers_ok_def)
    then show "\<forall>c \<in> set (header_line h). text_char c" "header_line h \<noteq> []"
      using t by (simp_all add: header_line_def header_name_ok_def header_value_ok_def text_word_def ball_Un str_def ch_def)
  qed
  ultimately show ?thesis by (auto simp: text_lines_def request_line_def)
qed

lemma http_no_body_request:
  assumes "ms_bytes (hm_method hm) = m" and "ms_valid (hm_method hm)" and "ms_len (hm_method hm) < 2 ^ 31"
    and "ms_len (hm_body hm) = declared_length hs SIZE_MAX"
    and "ms_len (hm_message hm) = (if ms_len (hm_body hm) = SIZE_MAX then SIZE_MAX else len + ms_len (hm_body hm))"
  shows "http_no_body (int len) True hm =
    Some (hm\<lparr>hm_body := (hm_body hm)\<lparr>ms_len := request_body_len m hs\<rparr>,
             hm_message := (hm_message hm)\<lparr>ms_len := (if request_body_len m hs = SIZE_MAX then SIZE_MAX else len + request_body_len m hs)\<rparr>\<rparr>)"
proof -
  have z: "0 \<notin> set (str ''PUT'')" "0 \<notin> set (str ''POST'')" by (simp_all add: str_def ch_def)
  obtain x where x: "mg_vcasecmp (hm_method hm) (str ''PUT'') = Some x" "x = 0 \<longleftrightarrow> map tolower m = map tolower (str ''PUT'')"
    using vcasecmp_eq [OF assms(2) z(1) assms(3)] assms(1) by auto
  obtain y where y: "mg_vcasecmp (hm_method hm) (str ''POST'') = Some y" "y = 0 \<longleftrightarrow> map tolower m = map tolower (str ''POST'')"
    using vcasecmp_eq [OF assms(2) z(2) assms(3)] assms(1) by auto
  have s: "SIZE_MAX \<noteq> 0" by (simp add: SIZE_MAX_def)
  have keep: "hm\<lparr>hm_body := (hm_body hm)\<lparr>ms_len := ms_len (hm_body hm)\<rparr>, hm_message := (hm_message hm)\<lparr>ms_len := ms_len (hm_message hm)\<rparr>\<rparr> = hm"
    by simp
  show ?thesis
  proof (cases "ms_len (hm_body hm) = SIZE_MAX")
    case True
    then show ?thesis using assms(4,5) x y s keep
      by (cases "has_body m") (auto simp: http_no_body_def request_body_len_def has_body_def Let_def)
  next
    case False
    then show ?thesis using assms(4,5) keep by (simp add: http_no_body_def request_body_len_def Let_def)
  qed
qed

lemma mg_parse_http_request_text:
  assumes "drop s mem = request_text m u q pr hs @ r" and "request_ok m u q pr hs"
    and "length (request_text m u q pr hs) \<le> n" and "length (request_text m u q pr hs) < 2 ^ 31"
  shows "\<exists>hm. mg_parse_http mem s (int n) True = Some (int (length (request_text m u q pr hs)), hm) \<and>
    request_parsed mem s m u q pr hs hm"
proof -
  let ?len = "length (request_text m u q pr hs)" and ?rl = "request_line m u q pr"
  let ?fin = "s + ?len"
  have pos: "0 < ?len" by (simp add: request_text_def crlf_def)
  have ne: "request_text m u q pr hs \<noteq> []" using pos by auto
  have fin: "?fin \<le> length mem" using ahead_fits [OF assms(1) ne] .
  have len: "mg_http_get_request_len mem s (int n) = Some (int ?len)"
    using req_len_lines [of s 0 mem ?rl "map header_line hs" r n] text_lines_request [OF assms(2)] assms(1,3)
    by (simp add: mg_http_get_request_len_def request_text_def crlf_def)
  obtain c t where m: "m = c # t" "text_char c" "c \<noteq> 0x20" using assms(2) by (cases m) (auto simp: request_ok_def text_word_def)
  have "rd mem s = Some c" using assms(1) m by (intro rd_ahead) (simp add: request_text_def lines_text_def request_line_def)
  then have sk: "skip_while is_space mem s ?fin = Some s" using pos m text_char_space [of c] by (subst skip_while.simps) simp
  let ?d = "if hs = [] then crlf @ crlf else crlf"
  have shape: "request_text m u q pr hs = ?rl @ ?d @ headers_text hs" by (simp add: request_text_def lines_text_def headers_text_def)
  have d: "drop s mem = ?rl @ ?d @ (headers_text hs @ r)" using assms(1) shape by simp
  let ?s1 = "s + length ?rl + length ?d"
  have s1: "?fin = ?s1 + length (headers_text hs)" by (simp add: shape)
  have hok: "headers_ok hs" using assms(2) by (simp add: request_ok_def)
  have nxt: "?s1 = ?fin \<or> (\<exists>x t. headers_text hs @ r = x # t \<and> text_char x)"
  proof (cases hs)
    case Nil
    then show ?thesis using s1 by (simp add: headers_text_def)
  next
    case (Cons h hs')
    obtain x k v where "h = (x # k, v)" "text_char x"
      using hok Cons by (cases h; cases "fst h") (auto simp: headers_ok_def header_name_ok_def text_word_def)
    then show ?thesis using Cons by (simp add: headers_text_def lines_text_def header_line_def)
  qed
  have dd: "\<forall>c \<in> set ?d. c = 13 \<or> c = 10" "?d \<noteq> []" by (auto simp: crlf_def)
  let ?hm = "http_start mem s ?fin"
  obtain hm1 where rl: "http_request_line mem s ?fin ?hm = Some (Some (?s1, hm1))"
    and hm1: "same_slots hm1 ?hm" "hm_body hm1 = hm_body ?hm" "hm_message hm1 = hm_message ?hm" "ms_bytes (hm_method hm1) = m"
      "ms_valid (hm_method hm1)" "ms_len (hm_method hm1) = length m" "ms_bytes (hm_uri hm1) = u" "ms_valid (hm_uri hm1)"
      "ms_mem (hm_uri hm1) = mem" "ms_p (hm_uri hm1) = s + length m + 1"
      "ms_bytes (hm_proto hm1) = pr" "ms_bytes (hm_query_string hm1) = (case q of None \<Rightarrow> ms_bytes (hm_query_string ?hm) | Some x \<Rightarrow> x)"
    using request_line_parsed [OF d assms(2) dd _ fin nxt, of ?hm] s1 by auto
  have st: "hm_body ?hm = \<lparr>ms_mem = mem, ms_p = ?fin, ms_len = SIZE_MAX\<rparr>" "hm_message ?hm = \<lparr>ms_mem = mem, ms_p = s, ms_len = SIZE_MAX\<rparr>"
    "ms_bytes (hm_query_string ?hm) = []" "hm_header_names ?hm = replicate MG_MAX_HTTP_HEADERS null_str"
    "hm_header_values ?hm = replicate MG_MAX_HTTP_HEADERS null_str"
    by (simp_all add: http_start_def zero_hm_def null_str_def ms_bytes_def bslice_def)
  have nm: "hm_header_names hm1 = replicate MG_MAX_HTTP_HEADERS null_str" "hm_header_values hm1 = replicate MG_MAX_HTTP_HEADERS null_str"
    using hm1(1) st(4,5) by (simp_all add: same_slots_def)
  have hl: "length hs < MG_MAX_HTTP_HEADERS" using hok by (simp add: headers_ok_def)
  let ?g = "[] :: (bytes \<times> bytes) list"
  have "\<exists>hm'. http_headers_loop mem ?s1 ?fin ?len (length ?g) hm1 = Some (?fin, hm') \<and> slots_hold mem (?g @ hs) hm' \<and>
    ms_len (hm_header_names hm' ! (length ?g + length hs)) = 0 \<and> hm_line hm' = hm_line hm1 \<and>
    ms_len (hm_body hm') = declared_length hs (ms_len (hm_body hm1)) \<and>
    ms_len (hm_message hm') = (if ms_len (hm_body hm') = SIZE_MAX then SIZE_MAX else ?len + ms_len (hm_body hm'))"
  proof (rule http_headers_loop_ahead)
    show "drop ?s1 mem = headers_text hs @ r" using drop_past [of s mem "?rl @ ?d" "headers_text hs @ r"] d by (simp add: add.assoc)
    show "slots_hold mem ?g hm1" using nm by (simp add: slots_hold_def MG_MAX_HTTP_HEADERS_def)
    show "\<forall>j. length ?g < j \<and> j < MG_MAX_HTTP_HEADERS \<longrightarrow> ms_len (hm_header_names hm1 ! j) = 0"
      using nm by (simp add: null_str_def)
  qed (use s1 fin hok hl assms(4) hm1 st in \<open>simp_all add: MG_MAX_HTTP_HEADERS_def\<close>)
  then obtain hm2 where hd: "mg_http_parse_headers mem ?s1 ?fin ?len hm1 = Some (?fin, hm2)"
    and hm2: "slots_hold mem hs hm2" "ms_len (hm_header_names hm2 ! length hs) = 0" "hm_line hm2 = hm_line hm1"
      "ms_len (hm_body hm2) = declared_length hs SIZE_MAX"
      "ms_len (hm_message hm2) = (if ms_len (hm_body hm2) = SIZE_MAX then SIZE_MAX else ?len + ms_len (hm_body hm2))"
    using hm1(2) st(1) by (auto simp: mg_http_parse_headers_def)
  have ln: "hm_method hm2 = hm_method hm1" "hm_uri hm2 = hm_uri hm1" "hm_proto hm2 = hm_proto hm1"
    "hm_query_string hm2 = hm_query_string hm1" "ms_p (hm_body hm2) = ?fin" "ms_mem (hm_body hm2) = mem"
    "ms_p (hm_message hm2) = s" "ms_mem (hm_message hm2) = mem"
    using hm2(3) hm1(2,3) st(1,2) by (simp_all add: hm_line_def)
  have "length m < 2 ^ 31" using assms(4) by (simp add: request_text_def lines_text_def request_line_def)
  then have nb: "http_no_body (int ?len) True hm2 =
    Some (hm2\<lparr>hm_body := (hm_body hm2)\<lparr>ms_len := request_body_len m hs\<rparr>,
             hm_message := (hm_message hm2)\<lparr>ms_len := (if request_body_len m hs = SIZE_MAX then SIZE_MAX else ?len + request_body_len m hs)\<rparr>\<rparr>)"
    using hm1 ln hm2(4,5) by (intro http_no_body_request) simp_all
  have "\<forall>h \<in> set hs. fst h \<noteq> []" using hok by (auto simp: headers_ok_def header_name_ok_def text_word_def)
  note hlist = header_list_hold [OF hm2(1,2) this]
  let ?r = "hm2\<lparr>hm_body := (hm_body hm2)\<lparr>ms_len := request_body_len m hs\<rparr>,
             hm_message := (hm_message hm2)\<lparr>ms_len := (if request_body_len m hs = SIZE_MAX then SIZE_MAX else ?len + request_body_len m hs)\<rparr>\<rparr>"
  have "mg_parse_http mem s (int n) True = Some (int ?len, ?r)"
    using len pos sk rl hd nb by (simp add: mg_parse_http_def Let_def)
  moreover have "request_parsed mem s m u q pr hs ?r"
    using hm1 ln hm2 hlist st(3) by (simp add: request_parsed_def slots_hold_def header_list_def Let_def split: option.splits)
  ultimately show ?thesis by blast
qed

section \<open>What the parser gets wrong\<close>

text \<open>A negative content length is taken: the body is said to be nearly \<open>2 ^ 64\<close> bytes long, and the length
  of the whole message wraps around to less than that of its head, so that it counts as complete.\<close>

lemma http_negative_length:
  assumes "drop p mem = content_length_name @ str '': '' @ ch (CHR ''-'') # ds @ 13 # r"
    and "\<forall>c \<in> set ds. is_digit c" and "0 < digits_value 0 ds" and "digits_value 0 ds \<le> int len" and "len < 2 ^ 31"
  shows "http_note_length mem len \<lparr>ms_mem = mem, ms_p = p, ms_len = 14\<rparr>
      \<lparr>ms_mem = mem, ms_p = p + 16, ms_len = length ds + 1\<rparr> hm =
    Some (hm\<lparr>hm_body := (hm_body hm)\<lparr>ms_len := 2 ^ 64 - nat (digits_value 0 ds)\<rparr>,
             hm_message := (hm_message hm)\<lparr>ms_len := len - nat (digits_value 0 ds)\<rparr>\<rparr>)"
proof -
  let ?d = "digits_value 0 ds"
  have l: "length content_length_name = 14" by (simp add: content_length_name_def)
  have z: "0 \<notin> set content_length_name" by (simp add: content_length_name_def str_def ch_def)
  obtain x where x: "mg_ncasecmp (drop p mem) (content_length_name @ [0]) 14 = Some x" "x = 0"
    using ncasecmp_eq [of 14 "drop p mem" content_length_name "[0]"] assms(1) z l by auto
  have "drop (p + 16) mem = ch (CHR ''-'') # ds @ 13 # r"
    using drop_past [of p mem "content_length_name @ str '': ''" "ch (CHR ''-'') # ds @ 13 # r" 16] assms(1) l by simp
  moreover have "strto_digits (ds @ 13 # r) 0 = Some ?d"
    by (rule strto_digits_value [OF assms(2)]) (simp add: is_digit_def ch_def)
  ultimately have n: "c_strtoll (drop (p + 16) mem) = Some (- ?d)"
    using assms(4,5) by (simp add: c_strtoll_def is_space_def ch_def)
  have "(- ?d) mod 2 ^ 64 = 2 ^ 64 - ?d"
  proof -
    have "(- ?d) mod 2 ^ 64 = (2 ^ 64 - ?d) mod 2 ^ 64" by (metis add.commute diff_conv_add_uminus mod_add_self2)
    also have "\<dots> = 2 ^ 64 - ?d" using assms(3,4,5) by (intro mod_pos_pos_trivial) simp_all
    finally show ?thesis .
  qed
  then have b: "nat ((- ?d) mod 2 ^ 64) = 2 ^ 64 - nat ?d" using assms(3,4,5) by (simp add: nat_diff_distrib)
  have "(len + (2 ^ 64 - nat ?d)) mod 2 ^ 64 = len - nat ?d"
  proof -
    have "len + (2 ^ 64 - nat ?d) = (len - nat ?d) + 2 ^ 64" using assms(3,4,5) by (simp add: nat_le_iff)
    then have "(len + (2 ^ 64 - nat ?d)) mod 2 ^ 64 = (len - nat ?d) mod 2 ^ 64" by (metis mod_add_self2)
    then show ?thesis using assms(5) by simp
  qed
  with x n b show ?thesis by (simp add: http_note_length_def Let_def)
qed

text \<open>Any header whose name starts with \<open>Content-Length\<close> sets the length.\<close>

lemma http_length_by_prefix:
  assumes "drop p mem = (content_length_name @ x) @ 0x3A # 0x20 # v @ t # r" and "header_name_ok (content_length_name @ x)"
    and "\<forall>c \<in> set v. is_digit c" and "v \<noteq> []" and "digits_value 0 v < 2 ^ 62" and "\<not> is_digit t" and "len < 2 ^ 31"
  shows "http_note_length mem len \<lparr>ms_mem = mem, ms_p = p, ms_len = length (content_length_name @ x)\<rparr>
      \<lparr>ms_mem = mem, ms_p = p + length (content_length_name @ x) + 2, ms_len = length v\<rparr> hm =
    Some (hm\<lparr>hm_body := (hm_body hm)\<lparr>ms_len := nat (digits_value 0 v)\<rparr>,
             hm_message := (hm_message hm)\<lparr>ms_len := len + nat (digits_value 0 v)\<rparr>\<rparr>)"
proof -
  have "names_length (content_length_name @ x)" by (simp add: names_length_def length_content_length_name)
  then show ?thesis using http_note_length_ahead [OF assms(1,2) _ assms(6,7), of hm] assms(3-5) by simp
qed

text \<open>A line without a colon becomes part of the name of the header in the next line.\<close>

lemma http_line_without_colon:
  assumes "drop p mem = a @ crlf @ k @ str '': '' @ v @ crlf @ crlf" and "header_name_ok a" and "header_name_ok k"
    and "header_value_ok v"
  shows "\<exists>K V. http_header_at mem p (length mem) = Some (K, V, length mem) \<and> ms_bytes K = a @ crlf @ k \<and> ms_bytes V = v"
proof -
  let ?k = "a @ crlf @ k"
  have dk: "drop p mem = ?k @ str '': '' @ v @ crlf @ crlf" using assms(1) by simp
  obtain v0 v' where v0: "v = v0 # v'" using assms(4) by (cases v) (auto simp: header_value_ok_def)
  have l: "length mem = p + length ?k + 2 + length v + 4"
    using arg_cong [OF dk, of length] assms(2) by (simp add: crlf_def header_name_ok_def text_word_def)
  have s1: "mg_skip mem p (length mem) (str '': '') = Some (\<lparr>ms_mem = mem, ms_p = p, ms_len = length ?k\<rparr>, p + length ?k + length (str '': ''))"
  proof (rule mg_skip_ahead [OF dk])
    show "\<forall>c \<in> set ?k. \<not> is_delim (str '': '') c"
      using assms(2,3) text_char_not0 by (auto simp: header_name_ok_def text_word_def colon_delim crlf_def)
    show "\<forall>c \<in> set (str '': ''). is_delim (str '': '') c" by (simp add: is_delim_def)
    have "\<not> is_delim (str '': '') v0" using assms(4) v0 text_char_not0 by (auto simp: header_value_ok_def colon_delim)
    then show "p + length ?k + length (str '': '') = length mem \<or> (\<exists>x r'. v @ crlf @ crlf = x # r' \<and> \<not> is_delim (str '': '') x)"
      using v0 by auto
  qed (use l in simp_all)
  have dv: "drop (p + length ?k + 2) mem = v @ (crlf @ crlf) @ []"
    using drop_past [of p mem "?k @ str '': ''" "v @ crlf @ crlf" "length ?k + 2"] dk by (simp add: add.assoc)
  have s2: "mg_skip mem (p + length ?k + 2) (length mem) crlf =
      Some (\<lparr>ms_mem = mem, ms_p = p + length ?k + 2, ms_len = length v\<rparr>, p + length ?k + 2 + length v + length (crlf @ crlf))"
  proof (rule mg_skip_ahead [OF dv])
    show "\<forall>c \<in> set v. \<not> is_delim crlf c" using assms(4) text_no_delim by (auto simp: header_value_ok_def)
    show "\<forall>c \<in> set (crlf @ crlf). is_delim crlf c" by (simp add: is_delim_def)
  qed (use l in \<open>simp_all add: crlf_def\<close>)
  have "http_trim mem (p + length ?k + 2) (length v) = Some (length v)"
  proof (rule http_trim_all)
    have "mem ! (p + length ?k + 2 + (length v - 1)) = last v"
      using dv v0 l by (metis append_Cons diff_less last_conv_nth length_Cons length_greater_0_conv list.distinct(1) nth_append nth_drop zero_less_one le_add1 le_trans)
    then show "mem ! (p + length ?k + 2 + length v - 1) \<noteq> 0x20" using assms(4) v0 by (auto simp: header_value_ok_def)
  qed (use l v0 in simp_all)
  moreover have "bslice mem p (length ?k) = ?k" "bslice mem (p + length ?k + 2) (length v) = v"
    using dk dv by (simp_all add: bslice_def)
  ultimately show ?thesis using s1 s2 l by (simp add: http_header_at_def ms_bytes_def crlf_def)
qed

text \<open>The number of a response may be looked for behind the end of the data.\<close>

lemma http_status_overread:
  "mg_parse_http [88, 32, 13, 13, 13, 32, 13, 10, 13, 10] 0 10 False = None"
proof -
  let ?m = "[88, 32, 13, 13, 13, 32, 13, 10, 13, 10] :: bytes"
  have "http_req_len_loop ?m 0 10 0 = Some 10"
    by (simp add: http_req_len_loop.simps rd_def is_print_def)
  then have "mg_http_get_request_len ?m 0 10 = Some 10" by (simp add: mg_http_get_request_len_def)
  moreover have "skip_while is_space ?m 0 10 = Some 0" by (simp add: skip_while.simps rd_def is_space_def)
  moreover have "mg_skip ?m 0 10 (str '' '') = Some (\<lparr>ms_mem = ?m, ms_p = 0, ms_len = 1\<rparr>, 2)"
    by (simp add: mg_skip_def skip_while.simps rd_def space_delim)
  moreover have "c_atoi (drop 2 ?m) = None" by (simp add: c_atoi_def c_strtoll_def is_space_def)
  ultimately show ?thesis by (simp add: mg_parse_http_def Let_def http_status_line_def rd_def)
qed

section \<open>Parsing gives back what was written\<close>

text \<open>C3.
  A request is parsed as it was written: of any bytes, at most \<open>INT_MAX\<close>, that start with the text of a request, a method, a
  path with or without a query, a protocol and at most 19 headers, each with a name and a value, the parser finds the end of the head
  and gives the method, the path, the query, the protocol and the headers in order.  No header but \<open>Content-Length\<close> itself has a name
  that starts so; the length of the body is the one it declares, and without it none for a method other than PUT and POST and
  \<open>SIZE_MAX\<close> for these.  Looking a header up, in any case, finds the first with that name.\<close>

theorem mg_parse_http_request:
  assumes "drop s mem = request_text m u q pr hs @ r" and "request_ok m u q pr hs"
    and "length (request_text m u q pr hs) \<le> n" and "n \<le> INT_MAX" and "0 \<notin> set name"
  shows "\<exists>hm. mg_parse_http mem s (int n) True = Some (int (length (request_text m u q pr hs)), hm) \<and>
    ms_bytes (hm_method hm) = m \<and> ms_bytes (hm_uri hm) = u \<and>
    ms_bytes (hm_query_string hm) = (case q of None \<Rightarrow> [] | Some x \<Rightarrow> x) \<and> ms_bytes (hm_proto hm) = pr \<and>
    header_list hm = hs \<and> map_option (map_option ms_bytes) (mg_get_http_header hm name) = Some (lookup_header hs name) \<and>
    hm_body hm = \<lparr>ms_mem = mem, ms_p = s + length (request_text m u q pr hs), ms_len = request_body_len m hs\<rparr>"
proof -
  obtain hm where hm: "mg_parse_http mem s (int n) True = Some (int (length (request_text m u q pr hs)), hm)"
    "request_parsed mem s m u q pr hs hm" using mg_parse_http_request_text [OF assms(1-3)] assms(3,4) by (auto simp: INT_MAX_def)
  have "\<forall>h \<in> set hs. fst h \<noteq> []" using assms(2) by (auto simp: request_ok_def headers_ok_def header_name_ok_def text_word_def)
  then have "map_option (map_option ms_bytes) (mg_get_http_header hm name) = Some (lookup_header hs name)"
    using http_find_header_hold [of mem hs hm 0 name] hm(2) assms(5) by (simp add: request_parsed_def mg_get_http_header_def Let_def)
  with hm show ?thesis by (simp add: request_parsed_def Let_def)
qed

definition demo_headers :: "(bytes \<times> bytes) list" where
  "demo_headers = [(str ''Host'', str ''a''), (str ''Content-Length'', str ''3'')]"

definition demo_request :: bytes where
  "demo_request = request_text (str ''POST'') (str ''/a'') (Some (str ''k'')) (str ''HTTP/1.1'') demo_headers"

lemmas ok_simps = request_ok_def headers_ok_def header_name_ok_def header_value_ok_def text_word_def text_char_def head_char_def
  is_print_def is_digit_def names_length_def is_length_name_def content_length_name_def tolower_def demo_headers_def str_def ch_def MG_MAX_HTTP_HEADERS_def

theorem mg_parse_http_request_witness:
  "\<exists>hm. mg_parse_http (demo_request @ str ''xyz'') 0 (int 56) True = Some (int (length demo_request), hm) \<and>
    ms_bytes (hm_method hm) = str ''POST'' \<and> ms_bytes (hm_uri hm) = str ''/a'' \<and>
    ms_bytes (hm_query_string hm) = (case Some (str ''k'') of None \<Rightarrow> [] | Some x \<Rightarrow> x) \<and>
    ms_bytes (hm_proto hm) = str ''HTTP/1.1'' \<and> header_list hm = demo_headers \<and>
    map_option (map_option ms_bytes) (mg_get_http_header hm (str ''hOST'')) = Some (lookup_header demo_headers (str ''hOST'')) \<and>
    hm_body hm = \<lparr>ms_mem = demo_request @ str ''xyz'', ms_p = 0 + length demo_request, ms_len = request_body_len (str ''POST'') demo_headers\<rparr>"
  unfolding demo_request_def
proof (rule mg_parse_http_request)
  show "request_ok (str ''POST'') (str ''/a'') (Some (str ''k'')) (str ''HTTP/1.1'') demo_headers"
    by (simp add: ok_simps schar_def)
  show "0 \<notin> set (str ''hOST'')" by (simp add: str_def ch_def)
qed (simp_all add: request_text_def lines_text_def request_line_def target_text_def header_line_def demo_headers_def crlf_def
    INT_MAX_def)

end
