(* ===== verification/HttpConn.thy ===== *)
theory HttpConn imports Http begin

text \<open>
  HTTP connections (\<open>src/mongoose/mongoose.c\<close>, section \<open>mongoose/src/http.c\<close>): chunked bodies and their reassembly in the
  receive buffer, the endpoints of a listener, sending and receiving a file, and the protocol handler \<open>mg_http_handler\<close>, which
  parses what has been received, raises the events of HTTP and hands a connection over to WebSocket.

  The handlers of the user are numbers into a table; a connection has the number of its own, an endpoint that of its.  A string of a message points
  into the receive buffer; \<open>hm_in\<close> is the message as it reads when the buffer has changed.  \<open>None\<close> stands for an access
  outside a block, a pointer into a block that has been freed, and a failed assertion.  Reading and writing files are the functions
  \<open>he_fread\<close> and \<open>he_fwrite\<close> of the environment: how many bytes of those asked for are transferred.  As by
  default on Unix, the file system and CGI are on, streaming of multipart bodies and the JavaScript engine are off.

  The two properties follow a request from the bytes that arrive to the event that is raised, whether its body comes with a length or in
  chunks; the chunks may be cut into pieces at any place.  In both, the request is the first on its connection, the handlers of the
  user leave the receive buffer, the protocol data and the flags alone, and the request does not switch to WebSocket.  A section states the flaws that the model shows in the reassembly.
\<close>

section \<open>Chunks\<close>

text \<open>The value of a hexadecimal digit.\<close>

definition chunk_digit :: "u8 \<Rightarrow> nat" where
  "chunk_digit c = (if 0x30 \<le> c \<and> c \<le> 0x39 then unat c - 0x30 else unat (tolower c) - 0x61 + 10)"

text \<open>The length of the chunk at \<open>buf\<close>, in 64 bits: the index behind the digits and the number.\<close>

function chunk_scan :: "bytes \<Rightarrow> nat \<Rightarrow> nat \<Rightarrow> nat \<Rightarrow> nat \<Rightarrow> (nat \<times> nat) option" where
  "chunk_scan mem buf len i n =
     (if i < len then do {
        c \<leftarrow> rd mem (buf + i);
        if is_xdigit c then chunk_scan mem buf len (i + 1) ((n * 16 + chunk_digit c) mod 2 ^ 64) else Some (i, n) }
      else Some (i, n))"
  by pat_completeness auto
termination by (relation "measure (\<lambda>(mem, buf, len, i, n). len - i)") auto

declare chunk_scan.simps [simp del]

text \<open>The test for a line end at index \<open>i\<close>; its bound is computed in 64 bits.\<close>

definition chunk_crlf :: "bytes \<Rightarrow> nat \<Rightarrow> nat \<Rightarrow> nat \<Rightarrow> bool option" where
  "chunk_crlf mem buf len i =
     (if i = 0 \<or> (i + 2) mod 2 ^ 64 > len then Some False
      else do {
        a \<leftarrow> rd mem (buf + i);
        if a \<noteq> 13 then Some False
        else do { b \<leftarrow> rd mem (buf + (i + 1)); Some (b = 10) } })"

text \<open>\<open>mg_http_parse_chunk\<close>: the number of bytes of the chunk, where its data is and its length.\<close>

definition mg_http_parse_chunk :: "bytes \<Rightarrow> nat \<Rightarrow> nat \<Rightarrow> (nat \<times> nat \<times> nat) option" where
  "mg_http_parse_chunk mem buf len = do {
     (i, n) \<leftarrow> chunk_scan mem buf len 0 0;
     ok \<leftarrow> chunk_crlf mem buf len i;
     if \<not> ok then Some (0, 0, 0)
     else do {
       let i = i + 2;
       let data = buf + i;
       let j = (i + n) mod 2 ^ 64;
       ok \<leftarrow> chunk_crlf mem buf len j;
       if \<not> ok then Some (0, data, n) else Some (j + 2, data, n) } }"

lemma chunk_crlf_fits: "chunk_crlf mem buf len i = Some True \<Longrightarrow> length mem < 2 ^ 64 - 2 \<Longrightarrow> i + 2 \<le> len"
  by (auto simp: chunk_crlf_def rd_Some_iff split: if_splits bind_splits)

text \<open>
  The loop of \<open>mg_handle_chunked\<close>: chunks from index \<open>i\<close> on are moved to index \<open>body_len\<close>.  The
  result is the memory, both indices, whether the last chunk was seen, and the length of the body if it was set.
  No chunk is longer than what is left, see \<open>chunk_crlf_fits\<close>; the test for it only shows that the loop ends.
\<close>

function chunk_loop ::
  "bytes \<Rightarrow> nat \<Rightarrow> nat \<Rightarrow> nat \<Rightarrow> nat \<Rightarrow> nat option \<Rightarrow> (bytes \<times> nat \<times> nat \<times> bool \<times> nat option) option"
where
  "chunk_loop mem buf blen i body_len bl =
     (case mg_http_parse_chunk mem (buf + i) (blen - i) of
        None \<Rightarrow> None
      | Some (n, data, data_len) \<Rightarrow>
          if n = 0 then Some (mem, i, body_len, False, bl)
          else if n > blen - i \<or> data + data_len > length mem \<or> buf + body_len + data_len > length mem then None
          else
            let mem = overlay mem (buf + body_len) (bslice mem data data_len); body_len = body_len + data_len in
            if data_len = 0 then Some (mem, i + n, body_len, True, Some body_len)
            else chunk_loop mem buf blen (i + n) body_len (Some body_len))"
  by pat_completeness auto
termination by (relation "measure (\<lambda>(mem, buf, blen, i, body_len, bl). blen - i)") auto

declare chunk_loop.simps [simp del]

definition hex_upper :: bytes where
  "hex_upper = str ''0123456789ABCDEF''"

fun hex_text :: "nat \<Rightarrow> bytes" where
  "hex_text n = (if n < 16 then [hex_upper ! n] else hex_text (n div 16) @ [hex_upper ! (n mod 16)])"

declare hex_text.simps [simp del]

definition mg_send_http_chunk :: "io \<Rightarrow> bytes \<Rightarrow> 'u mg_connection \<Rightarrow> 'u mg_connection" where
  "mg_send_http_chunk io b nc = mg_sends io [hex_text (length b) @ crlf, b, crlf] nc"

section \<open>Connections\<close>

definition MG_MAX_HTTP_SEND_MBUF :: nat where "MG_MAX_HTTP_SEND_MBUF = 1024"
definition MG_MAX_HTTP_REQUEST_SIZE :: nat where "MG_MAX_HTTP_REQUEST_SIZE = 1024"

datatype file_type = DATA_NONE | DATA_FILE | DATA_PUT

text \<open>An open file is what is left of it to read, or what has been written to it.\<close>

record http_file =
  hf_fp :: "bytes option"
  hf_cl :: int
  hf_sent :: int
  hf_keepalive :: bool
  hf_type :: file_type

text \<open>Handlers are numbers into a table; an endpoint is the pattern for its paths and its handler.  The connection to a CGI
  process has as its user data whether it still refers to this connection.\<close>

record http_proto_data =
  pd_file :: http_file
  pd_cgi :: "bool mg_connection option"
  pd_body_len :: nat
  pd_endpoints :: "(bytes \<times> nat) list"
  pd_endpoint_handler :: "nat option"

text \<open>What an HTTP connection has beside the fields of \<open>mg_connection\<close>: the protocol data, the number of
  its user's handler, whether the protocol handler has been replaced by that of WebSocket, and the user's data.\<close>

record 'u http_user =
  hu_pd :: http_proto_data
  hu_handler :: nat
  hu_websocket :: bool
  hu_user :: 'u

datatype http_event =
  HttpRequest http_message | HttpReply http_message | HttpChunk http_message |
  WsHandshakeRequest http_message | WsHandshakeDone | WsMessage ws_event

type_synonym 'u http_conn = "'u http_user mg_connection"
type_synonym 'u http_handlers = "nat \<Rightarrow> (http_event, 'u http_user) handler"

definition upd_pd :: "(http_proto_data \<Rightarrow> http_proto_data) \<Rightarrow> 'u http_conn \<Rightarrow> 'u http_conn" where
  "upd_pd f nc = nc\<lparr>nc_user := (nc_user nc)\<lparr>hu_pd := f (hu_pd (nc_user nc))\<rparr>\<rparr>"

abbreviation conn_pd :: "'u http_conn \<Rightarrow> http_proto_data" where
  "conn_pd nc \<equiv> hu_pd (nc_user nc)"

text \<open>\<open>mg_call\<close> with a handler: only one that is then the connection's own is kept from system flags.\<close>

definition http_call :: "'u http_handlers \<Rightarrow> nat \<Rightarrow> http_event mg_event \<Rightarrow> 'u http_conn \<Rightarrow> 'u http_conn" where
  "http_call hs k ev nc =
     (if hu_handler (nc_user (hs k ev nc)) = k then mg_call_user (Some (hs k)) ev nc else hs k ev nc)"

definition call_own :: "'u http_handlers \<Rightarrow> http_event mg_event \<Rightarrow> 'u http_conn \<Rightarrow> 'u http_conn" where
  "call_own hs ev nc = http_call hs (hu_handler (nc_user nc)) ev nc"

text \<open>The strings of a message as they read in the memory they point into when that has changed.\<close>

definition str_in :: "bytes \<Rightarrow> mg_str \<Rightarrow> mg_str" where
  "str_in mem x = (if x = null_str then x else x\<lparr>ms_mem := mem\<rparr>)"

definition hm_in :: "bytes \<Rightarrow> http_message \<Rightarrow> http_message" where
  "hm_in mem hm = \<lparr>hm_message = str_in mem (hm_message hm), hm_method = str_in mem (hm_method hm),
     hm_uri = str_in mem (hm_uri hm), hm_proto = str_in mem (hm_proto hm), hm_resp_code = hm_resp_code hm,
     hm_resp_status_msg = str_in mem (hm_resp_status_msg hm), hm_query_string = str_in mem (hm_query_string hm),
     hm_header_names = map (str_in mem) (hm_header_names hm), hm_header_values = map (str_in mem) (hm_header_values hm),
     hm_body = str_in mem (hm_body hm)\<rparr>"

section \<open>Reassembling a chunked body\<close>

definition sub_len :: "nat \<Rightarrow> 'u http_conn \<Rightarrow> 'u http_conn" where
  "sub_len k nc = nc\<lparr>nc_recv := (nc_recv nc)\<lparr>mb_len := nat ((int (mb_len (nc_recv nc)) - int k) mod 2 ^ 64)\<rparr>\<rparr>"

definition put_mem :: "bytes \<Rightarrow> 'u http_conn \<Rightarrow> 'u http_conn" where
  "put_mem mem nc = nc\<lparr>nc_recv := (nc_recv nc)\<lparr>mb_mem := mem\<rparr>\<rparr>"

definition body_len_to :: "nat \<Rightarrow> http_message \<Rightarrow> http_message" where
  "body_len_to n hm = hm\<lparr>hm_body := (hm_body hm)\<lparr>ms_len := n\<rparr>\<rparr>"

text \<open>\<open>MG_F_DELETE_CHUNK\<close>, set by the handler: the body is removed from behind the head.\<close>

definition chunk_delete :: "nat \<Rightarrow> nat \<Rightarrow> nat \<Rightarrow> nat \<Rightarrow> http_message \<Rightarrow> 'u http_conn \<Rightarrow> (http_message \<times> 'u http_conn) option" where
  "chunk_delete addr buf body_len left hm nc =
     (if has_flag nc MG_F_DELETE_CHUNK then do {
        mem \<leftarrow> ws_block addr nc;
        if buf + body_len + left > length mem then None
        else
          let mem = overlay mem buf (replicate body_len 0);
              mem = overlay mem buf (bslice mem (buf + body_len) left)
          in Some (body_len_to 0 hm, upd_pd (\<lambda>pd. pd\<lparr>pd_body_len := 0\<rparr>) (sub_len body_len (put_mem mem nc))) }
      else Some (hm, nc))"

text \<open>\<open>mg_handle_chunked\<close> on \<open>blen\<close> bytes at \<open>buf\<close> of the receive buffer.  A failed assertion is \<open>None\<close>.\<close>

definition mg_handle_chunked ::
  "'u http_handlers \<Rightarrow> http_message \<Rightarrow> nat \<Rightarrow> nat \<Rightarrow> 'u http_conn \<Rightarrow> (nat \<times> http_message \<times> 'u http_conn) option"
where
  "mg_handle_chunked hs hm buf blen nc = do {
     let body_len = pd_body_len (conn_pd nc);
     if blen < body_len then None
     else do {
       (mem, i, body_len, zero, bl) \<leftarrow> chunk_loop (mb_mem (nc_recv nc)) buf blen body_len body_len None;
       let hm = (case bl of None \<Rightarrow> hm | Some b \<Rightarrow> body_len_to b hm);
       if i > body_len then
         if i > blen \<or> buf + blen > length mem then None
         else do {
           let addr = mb_addr (nc_recv nc);
           let mem = overlay mem (buf + body_len) (bslice mem (buf + i) (blen - i));
           let mem = overlay mem (buf + body_len + blen - i) (replicate (i - body_len) 0);
           let nc = upd_pd (\<lambda>pd. pd\<lparr>pd_body_len := body_len\<rparr>) (sub_len (i - body_len) (put_mem mem nc));
           let nc = call_own hs (EvProto (HttpChunk (hm_in mem hm))) (clear_flag MG_F_DELETE_CHUNK nc);
           (hm, nc) \<leftarrow> chunk_delete addr buf body_len (blen - i) hm nc;
           let hm = (if zero
                     then hm\<lparr>hm_message := (hm_message hm)\<lparr>ms_len :=
                            pd_body_len (conn_pd nc) + (blen - i) + (ms_p (hm_body hm) - ms_p (hm_message hm))\<rparr>\<rparr>
                     else hm);
           Some (body_len, hm, nc) }
       else Some (body_len, hm, put_mem mem nc) } }"

section \<open>Endpoints\<close>

text \<open>The loop over the endpoints: the longest match so far and its handler.\<close>

fun endpoint_loop :: "mg_str \<Rightarrow> (bytes \<times> nat) list \<Rightarrow> int \<Rightarrow> nat option \<Rightarrow> nat option option" where
  "endpoint_loop uri [] matched_max ret = Some ret"
| "endpoint_loop uri ((name, h) # eps) matched_max ret = do {
     matched \<leftarrow> mg_match_prefix_n (mg_mk_str name) uri;
     if matched \<noteq> -1 \<and> matched > matched_max then endpoint_loop uri eps matched (Some h)
     else endpoint_loop uri eps matched_max ret }"

text \<open>A connection without a listener is a client.\<close>

record http_env =
  he_io :: io
  he_listener :: "(bytes \<times> nat) list option"
  he_fread :: "nat \<Rightarrow> bytes \<Rightarrow> nat"
  he_fwrite :: "bytes \<Rightarrow> nat"
  he_sha_ctx :: cs_sha1_ctx
  he_mask :: u32

definition mg_http_get_endpoint_handler :: "http_env \<Rightarrow> mg_str \<Rightarrow> nat option option" where
  "mg_http_get_endpoint_handler env uri_path =
     (case he_listener env of None \<Rightarrow> Some None | Some eps \<Rightarrow> endpoint_loop uri_path eps 0 None)"

text \<open>The event is a request or a reply.\<close>

definition mg_http_call_endpoint_handler ::
  "http_env \<Rightarrow> 'u http_handlers \<Rightarrow> bool \<Rightarrow> http_message \<Rightarrow> 'u http_conn \<Rightarrow> 'u http_conn option"
where
  "mg_http_call_endpoint_handler env hs request hm nc = do {
     eh \<leftarrow> (if pd_endpoint_handler (conn_pd nc) = None \<or> request
            then (if request then mg_http_get_endpoint_handler env (hm_uri hm) else Some None)
            else Some (pd_endpoint_handler (conn_pd nc)));
     let nc = upd_pd (\<lambda>pd. pd\<lparr>pd_endpoint_handler := eh\<rparr>) nc;
     Some (http_call hs (case eh of Some k \<Rightarrow> k | None \<Rightarrow> hu_handler (nc_user nc))
             (EvProto (if request then HttpRequest hm else HttpReply hm)) nc) }"

section \<open>Sending and receiving files\<close>

definition no_file :: http_file where
  "no_file = \<lparr>hf_fp = None, hf_cl = 0, hf_sent = 0, hf_keepalive = False, hf_type = DATA_NONE\<rparr>"

definition mg_http_free_proto_data_file :: "'u http_conn \<Rightarrow> 'u http_conn" where
  "mg_http_free_proto_data_file nc = upd_pd (\<lambda>pd. pd\<lparr>pd_file := no_file\<rparr>) nc"

definition file_done :: "'u http_conn \<Rightarrow> 'u http_conn" where
  "file_done nc = mg_http_free_proto_data_file
     (if hf_keepalive (pd_file (conn_pd nc)) then nc else set_flag MG_F_SEND_AND_CLOSE nc)"

definition file_to :: "bytes \<Rightarrow> nat \<Rightarrow> 'u http_conn \<Rightarrow> 'u http_conn" where
  "file_to fp n nc = upd_pd (\<lambda>pd. pd\<lparr>pd_file := (pd_file pd)\<lparr>hf_fp := Some fp, hf_sent := hf_sent (pd_file pd) + int n\<rparr>\<rparr>) nc"

definition mg_http_transfer_file_data :: "http_env \<Rightarrow> 'u http_conn \<Rightarrow> 'u http_conn" where
  "mg_http_transfer_file_data env nc =
     (let f = pd_file (conn_pd nc); left = nat ((hf_cl f - hf_sent f) mod 2 ^ 64);
          fp = (case hf_fp f of None \<Rightarrow> [] | Some b \<Rightarrow> b) in
      case hf_type f of
        DATA_FILE \<Rightarrow>
          let room = (if mb_len (nc_send nc) < MG_MAX_HTTP_SEND_MBUF then MG_MAX_HTTP_SEND_MBUF - mb_len (nc_send nc) else 0);
              to_read = (if left > 0 \<and> room > left then left else room);
              n = (if hf_sent f < hf_cl f then min (he_fread env to_read fp) (min to_read (length fp)) else 0) in
          if to_read = 0 then nc
          else if hf_sent f < hf_cl f \<and> n > 0 then file_to (drop n fp) n (mg_send (he_io env) (take n fp) nc)
          else file_done nc
      | DATA_PUT \<Rightarrow>
          let m = nc_recv nc; to_write = (if left < mb_len m then left else mb_len m);
              b = take to_write (mbuf_bytes m); n = min (he_fwrite env b) to_write;
              nc = (if n > 0 then file_to (fp @ take n b) n (nc\<lparr>nc_recv := mbuf_remove m n\<rparr>) else nc) in
          if n = 0 \<or> hf_sent (pd_file (conn_pd nc)) \<ge> hf_cl f then file_done nc else nc
      | DATA_NONE \<Rightarrow>
          (case pd_cgi (conn_pd nc) of
             None \<Rightarrow> nc
           | Some c \<Rightarrow> let (nc, c) = mg_forward (he_io env) nc c in upd_pd (\<lambda>pd. pd\<lparr>pd_cgi := Some c\<rparr>) nc))"

section \<open>The protocol handler\<close>

definition is_req :: "http_env \<Rightarrow> bool" where
  "is_req env \<longleftrightarrow> he_listener env \<noteq> None"

text \<open>On closing, a CGI connection is closed, too, and what has been received counts as the whole message.\<close>

definition close_cgi :: "'u http_conn \<Rightarrow> 'u http_conn" where
  "close_cgi nc =
     upd_pd (\<lambda>pd. pd\<lparr>pd_cgi := map_option (\<lambda>c. set_flag MG_F_CLOSE_IMMEDIATELY (c\<lparr>nc_user := False\<rparr>)) (pd_cgi pd)\<rparr>) nc"

definition http_on_close :: "http_env \<Rightarrow> 'u http_handlers \<Rightarrow> 'u http_conn \<Rightarrow> 'u http_conn option" where
  "http_on_close env hs nc =
     (let nc = close_cgi nc; m = nc_recv nc in
      if mb_len m > 0 then do {
        (r, hm) \<leftarrow> mg_parse_http (mb_mem m) 0 (c_int (int (mb_len m))) (is_req env);
        if r > 0 then
          mg_http_call_endpoint_handler env hs (is_req env)
            (body_len_to (mb_len m - ms_p (hm_body hm)) (hm\<lparr>hm_message := (hm_message hm)\<lparr>ms_len := mb_len m\<rparr>\<rparr>)) nc
        else Some nc }
      else Some nc)"

definition recv_remove :: "nat \<Rightarrow> 'u http_conn \<Rightarrow> 'u http_conn" where
  "recv_remove n nc = nc\<lparr>nc_recv := mbuf_remove (nc_recv nc) n\<rparr>"

text \<open>The user's handler as the WebSocket functions call it.\<close>

definition ws_own :: "'u http_handlers \<Rightarrow> (ws_event, 'u http_user) handler" where
  "ws_own hs ev nc = hs (hu_handler (nc_user nc)) (map_mg_event WsMessage ev) nc"

definition to_websocket :: "nat \<Rightarrow> 'u http_conn \<Rightarrow> 'u http_conn" where
  "to_websocket req_len nc =
     set_flag MG_F_IS_WEBSOCKET ((recv_remove req_len nc)\<lparr>nc_user := (nc_user nc)\<lparr>hu_websocket := True\<rparr>\<rparr>)"

definition http_ws_client ::
  "http_env \<Rightarrow> 'u http_handlers \<Rightarrow> int \<Rightarrow> nat \<Rightarrow> 'u http_conn \<Rightarrow> 'u http_conn option"
where
  "http_ws_client env hs n req_len nc =
     mg_ws_handler (he_io env) (he_mask env) True (ws_own hs) (EvRecv n)
       (call_own hs (EvProto WsHandshakeDone) (to_websocket req_len nc))"

text \<open>The request's strings, the key among them, are read where they were, in a buffer from which the request
  has been removed.\<close>

definition http_ws_server ::
  "http_env \<Rightarrow> 'u http_handlers \<Rightarrow> int \<Rightarrow> nat \<Rightarrow> http_message \<Rightarrow> mg_str \<Rightarrow> 'u http_conn \<Rightarrow> 'u http_conn option"
where
  "http_ws_server env hs n req_len hm vec nc = do {
     let addr = mb_addr (nc_recv nc);
     let nc = to_websocket req_len nc;
     let mem = mb_mem (nc_recv nc);
     eh \<leftarrow> mg_http_get_endpoint_handler env (str_in mem (hm_uri hm));
     let nc = (case eh of None \<Rightarrow> nc | Some k \<Rightarrow> nc\<lparr>nc_user := (nc_user nc)\<lparr>hu_handler := k\<rparr>\<rparr>);
     let nc = call_own hs (EvProto (WsHandshakeRequest (hm_in mem hm))) nc;
     if has_flag nc MG_F_CLOSE_IMMEDIATELY \<or> has_flag nc MG_F_SEND_AND_CLOSE then Some nc
     else do {
       nc \<leftarrow> (if mb_len (nc_send nc) = 0 then do {
                mem \<leftarrow> ws_block addr nc;
                if ms_valid (str_in mem vec)
                then mg_ws_handshake (he_io env) (he_sha_ctx env) (ms_bytes (str_in mem vec)) nc else None }
              else Some nc);
       mg_ws_handler (he_io env) (he_mask env) False (ws_own hs) (EvRecv n) (call_own hs (EvProto WsHandshakeDone) nc) } }"

definition is_chunked :: "http_message \<Rightarrow> bool option" where
  "is_chunked hm = do {
     s \<leftarrow> mg_get_http_header hm (str ''Transfer-Encoding'');
     (case s of None \<Rightarrow> Some False
      | Some v \<Rightarrow> map_option (\<lambda>r. r = 0) (mg_vcasecmp v (str ''chunked''))) }"

text \<open>What \<open>MG_EV_RECV\<close> does after the user's handler has seen it: at most one message is delivered.\<close>

definition http_on_recv ::
  "http_env \<Rightarrow> 'u http_handlers \<Rightarrow> int \<Rightarrow> 'u http_conn \<Rightarrow> 'u http_conn option"
where
  "http_on_recv env hs n nc = do {
     let m = nc_recv nc;
     (req_len, hm) \<leftarrow> mg_parse_http (mb_mem m) 0 (c_int (int (mb_len m))) (is_req env);
     chunked \<leftarrow> (if req_len > 0 then is_chunked hm else Some False);
     (hm, nc) \<leftarrow> (if chunked
                 then map_option snd (mg_handle_chunked hs hm (nat req_len) (mb_len m - nat req_len) nc)
                 else Some (hm, nc));
     mem \<leftarrow> ws_block (mb_addr m) nc;
     let hm = hm_in mem hm;
     if req_len < 0 \<or> req_len = 0 \<and> mb_len (nc_recv nc) \<ge> MG_MAX_HTTP_REQUEST_SIZE
     then Some (set_flag MG_F_CLOSE_IMMEDIATELY nc)
     else if req_len = 0 then Some nc
     else do {
       accept \<leftarrow> (if is_req env then Some None else mg_get_http_header hm (str ''Sec-WebSocket-Accept''));
       key \<leftarrow> (if is_req env then mg_get_http_header hm (str ''Sec-WebSocket-Key'') else Some None);
       (case (accept, key) of
          (Some a, _) \<Rightarrow> http_ws_client env hs n (nat req_len) nc
        | (None, Some vec) \<Rightarrow> http_ws_server env hs n (nat req_len) hm vec nc
        | (None, None) \<Rightarrow>
            if ms_len (hm_message hm) \<le> mb_len (nc_recv nc) then do {
              nc \<leftarrow> mg_http_call_endpoint_handler env hs (is_req env) hm nc;
              Some (recv_remove (ms_len (hm_message hm)) nc) }
            else Some nc) } }"

definition mg_http_handler ::
  "http_env \<Rightarrow> 'u http_handlers \<Rightarrow> http_event mg_event \<Rightarrow> 'u http_conn \<Rightarrow> 'u http_conn option"
where
  "mg_http_handler env hs ev nc = do {
     nc \<leftarrow> (if ev = EvClose then http_on_close env hs nc else Some nc);
     let nc = (if hf_fp (pd_file (conn_pd nc)) \<noteq> None then mg_http_transfer_file_data env nc else nc);
     let nc = call_own hs ev nc;
     (case ev of EvRecv n \<Rightarrow> http_on_recv env hs n nc | _ \<Rightarrow> Some nc) }"

section \<open>Chunks on the wire\<close>

definition chunk_text :: "bytes \<Rightarrow> bytes" where
  "chunk_text d = hex_text (length d) @ crlf @ d @ crlf"

definition chunks_text :: "bytes list \<Rightarrow> bytes" where
  "chunks_text ds = concat (map chunk_text ds)"

lemma hex_upper_digit:
  assumes "k < 16"
  shows "is_xdigit (hex_upper ! k)" "chunk_digit (hex_upper ! k) = k"
proof -
  have "list_all (\<lambda>k. is_xdigit (hex_upper ! k) \<and> chunk_digit (hex_upper ! k) = k) [0..<16]"
    by (simp add: upt_rec hex_upper_def str_def ch_def is_xdigit_def is_digit_def chunk_digit_def tolower_def)
  then show "is_xdigit (hex_upper ! k)" "chunk_digit (hex_upper ! k) = k" using assms by (simp_all add: list_all_iff)
qed

lemma hex_text_nonempty [simp]: "hex_text n \<noteq> []"
  by (subst hex_text.simps) simp

lemma hex_text_digits: "\<forall>c \<in> set (hex_text n). is_xdigit c"
proof (induction n rule: hex_text.induct)
  case (1 n)
  then show ?case by (subst hex_text.simps) (auto simp: hex_upper_digit)
qed

definition hex_value :: "bytes \<Rightarrow> nat" where
  "hex_value ds = fold (\<lambda>c n. n * 16 + chunk_digit c) ds 0"

lemma hex_value_hex_text: "hex_value (hex_text n) = n"
proof (induction n rule: hex_text.induct)
  case (1 n)
  show ?case
  proof (cases "n < 16")
    case True
    then show ?thesis by (subst hex_text.simps) (simp add: hex_value_def hex_upper_digit)
  next
    case False
    with 1 have "hex_value (hex_text (n div 16)) = n div 16" by simp
    with False show ?thesis by (subst hex_text.simps) (simp add: hex_value_def hex_upper_digit)
  qed
qed

lemma chunk_scan_digits:
  assumes "drop (buf + i) mem = ds @ x # r" and "\<forall>c \<in> set ds. is_xdigit c" and "\<not> is_xdigit x" and "i + length ds < len"
    and "n < 2 ^ 64"
  shows "chunk_scan mem buf len i n = Some (i + length ds, fold (\<lambda>c n. n * 16 + chunk_digit c) ds n mod 2 ^ 64)"
  using assms
proof (induction ds arbitrary: i n)
  case Nil
  then have "rd mem (buf + i) = Some x" by (intro rd_ahead) simp
  with Nil show ?case by (subst chunk_scan.simps) simp
next
  case (Cons c ds)
  have r: "rd mem (buf + i) = Some c" using Cons.prems(1) by (intro rd_ahead) simp
  have d: "drop (buf + (i + 1)) mem = ds @ x # r" using drop_past [of "buf + i" mem "[c]" "ds @ x # r" 1] Cons.prems(1) by simp
  have m: "fold (\<lambda>c n. n * 16 + chunk_digit c) ds (a mod 2 ^ 64) mod 2 ^ 64 = fold (\<lambda>c n. n * 16 + chunk_digit c) ds a mod 2 ^ 64" for a
  proof (induction ds arbitrary: a)
    case (Cons d ds)
    have "((a mod 2 ^ 64) * 16 + chunk_digit d) mod 2 ^ 64 = (a * 16 + chunk_digit d) mod 2 ^ 64"
      by (metis mod_add_left_eq mod_mult_left_eq)
    then show ?case using Cons.IH [of "(a mod 2 ^ 64) * 16 + chunk_digit d"] Cons.IH [of "a * 16 + chunk_digit d"] by simp
  qed simp
  have "chunk_scan mem buf len i n = chunk_scan mem buf len (i + 1) ((n * 16 + chunk_digit c) mod 2 ^ 64)"
    using r Cons.prems by (subst chunk_scan.simps) simp
  also have "\<dots> = Some (i + 1 + length ds, fold (\<lambda>c n. n * 16 + chunk_digit c) ds ((n * 16 + chunk_digit c) mod 2 ^ 64) mod 2 ^ 64)"
    using Cons.prems d by (intro Cons.IH) simp_all
  finally show ?case using m [of "n * 16 + chunk_digit c"] by simp
qed

lemma chunk_crlf_ahead:
  assumes "drop (buf + i) mem = 13 # 10 # r" and "0 < i" and "i + 2 \<le> len" and "len < 2 ^ 64"
  shows "chunk_crlf mem buf len i = Some True"
proof -
  have "rd mem (buf + i) = Some 13" "rd mem (buf + (i + 1)) = Some 10"
    using rd_at [of "buf + i" mem "[]" 13 "10 # r"] rd_at [of "buf + i" mem "[13]" 10 r "buf + (i + 1)"] assms(1) by simp_all
  then show ?thesis using assms(2-4) by (simp add: chunk_crlf_def)
qed

lemma mg_http_parse_chunk_ahead:
  assumes "drop buf mem = chunk_text d @ r" and "length (chunk_text d) \<le> len" and "len < 2 ^ 63"
  shows "mg_http_parse_chunk mem buf len = Some (length (chunk_text d), buf + length (hex_text (length d)) + 2, length d)"
proof -
  let ?h = "hex_text (length d)"
  have len: "length ?h + 4 + length d \<le> len" using assms(2) by (simp add: chunk_text_def crlf_def)
  have d0: "drop (buf + 0) mem = ?h @ 13 # (10 # d @ crlf @ r)" using assms(1) by (simp add: chunk_text_def crlf_def)
  have "length d < 2 ^ 64" using len assms(3) by simp
  then have "chunk_scan mem buf len 0 0 = Some (length ?h, length d)"
    using chunk_scan_digits [OF d0 hex_text_digits, of len 0] len hex_value_hex_text [of "length d"]
    by (simp add: is_xdigit_def is_digit_def ch_def hex_value_def)
  moreover have "chunk_crlf mem buf len (length ?h) = Some True"
    using drop_past [of buf mem ?h "13 # 10 # d @ crlf @ r" "length ?h"] d0 len assms(3)
    by (intro chunk_crlf_ahead) simp_all
  moreover have "chunk_crlf mem buf len (length ?h + 2 + length d) = Some True"
  proof (rule chunk_crlf_ahead)
    show "drop (buf + (length ?h + 2 + length d)) mem = 13 # 10 # r"
      using drop_past [of buf mem "?h @ crlf @ d" "13 # 10 # r" "length ?h + 2 + length d"] assms(1)
      by (simp add: chunk_text_def crlf_def)
  qed (use len assms(3) in simp_all)
  moreover have "(length ?h + 2 + length d) mod 2 ^ 64 = length ?h + 2 + length d" using len assms(3) by simp
  ultimately show ?thesis by (simp add: mg_http_parse_chunk_def Let_def chunk_text_def crlf_def)
qed

text \<open>A chunk is parsed by what is ahead of it alone.\<close>

lemma rd_drop: "rd mem (p + i) = rd (drop p mem) i"
  by (simp add: rd_def less_diff_conv add.commute)

lemma chunk_scan_drop: "chunk_scan mem p len i n = chunk_scan (drop p mem) 0 len i n"
proof (induction "len - i" arbitrary: i n)
  case 0
  then show ?case by (subst (1 2) chunk_scan.simps) simp
next
  case (Suc k)
  then have "chunk_scan mem p len (i + 1) m = chunk_scan (drop p mem) 0 len (i + 1) m" for m by simp
  then show ?case by (subst (1 2) chunk_scan.simps) (simp add: rd_drop [of mem p] cong: if_cong)
qed

lemma chunk_crlf_drop: "chunk_crlf mem p len i = chunk_crlf (drop p mem) 0 len i"
  by (simp add: chunk_crlf_def rd_drop [of mem p] del: add_Suc_right cong: if_cong)

lemma mg_http_parse_chunk_drop:
  "map_option fst (mg_http_parse_chunk mem p len) = map_option fst (mg_http_parse_chunk (drop p mem) 0 len)"
proof -
  have 1: "chunk_scan mem p len 0 0 = chunk_scan (drop p mem) 0 len 0 0" by (rule chunk_scan_drop)
  have 2: "chunk_crlf mem p len j = chunk_crlf (drop p mem) 0 len j" for j by (rule chunk_crlf_drop)
  show ?thesis unfolding mg_http_parse_chunk_def 1 2
    by (auto simp: Let_def map_option_case split: bind_splits option.splits prod.splits)
qed

text \<open>What is left, \<open>n\<close> bytes of it received, does not start with a whole chunk.\<close>

definition no_chunk :: "bytes \<Rightarrow> nat \<Rightarrow> bool" where
  "no_chunk t n \<longleftrightarrow> map_option fst (mg_http_parse_chunk t 0 n) = Some 0"

lemma chunk_loop_stops:
  assumes "no_chunk (drop (buf + i) mem) (blen - i)"
  shows "chunk_loop mem buf blen i body_len bl = Some (mem, i, body_len, False, bl)"
proof -
  have "map_option fst (mg_http_parse_chunk mem (buf + i) (blen - i)) = Some 0"
    using assms mg_http_parse_chunk_drop [of mem "buf + i" "blen - i"] by (simp add: no_chunk_def)
  then obtain x where "mg_http_parse_chunk mem (buf + i) (blen - i) = Some (0, x)" by auto
  then show ?thesis by (subst chunk_loop.simps) (cases x, simp)
qed

lemma chunk_text_Nil: "chunk_text [] = 0x30 # crlf @ crlf"
  by (simp add: chunk_text_def hex_text.simps hex_upper_def str_def ch_def)

lemma chunk_text_longer: "length d + 5 \<le> length (chunk_text d)"
proof -
  have "1 \<le> length (hex_text (length d))" by (simp add: Suc_le_eq)
  moreover have "length (chunk_text d) = length (hex_text (length d)) + 4 + length d" by (simp add: chunk_text_def crlf_def)
  ultimately show ?thesis by linarith
qed

lemma chunk_loop_step:
  assumes "mem = A @ B @ G @ chunk_text d @ T" and "length A = buf" and "d \<noteq> []"
    and "length B + length G + length (chunk_text d) \<le> blen" and "blen < 2 ^ 63"
  shows "\<exists>G'. chunk_loop mem buf blen (length B + length G) (length B) bl =
      chunk_loop (A @ (B @ d) @ G' @ T) buf blen (length (B @ d) + length G') (length (B @ d)) (Some (length (B @ d))) \<and>
    length (B @ d) + length G' = length B + length G + length (chunk_text d)"
proof -
  let ?i = "length B + length G" and ?h = "hex_text (length d)"
  let ?t = "length (chunk_text d)"
  have tl: "?t = length ?h + 4 + length d" by (simp add: chunk_text_def crlf_def)
  have "drop (buf + ?i) mem = chunk_text d @ T" using assms(1,2) by simp
  then have parse: "mg_http_parse_chunk mem (buf + ?i) (blen - ?i) = Some (?t, buf + ?i + length ?h + 2, length d)"
    using assms(4,5) by (intro mg_http_parse_chunk_ahead) simp_all
  have sl: "bslice mem (buf + ?i + length ?h + 2) (length d) = d"
  proof -
    have "mem = (A @ B @ G @ ?h @ crlf) @ d @ (crlf @ T)" using assms(1) by (simp add: chunk_text_def)
    moreover have "length (A @ B @ G @ ?h @ crlf) = buf + ?i + length ?h + 2" using assms(2) by (simp add: crlf_def)
    ultimately show ?thesis by (metis bslice_append_mid)
  qed
  let ?G' = "drop (length d) (G @ chunk_text d)"
  have ov: "overlay mem (buf + length B) d = A @ (B @ d) @ ?G' @ T"
    using overlay_append [of "A @ B" "buf + length B" "G @ chunk_text d @ T" d] assms(1,2) tl by simp
  have lm: "length mem = buf + ?i + ?t + length T" using assms(1,2) by simp
  have t0: "?t \<noteq> 0" "length d \<noteq> 0" using tl assms(3) by simp_all
  have lg: "length (B @ d) + length ?G' = ?i + ?t" using tl by simp
  have "chunk_loop mem buf blen ?i (length B) bl =
      chunk_loop (overlay mem (buf + length B) d) buf blen (?i + ?t) (length B + length d) (Some (length B + length d))"
  proof -
    have "\<not> (?t > blen - ?i \<or> buf + ?i + length ?h + 2 + length d > length mem \<or> buf + length B + length d > length mem)"
      using assms(4) lm tl by linarith
    then show ?thesis by (subst chunk_loop.simps) (simp only: parse option.case prod.case t0 sl Let_def if_False)
  qed
  also have "\<dots> = chunk_loop (A @ (B @ d) @ ?G' @ T) buf blen (length (B @ d) + length ?G') (length (B @ d)) (Some (length (B @ d)))"
    by (simp only: ov lg) simp
  finally show ?thesis using lg by blast
qed

lemma chunk_loop_last:
  assumes "mem = A @ B @ G @ chunk_text [] @ R" and "length A = buf" and "length B + length G + 5 \<le> blen" and "blen < 2 ^ 63"
  shows "\<exists>G'. chunk_loop mem buf blen (length B + length G) (length B) bl =
      Some (A @ B @ G' @ R, length B + length G', length B, True, Some (length B)) \<and> length G' = length G + 5"
proof -
  let ?i = "length B + length G"
  have t: "length (chunk_text []) = 5" by (simp add: chunk_text_Nil crlf_def)
  have "drop (buf + ?i) mem = chunk_text [] @ R" using assms(1,2) by simp
  then have parse: "mg_http_parse_chunk mem (buf + ?i) (blen - ?i) = Some (5, buf + ?i + length (hex_text 0) + 2, 0)"
    using mg_http_parse_chunk_ahead [of "buf + ?i" mem "[]" R "blen - ?i"] assms(3,4) t by simp
  have "length (hex_text 0) = 1" by (simp add: hex_text.simps)
  then have "chunk_loop mem buf blen ?i (length B) bl = Some (mem, ?i + 5, length B, True, Some (length B))"
    using parse assms t by (subst chunk_loop.simps) (simp add: Let_def overlay_Nil bslice_def)
  then show ?thesis using assms(1) t by (intro exI [of _ "G @ chunk_text []"]) simp
qed

text \<open>The whole loop, with \<open>e\<close> for what it finds behind the chunks.\<close>

lemma chunk_loop_run:
  assumes "mem = A @ B @ G @ chunks_text ds @ E @ R" and "length A = buf" and "\<forall>d \<in> set ds. d \<noteq> []"
    and "length B + length G + length (chunks_text ds) + length E \<le> blen" and "blen < 2 ^ 63"
    and "if fin then E = chunk_text [] else E = [] \<and> no_chunk R (blen - (length B + length G + length (chunks_text ds)))"
  shows "\<exists>G' bl'. chunk_loop mem buf blen (length B + length G) (length B) bl =
      Some (A @ (B @ concat ds) @ G' @ R, length (B @ concat ds) + length G', length (B @ concat ds), fin, bl') \<and>
    length (B @ concat ds) + length G' = length B + length G + length (chunks_text ds) + length E \<and>
    bl' = (if ds = [] \<and> \<not> fin then bl else Some (length (B @ concat ds)))"
  using assms
proof (induction ds arbitrary: mem B G bl)
  case Nil
  show ?case
  proof (cases fin)
    case True
    then have E: "E = chunk_text []" "length E = 5" using Nil.prems(6) by (simp_all add: chunk_text_Nil crlf_def)
    obtain G' where "chunk_loop mem buf blen (length B + length G) (length B) bl =
        Some (A @ B @ G' @ R, length B + length G', length B, True, Some (length B))" "length G' = length G + 5"
      using chunk_loop_last [of mem A B G R buf blen bl] Nil.prems E by (auto simp: chunks_text_def)
    then show ?thesis using True E by (intro exI [of _ G'] exI [of _ "Some (length B)"]) (simp add: chunks_text_def)
  next
    case False
    then have "no_chunk (drop (buf + (length B + length G)) mem) (blen - (length B + length G))" "E = []"
      using Nil.prems by (simp_all add: chunks_text_def)
    then show ?thesis using False Nil.prems(1) chunk_loop_stops
      by (intro exI [of _ G] exI [of _ bl]) (simp add: chunks_text_def)
  qed
next
  case (Cons d ds)
  have tl: "length (chunks_text (d # ds)) = length (chunk_text d) + length (chunks_text ds)" by (simp add: chunks_text_def)
  have m: "mem = A @ B @ G @ chunk_text d @ (chunks_text ds @ E @ R)" using Cons.prems(1) by (simp add: chunks_text_def)
  have fits: "length B + length G + length (chunk_text d) \<le> blen" using Cons.prems(4) tl by simp
  obtain G' where g: "chunk_loop mem buf blen (length B + length G) (length B) bl =
      chunk_loop (A @ (B @ d) @ G' @ chunks_text ds @ E @ R) buf blen (length (B @ d) + length G') (length (B @ d)) (Some (length (B @ d)))"
    "length (B @ d) + length G' = length B + length G + length (chunk_text d)"
    using chunk_loop_step [OF m Cons.prems(2) _ fits Cons.prems(5), of bl] Cons.prems(3) by auto
  have "\<exists>G'' bl'. chunk_loop (A @ (B @ d) @ G' @ chunks_text ds @ E @ R) buf blen (length (B @ d) + length G') (length (B @ d)) (Some (length (B @ d))) =
      Some (A @ ((B @ d) @ concat ds) @ G'' @ R, length ((B @ d) @ concat ds) + length G'', length ((B @ d) @ concat ds), fin, bl') \<and>
    length ((B @ d) @ concat ds) + length G'' = length (B @ d) + length G' + length (chunks_text ds) + length E \<and>
    bl' = (if ds = [] \<and> \<not> fin then Some (length (B @ d)) else Some (length ((B @ d) @ concat ds)))"
  proof (rule Cons.IH [OF refl Cons.prems(2) _ _ Cons.prems(5)])
    show "if fin then E = chunk_text [] else E = [] \<and> no_chunk R (blen - (length (B @ d) + length G' + length (chunks_text ds)))"
    proof -
      have "length (B @ d) + length G' + length (chunks_text ds) = length B + length G + length (chunks_text (d # ds))"
        using g(2) tl by linarith
      then show ?thesis using Cons.prems(6) by metis
    qed
  qed (use Cons.prems(3,4) g(2) tl in simp_all)
  then obtain G'' bl' where "chunk_loop (A @ (B @ d) @ G' @ chunks_text ds @ E @ R) buf blen (length (B @ d) + length G') (length (B @ d)) (Some (length (B @ d))) =
      Some (A @ ((B @ d) @ concat ds) @ G'' @ R, length ((B @ d) @ concat ds) + length G'', length ((B @ d) @ concat ds), fin, bl')"
    "length ((B @ d) @ concat ds) + length G'' = length (B @ d) + length G' + length (chunks_text ds) + length E"
    "bl' = Some (length ((B @ d) @ concat ds))" by (auto split: if_splits)
  then show ?case using g tl by (intro exI [of _ G''] exI [of _ bl']) simp
qed

text \<open>Handlers of a chunk that leave the receive buffer and the protocol data alone.\<close>

definition chunk_handler_ok :: "'u http_handlers \<Rightarrow> bool" where
  "chunk_handler_ok hs \<longleftrightarrow> (\<forall>hm nc. nc_recv (call_own hs (EvProto (HttpChunk hm)) nc) = nc_recv nc \<and>
     conn_pd (call_own hs (EvProto (HttpChunk hm)) nc) = conn_pd nc)"

text \<open>The receive buffer with its bytes and what lies behind them in its block.\<close>

definition recv_holds :: "'u http_conn \<Rightarrow> bytes \<Rightarrow> bytes \<Rightarrow> bool" where
  "recv_holds nc b j \<longleftrightarrow> mb_mem (nc_recv nc) = b @ j \<and> mb_len (nc_recv nc) = length b"

lemma recv_holds_bytes: "recv_holds nc b j \<Longrightarrow> mbuf_bytes (nc_recv nc) = b"
  by (simp add: recv_holds_def mbuf_bytes_def)

lemma str_in_body: "ms_p x \<noteq> 0 \<Longrightarrow> str_in mem x = x\<lparr>ms_mem := mem\<rparr>"
  by (auto simp: str_in_def null_str_def)

lemma upd_pd_recv [simp]: "nc_recv (upd_pd f nc) = nc_recv nc" "conn_pd (upd_pd f nc) = f (conn_pd nc)"
  by (simp_all add: upd_pd_def)

lemma chunk_delete_run:
  assumes "recv_holds nc (A @ body @ R) J" and "length A = buf" and "length (A @ body @ R) < 2 ^ 63"
  shows "\<exists>hm' nc' J'. chunk_delete (mb_addr (nc_recv nc)) buf (length body) (length R) hm nc = Some (hm', nc') \<and>
    (if has_flag nc MG_F_DELETE_CHUNK
     then hm' = body_len_to 0 hm \<and> recv_holds nc' (A @ R) J' \<and> conn_pd nc' = (conn_pd nc)\<lparr>pd_body_len := 0\<rparr>
     else hm' = hm \<and> nc' = nc) \<and> mb_addr (nc_recv nc') = mb_addr (nc_recv nc)"
proof (cases "has_flag nc MG_F_DELETE_CHUNK")
  case True
  let ?mem = "mb_mem (nc_recv nc)"
  have mem: "?mem = A @ body @ R @ J" and len: "mb_len (nc_recv nc) = length (A @ body @ R)"
    using assms(1) by (simp_all add: recv_holds_def)
  let ?m1 = "overlay ?mem buf (replicate (length body) 0)"
  have m1: "?m1 = A @ replicate (length body) 0 @ R @ J" using overlay_append [OF assms(2)] by (simp add: mem)
  have sl: "bslice ?m1 (buf + length body) (length R) = R"
    using bslice_append_mid [of "A @ replicate (length body) 0" "buf + length body" R "length R" J] assms(2) m1 by simp
  let ?J = "drop (length R) (replicate (length body) 0 @ R @ J)"
  have m2: "overlay ?m1 buf (bslice ?m1 (buf + length body) (length R)) = A @ R @ ?J"
    using overlay_append [OF assms(2)] m1 sl by simp
  have "nat ((int (length (A @ body @ R)) - int (length body)) mod 2 ^ 64) = length (A @ R)"
  proof -
    have "int (length (A @ body @ R)) - int (length body) = int (length (A @ R))" by simp
    moreover have "int (length (A @ R)) mod 2 ^ 64 = int (length (A @ R))" using assms(3) by (intro mod_pos_pos_trivial) simp_all
    ultimately show ?thesis by simp
  qed
  then show ?thesis
    using True len m2 assms(2) mem
    by (simp add: chunk_delete_def ws_block_def Let_def recv_holds_def sub_len_def put_mem_def)
next
  case False
  then show ?thesis by (simp add: chunk_delete_def)
qed

text \<open>
  A head \<open>A\<close>, the body \<open>B\<close> put together so far, whole chunks, the last chunk if \<open>fin\<close> holds, and \<open>R\<close>
  behind them: the handler of the chunk sees the longer body, and the chunks are gone from the buffer.
\<close>

lemma mg_handle_chunked_run:
  assumes rx: "recv_holds nc (A @ B @ chunks_text ds @ E @ R) J" and A: "length A = buf" "0 < buf"
    and B: "pd_body_len (conn_pd nc) = length B" and small: "length (A @ B @ chunks_text ds @ E @ R) < 2 ^ 63"
    and ds: "\<forall>d \<in> set ds. d \<noteq> []"
    and fin: "if fin then E = chunk_text [] else E = [] \<and> ds \<noteq> [] \<and> no_chunk (R @ J) (length R)"
    and hm: "ms_p (hm_body hm) = buf" "ms_p (hm_message hm) = 0" and hs: "chunk_handler_ok hs"
  obtains hm1 nc1 hm3 nc3 J' where "mg_handle_chunked hs hm buf (length (B @ chunks_text ds @ E @ R)) nc =
      Some (length (B @ concat ds), hm3, nc3)"
    and "ms_bytes (hm_body hm1) = B @ concat ds" and "hm1 = hm_in (mb_mem (nc_recv nc1)) (body_len_to (length (B @ concat ds)) hm)"
    and "recv_holds nc1 (A @ B @ concat ds @ R) (replicate (length (chunks_text ds @ E) - length (concat ds)) 0 @ J)"
    and "pd_body_len (conn_pd nc1) = length (B @ concat ds)" and "mb_addr (nc_recv nc1) = mb_addr (nc_recv nc)"
    and "mb_size (nc_recv nc1) = mb_size (nc_recv nc)"
    and "if has_flag (call_own hs (EvProto (HttpChunk hm1)) nc1) MG_F_DELETE_CHUNK
      then recv_holds nc3 (A @ R) J' \<and> pd_body_len (conn_pd nc3) = 0 \<and> ms_len (hm_body hm3) = 0 \<and>
        (fin \<longrightarrow> ms_len (hm_message hm3) = length (A @ R))
      else nc3 = call_own hs (EvProto (HttpChunk hm1)) nc1 \<and> ms_len (hm_body hm3) = length (B @ concat ds) \<and>
        (fin \<longrightarrow> hm3 = (body_len_to (length (B @ concat ds)) hm)\<lparr>hm_message := (hm_message hm)\<lparr>ms_len := length (A @ B @ concat ds @ R)\<rparr>\<rparr>) \<and>
        (\<not> fin \<longrightarrow> hm3 = body_len_to (length (B @ concat ds)) hm)"
    and "nc_flags nc1 = nc_flags nc AND NOT MG_F_DELETE_CHUNK" and "nc_send nc1 = nc_send nc"
    and "nc_user nc1 = (nc_user nc)\<lparr>hu_pd := (conn_pd nc)\<lparr>pd_body_len := length (B @ concat ds)\<rparr>\<rparr>"
proof -
  let ?body = "B @ concat ds" and ?blen = "length (B @ chunks_text ds @ E @ R)" and ?mem = "mb_mem (nc_recv nc)"
  have mem: "?mem = A @ B @ [] @ chunks_text ds @ E @ (R @ J)" using rx by (simp add: recv_holds_def)
  have cl: "if fin then E = chunk_text [] else E = [] \<and> no_chunk (R @ J) (?blen - (length B + length [] + length (chunks_text ds)))"
    using fin by (auto split: if_splits)
  obtain G bl where run: "chunk_loop ?mem buf ?blen (length B) (length B) None =
      Some (A @ ?body @ G @ R @ J, length ?body + length G, length ?body, fin, bl)"
    and G: "length ?body + length G = length B + length (chunks_text ds) + length E" and bl: "bl = Some (length ?body)"
    using chunk_loop_run [OF mem A(1) ds _ _ cl, of None] small fin by (auto split: if_splits)
  have Glen: "length G = length (chunks_text ds @ E) - length (concat ds)" using G by simp
  have sub: "length (concat ds) + length ds \<le> length (chunks_text ds)"
  proof (induction ds)
    case (Cons d ds)
    then show ?case using chunk_text_longer [of d] by (simp add: chunks_text_def)
  qed (simp add: chunks_text_def)
  have "0 < length ds + length E" using fin by (cases fin) (auto simp: chunk_text_Nil)
  moreover have "length (B @ concat ds) = length B + length (concat ds)" by simp
  ultimately have pos: "0 < length G" using G sub by linarith
  have left: "?blen - (length ?body + length G) = length R" using G by simp
  let ?m0 = "A @ ?body @ G @ R @ J"
  have sl: "bslice ?m0 (buf + (length ?body + length G)) (length R) = R"
    using bslice_append_mid [of "A @ ?body @ G" "buf + (length ?body + length G)" R "length R" J] A(1) by simp
  have m1: "overlay ?m0 (buf + length ?body) R = A @ ?body @ R @ drop (length R) (G @ R @ J)"
    using overlay_append [of "A @ ?body" "buf + length ?body" "G @ R @ J" R] A(1) by simp
  have "drop (length G) (drop (length R) (G @ R @ J)) = J" by (simp add: drop_drop)
  then have m2: "overlay (A @ ?body @ R @ drop (length R) (G @ R @ J)) (buf + length ?body + length R) (replicate (length G) 0) =
      A @ ?body @ R @ replicate (length G) 0 @ J"
    using overlay_append [of "A @ ?body @ R" "buf + length ?body + length R" "drop (length R) (G @ R @ J)" "replicate (length G) 0"] A(1) by simp
  let ?m = "A @ ?body @ R @ replicate (length G) 0 @ J"
  let ?nc1 = "clear_flag MG_F_DELETE_CHUNK (upd_pd (\<lambda>pd. pd\<lparr>pd_body_len := length ?body\<rparr>) (sub_len (length G) (put_mem ?m nc)))"
  let ?hm1 = "hm_in ?m (body_len_to (length ?body) hm)"
  have blen: "length ?body + length G \<le> ?blen" using G by simp
  have nlen: "nat ((int (mb_len (nc_recv nc)) - int (length G)) mod 2 ^ 64) = length (A @ ?body @ R)"
  proof -
    have "int (mb_len (nc_recv nc)) - int (length G) = int (length (A @ ?body @ R))"
      using rx G by (simp add: recv_holds_def)
    moreover have "int (length (A @ ?body @ R)) mod 2 ^ 64 = int (length (A @ ?body @ R))"
      using small G by (intro mod_pos_pos_trivial) simp_all
    ultimately show ?thesis by simp
  qed
  have h1: "recv_holds ?nc1 (A @ B @ concat ds @ R) (replicate (length (chunks_text ds @ E) - length (concat ds)) 0 @ J)"
    using nlen Glen by (simp add: recv_holds_def clear_flag_def upd_pd_def sub_len_def put_mem_def)
  have body: "ms_bytes (hm_body ?hm1) = ?body"
    using hm(1) A by (simp add: hm_in_def body_len_to_def str_in_body ms_bytes_def bslice_def)
  have m_rx: "mb_mem (nc_recv ?nc1) = ?m" by (simp add: clear_flag_def upd_pd_def sub_len_def put_mem_def)
  let ?nc2 = "call_own hs (EvProto (HttpChunk ?hm1)) ?nc1"
  have kept: "nc_recv ?nc2 = nc_recv ?nc1" "conn_pd ?nc2 = conn_pd ?nc1" using hs by (simp_all add: chunk_handler_ok_def)
  have h2: "recv_holds ?nc2 (A @ ?body @ R) (replicate (length G) 0 @ J)" using h1 kept(1) Glen by (simp add: recv_holds_def)
  have addr: "mb_addr (nc_recv ?nc2) = mb_addr (nc_recv nc)" using kept(1) by (simp add: clear_flag_def upd_pd_def sub_len_def put_mem_def)
  have sz: "length (A @ ?body @ R) < 2 ^ 63" using small G by simp
  obtain hm3 nc3 J' where del: "chunk_delete (mb_addr (nc_recv nc)) buf (length ?body) (length R) (body_len_to (length ?body) hm) ?nc2 = Some (hm3, nc3)"
    "if has_flag ?nc2 MG_F_DELETE_CHUNK
     then hm3 = body_len_to 0 (body_len_to (length ?body) hm) \<and> recv_holds nc3 (A @ R) J' \<and> conn_pd nc3 = (conn_pd ?nc2)\<lparr>pd_body_len := 0\<rparr>
     else hm3 = body_len_to (length ?body) hm \<and> nc3 = ?nc2"
    using chunk_delete_run [OF h2 A(1) sz, of "body_len_to (length ?body) hm"] addr by auto
  have pd1: "pd_body_len (conn_pd ?nc1) = length ?body" by (simp add: clear_flag_def upd_pd_def)
  let ?hm3 = "if fin then hm3\<lparr>hm_message := (hm_message hm3)\<lparr>ms_len :=
      pd_body_len (conn_pd nc3) + length R + (ms_p (hm_body hm3) - ms_p (hm_message hm3))\<rparr>\<rparr> else hm3"
  have "mg_handle_chunked hs hm buf ?blen nc = Some (length ?body, ?hm3, nc3)"
  proof -
    have c1: "\<not> ?blen < pd_body_len (conn_pd nc)" using B by simp
    have c2: "length ?body + length G > length ?body" using pos by simp
    have c3: "\<not> (length ?body + length G > ?blen \<or> buf + ?blen > length ?m0)" using G A(1) by simp
    have e: "buf + length ?body + ?blen - (length ?body + length G) = buf + length ?body + length R" using G by simp
    have e2: "length ?body + length G - length ?body = length G" by simp
    show ?thesis
      unfolding mg_handle_chunked_def Let_def B
      by (simp only: run bl bind.bind_lunit prod.case option.case c2 c3 left sl m1 e e2 m2 del(1) if_True if_False)
        (use B A(1) G in simp)
  qed
  moreover have "if has_flag ?nc2 MG_F_DELETE_CHUNK
      then recv_holds nc3 (A @ R) J' \<and> pd_body_len (conn_pd nc3) = 0 \<and> ms_len (hm_body ?hm3) = 0 \<and>
        (fin \<longrightarrow> ms_len (hm_message ?hm3) = length (A @ R))
      else nc3 = ?nc2 \<and> ms_len (hm_body ?hm3) = length ?body \<and>
        (fin \<longrightarrow> ?hm3 = (body_len_to (length ?body) hm)\<lparr>hm_message := (hm_message hm)\<lparr>ms_len := length (A @ B @ concat ds @ R)\<rparr>\<rparr>) \<and>
        (\<not> fin \<longrightarrow> ?hm3 = body_len_to (length ?body) hm)"
    using del(2) hm A kept(2) pd1 by (auto simp: body_len_to_def add.commute add.left_commute)
  ultimately show ?thesis
    using that [of ?hm3 nc3 ?hm1 ?nc1 J'] body m_rx h1 pd1
    by (simp add: clear_flag_def upd_pd_def sub_len_def put_mem_def)
qed

section \<open>Requests through the protocol handler\<close>

text \<open>Handlers that leave the receiving side and the choice of handlers alone; they may send and keep data.\<close>

definition quiet_handlers :: "'u http_handlers \<Rightarrow> bool" where
  "quiet_handlers tab \<longleftrightarrow> (\<forall>k ev nc. nc_recv (tab k ev nc) = nc_recv nc \<and> conn_pd (tab k ev nc) = conn_pd nc \<and>
     nc_flags (tab k ev nc) = nc_flags nc)"

lemma quiet_call:
  assumes "quiet_handlers tab"
  shows "nc_recv (http_call tab k ev nc) = nc_recv nc" "conn_pd (http_call tab k ev nc) = conn_pd nc"
    "nc_flags (http_call tab k ev nc) = nc_flags nc"
  using assms by (simp_all add: quiet_handlers_def http_call_def mg_call_user_def Let_def)

lemma quiet_own:
  assumes "quiet_handlers tab"
  shows "nc_recv (call_own tab ev nc) = nc_recv nc" "conn_pd (call_own tab ev nc) = conn_pd nc"
    "nc_flags (call_own tab ev nc) = nc_flags nc"
  using quiet_call [OF assms] by (simp_all add: call_own_def)

text \<open>Such handlers that keep a log of the requests, with the number of the handler that was called.\<close>

definition http_listener :: "('u \<Rightarrow> (nat \<times> http_message) list) \<Rightarrow> 'u http_handlers \<Rightarrow> bool" where
  "http_listener lg tab \<longleftrightarrow> quiet_handlers tab \<and>
     (\<forall>k ev nc. hu_handler (nc_user (tab k ev nc)) = hu_handler (nc_user nc) \<and>
        lg (hu_user (nc_user (tab k ev nc))) =
          lg (hu_user (nc_user nc)) @ (case ev of EvProto (HttpRequest hm) \<Rightarrow> [(k, hm)] | _ \<Rightarrow> []))"

definition request_log :: "('u \<Rightarrow> (nat \<times> http_message) list) \<Rightarrow> 'u http_conn \<Rightarrow> (nat \<times> http_message) list" where
  "request_log lg nc = lg (hu_user (nc_user nc))"

lemma listener_call:
  assumes "http_listener lg tab"
  shows "hu_handler (nc_user (http_call tab k ev nc)) = hu_handler (nc_user nc)"
    "request_log lg (http_call tab k ev nc) = request_log lg nc @ (case ev of EvProto (HttpRequest hm) \<Rightarrow> [(k, hm)] | _ \<Rightarrow> [])"
  using assms by (simp_all add: http_listener_def request_log_def http_call_def mg_call_user_def Let_def)

text \<open>Endpoints whose patterns have no alternatives and do not hold the byte \<open>e\<close> that comes behind a path; for these
  the matcher decides.  The endpoint chosen is the one with the longest match, of at least one byte, and the first of several.\<close>

definition endpoints_ok :: "u8 \<Rightarrow> (bytes \<times> nat) list \<Rightarrow> bool" where
  "endpoints_ok e eps \<longleftrightarrow> (\<forall>x \<in> set eps. ch (CHR ''|'') \<notin> set (fst x) \<and> (\<forall>c \<in> set (fst x). tolower c \<noteq> tolower e))"

definition matches_below :: "bytes \<Rightarrow> nat \<Rightarrow> (bytes \<times> nat) list \<Rightarrow> bool" where
  "matches_below u n eps \<longleftrightarrow> (\<forall>x \<in> set eps. \<forall>k. pm (fst x) u k \<longrightarrow> k < n)"

definition best_endpoint :: "(bytes \<times> nat) list \<Rightarrow> bytes \<Rightarrow> nat \<Rightarrow> nat \<Rightarrow> bool" where
  "best_endpoint eps u h n \<longleftrightarrow> (\<exists>pre name post. eps = pre @ (name, h) # post \<and> longest name u n \<and>
     matches_below u n pre \<and> matches_below u (n + 1) post)"

definition endpoint_chosen :: "(bytes \<times> nat) list \<Rightarrow> bytes \<Rightarrow> nat option \<Rightarrow> bool" where
  "endpoint_chosen eps u eh \<longleftrightarrow>
     (case eh of Some h \<Rightarrow> \<exists>n > 0. best_endpoint eps u h n | None \<Rightarrow> matches_below u 1 eps)"

definition endpoint_or :: "nat \<Rightarrow> nat option \<Rightarrow> nat" where
  "endpoint_or own eh = (case eh of Some h \<Rightarrow> h | None \<Rightarrow> own)"

lemma best_endpoint_later:
  assumes "best_endpoint eps u h n" and "\<forall>k. pm (fst x) u k \<longrightarrow> k < n"
  shows "best_endpoint (x # eps) u h n"
proof -
  obtain pre name post where "eps = pre @ (name, h) # post" "longest name u n" "matches_below u n pre" "matches_below u (n + 1) post"
    using assms(1) by (auto simp: best_endpoint_def)
  then show ?thesis using assms(2) unfolding best_endpoint_def
    by (intro exI [of _ "x # pre"] exI [of _ name] exI [of _ post]) (simp add: matches_below_def)
qed

lemma endpoint_loop_spec:
  assumes "str_ok e uri" and "ms_bytes uri = u"
  shows "endpoints_ok e eps \<Longrightarrow> \<exists>eh. endpoint_loop uri eps (int mm) ret = Some eh \<and>
    (eh = ret \<and> matches_below u (mm + 1) eps \<or> (\<exists>h n. eh = Some h \<and> mm < n \<and> best_endpoint eps u h n))"
proof (induction eps arbitrary: mm ret)
  case (Cons x eps)
  obtain name h where x: "x = (name, h)" by (cases x)
  have "pat_ok e (mg_mk_str name)"
    using Cons.prems x by (simp add: endpoints_ok_def pat_ok_def ms_bytes_mk) (simp add: mg_mk_str_def ch_def)
  from match_spec [OF this assms(1)] obtain r where
    r: "mg_match_prefix_n (mg_mk_str name) uri = Some r" "verdict name u 0 r" by (auto simp: ms_bytes_mk assms(2))
  have eps: "endpoints_ok e eps" using Cons.prems by (simp add: endpoints_ok_def)
  show ?case
  proof (cases "r \<noteq> -1 \<and> r > int mm")
    case True
    then obtain n where n: "r = int n" "longest name u n" using r(2) by (auto simp: verdict_def)
    from Cons.IH [OF eps, of n "Some h"] obtain eh where eh: "endpoint_loop uri eps (int n) (Some h) = Some eh"
      "eh = Some h \<and> matches_below u (n + 1) eps \<or> (\<exists>h n'. eh = Some h \<and> n < n' \<and> best_endpoint eps u h n')" by blast
    have "\<exists>h n. eh = Some h \<and> mm < n \<and> best_endpoint (x # eps) u h n" using eh(2)
    proof
      assume "eh = Some h \<and> matches_below u (n + 1) eps"
      moreover have "best_endpoint (x # eps) u h n" if "matches_below u (n + 1) eps" unfolding best_endpoint_def
        by (intro exI [of _ "[]"] exI [of _ name] exI [of _ eps]) (use that n(2) x in \<open>simp add: matches_below_def\<close>)
      ultimately show ?thesis using True n(1) by auto
    next
      assume "\<exists>h n'. eh = Some h \<and> n < n' \<and> best_endpoint eps u h n'"
      then obtain h' n' where e: "eh = Some h'" "n < n'" "best_endpoint eps u h' n'" by blast
      have "best_endpoint (x # eps) u h' n'"
        by (rule best_endpoint_later [OF e(3)]) (use n(2) e(2) x in \<open>auto simp: longest_def\<close>)
      then show ?thesis using e True n(1) by (intro exI [of _ h'] exI [of _ n']) simp
    qed
    then show ?thesis using True r(1) x n(1) eh(1) by auto
  next
    case False
    have b: "k \<le> mm" if "pm (fst x) u k" for k
    proof -
      have "r \<noteq> -1" using that r(2) x by (auto simp: verdict_def)
      then obtain n where "r = int n" "longest name u n" using r(2) by (auto simp: verdict_def)
      then show ?thesis using False that x by (auto simp: longest_def)
    qed
    obtain eh where eh: "endpoint_loop uri eps (int mm) ret = Some eh" and
      "eh = ret \<and> matches_below u (mm + 1) eps \<or> (\<exists>h n. eh = Some h \<and> mm < n \<and> best_endpoint eps u h n)"
      using Cons.IH [OF eps, of mm ret] by blast
    moreover have "matches_below u (mm + 1) (x # eps)" if "matches_below u (mm + 1) eps"
      using that b by (simp add: matches_below_def less_Suc_eq_le)
    moreover have "best_endpoint (x # eps) u h n" if "best_endpoint eps u h n" "mm < n" for h n
      by (rule best_endpoint_later [OF that(1)]) (use b that(2) in fastforce)
    moreover have "endpoint_loop uri (x # eps) (int mm) ret = Some eh" using eh False r(1) x by auto
    ultimately show ?thesis by blast
  qed
qed (simp add: matches_below_def)

text \<open>The event of the request \<open>hm\<close> reaches the handler of the endpoint chosen, or the connection's own, and is the last
  thing that happens; then \<open>rest\<close> is left in the receive buffer.\<close>

definition http_delivers ::
  "'u http_handlers \<Rightarrow> (bytes \<times> nat) list \<Rightarrow> bytes \<Rightarrow> 'u http_conn \<Rightarrow> http_message \<Rightarrow> bytes \<Rightarrow> 'u http_conn \<Rightarrow> bool"
where
  "http_delivers tab eps u nc1 hm rest nc' \<longleftrightarrow>
     (\<exists>k eh. endpoint_chosen eps u eh \<and> nc' = recv_remove k
        (http_call tab (endpoint_or (hu_handler (nc_user nc1)) eh) (EvProto (HttpRequest hm))
          (upd_pd (\<lambda>pd. pd\<lparr>pd_endpoint_handler := eh\<rparr>) nc1)) \<and>
        mbuf_bytes (nc_recv nc') = rest)"

lemma endpoint_delivers:
  fixes tab :: "'u http_handlers"
  assumes "he_listener env = Some eps" and "endpoints_ok e eps" and "str_ok e (hm_uri hm)" and "ms_bytes (hm_uri hm) = u"
    and "quiet_handlers tab" and "\<And>nc2 :: 'u http_conn. nc_recv nc2 = nc_recv nc1 \<Longrightarrow> mbuf_bytes (nc_recv (recv_remove k nc2)) = rest"
  shows "\<exists>nc2. mg_http_call_endpoint_handler env tab True hm nc1 = Some nc2 \<and>
    http_delivers tab eps u nc1 hm rest (recv_remove k nc2)"
proof -
  obtain eh where eh: "endpoint_loop (hm_uri hm) eps 0 None = Some eh" "endpoint_chosen eps u eh"
  proof -
    obtain eh where e: "endpoint_loop (hm_uri hm) eps (int 0) None = Some eh"
      "eh = None \<and> matches_below u 1 eps \<or> (\<exists>h n. eh = Some h \<and> 0 < n \<and> best_endpoint eps u h n)"
      using endpoint_loop_spec [OF assms(3,4,2), of 0 None] by (simp only: add_0) blast
    from e(2) have "endpoint_chosen eps u eh" by (auto simp: endpoint_chosen_def)
    with e(1) show thesis by (intro that) simp_all
  qed
  let ?nc = "upd_pd (\<lambda>pd. pd\<lparr>pd_endpoint_handler := eh\<rparr>) nc1"
  let ?nc2 = "http_call tab (endpoint_or (hu_handler (nc_user nc1)) eh) (EvProto (HttpRequest hm)) ?nc"
  have "mg_http_call_endpoint_handler env tab True hm nc1 = Some ?nc2"
    using eh(1) assms(1) by (simp add: mg_http_call_endpoint_handler_def mg_http_get_endpoint_handler_def upd_pd_def Let_def endpoint_or_def split: option.split)
  moreover have "mbuf_bytes (nc_recv (recv_remove k ?nc2)) = rest"
    by (rule assms(6)) (simp add: quiet_call(1) [OF assms(5)] upd_pd_def)
  ultimately show ?thesis using eh(2) unfolding http_delivers_def by blast
qed

lemma delivers_log:
  assumes "http_listener lg tab" and "http_delivers tab eps u nc1 hm rest nc'"
  shows "\<exists>eh. endpoint_chosen eps u eh \<and> mbuf_bytes (nc_recv nc') = rest \<and>
    request_log lg nc' = request_log lg nc1 @ [(endpoint_or (hu_handler (nc_user nc1)) eh, hm)]"
  using assms(2) listener_call(2) [OF assms(1)]
  by (auto simp: http_delivers_def recv_remove_def request_log_def upd_pd_def)

text \<open>The byte behind the path of a request.\<close>

definition uri_end :: "bytes option \<Rightarrow> u8" where
  "uri_end q = (case q of None \<Rightarrow> 0x20 | Some _ \<Rightarrow> 0x3F)"

lemma request_text_uri_end:
  "length m + 1 + length u < length (request_text m u q pr hs)" (is ?L)
  "request_text m u q pr hs ! (length m + 1 + length u) = uri_end q" (is ?E)
proof -
  obtain r where r: "request_text m u q pr hs = (m @ 0x20 # u) @ uri_end q # r"
    by (cases q) (simp_all add: request_text_def lines_text_def request_line_def target_text_def uri_end_def)
  then show ?L by simp
  show ?E unfolding r using nth_append_length [of "m @ 0x20 # u" "uri_end q" r] by simp
qed

definition message_is ::
  "http_message \<Rightarrow> bytes \<Rightarrow> bytes \<Rightarrow> bytes option \<Rightarrow> bytes \<Rightarrow> (bytes \<times> bytes) list \<Rightarrow> bytes \<Rightarrow> bool"
where
  "message_is hm m u q pr hs body \<longleftrightarrow>
     ms_bytes (hm_method hm) = m \<and> ms_bytes (hm_uri hm) = u \<and>
     ms_bytes (hm_query_string hm) = (case q of None \<Rightarrow> [] | Some x \<Rightarrow> x) \<and> ms_bytes (hm_proto hm) = pr \<and>
     header_list hm = hs \<and> ms_bytes (hm_body hm) = body"

lemma str_in_same: "str_inside mem lo hi x \<Longrightarrow> str_in mem x = x"
  by (auto simp: str_inside_def str_in_def)

lemma hm_in_same:
  assumes "http_inside mem lo hi hm"
  shows "hm_in mem hm = hm"
proof -
  have "str_in mem x = x" if "x \<in> set (hm_header_names hm) \<union> set (hm_header_values hm)" for x
    using assms that str_in_same [of mem lo hi x] by (auto simp: http_inside_def)
  then have "map (str_in mem) (hm_header_names hm) = hm_header_names hm" "map (str_in mem) (hm_header_values hm) = hm_header_values hm"
    by (auto intro!: map_idI)
  moreover have "str_in mem (hm_body hm) = hm_body hm" "str_in mem (hm_message hm) = hm_message hm"
    using assms by (auto simp: http_inside_def str_in_def)
  moreover have "str_in mem x = x" if "x \<in> {hm_method hm, hm_uri hm, hm_proto hm, hm_resp_status_msg hm, hm_query_string hm}" for x
    using assms that str_in_same [of mem lo hi x] by (auto simp: http_inside_def)
  ultimately show ?thesis by (simp add: hm_in_def)
qed

text \<open>A message read in a memory that begins with the same head.\<close>

lemma str_in_head:
  assumes "str_inside mem 0 h x" and "take h mem' = take h mem" and "h \<le> length mem'" and "h \<le> length mem"
  shows "ms_bytes (str_in mem' x) = ms_bytes x" "ms_len (str_in mem' x) = ms_len x" "ms_valid (str_in mem' x)"
proof -
  show "ms_len (str_in mem' x) = ms_len x" by (simp add: str_in_def)
  show "ms_valid (str_in mem' x)" using assms by (auto simp: str_in_def str_inside_def ms_valid_def null_str_def)
  show "ms_bytes (str_in mem' x) = ms_bytes x"
  proof (cases "x = null_str")
    case False
    then have x: "ms_mem x = mem" "ms_p x + ms_len x \<le> h" using assms(1) by (auto simp: str_inside_def)
    have "take (ms_len x) (drop (ms_p x) y) = take (ms_len x) (drop (ms_p x) (take h y))" for y :: bytes
      using x(2) by (simp add: drop_take min_def)
    then have "bslice mem' (ms_p x) (ms_len x) = bslice mem (ms_p x) (ms_len x)" unfolding bslice_def by (metis assms(2))
    then show ?thesis using False x(1) by (simp add: str_in_def ms_bytes_def)
  qed (simp add: str_in_def)
qed

lemma slots_hold_in:
  assumes "slots_hold mem hs hm" and "http_inside mem 0 h hm" and "take h mem' = take h mem" and "h \<le> length mem'" and "h \<le> length mem"
  shows "slots_hold mem' hs (hm_in mem' hm)"
proof -
  have n: "str_inside mem 0 h (hm_header_names hm ! j)" "str_inside mem 0 h (hm_header_values hm ! j)" if "j < length hs" for j
    using assms(1,2) that by (auto simp: http_inside_def slots_hold_def)
  then show ?thesis using assms(1) str_in_head [OF n(1) assms(3-5)] str_in_head [OF n(2) assms(3-5)]
    by (auto simp: slots_hold_def hm_in_def)
qed

lemma message_in:
  assumes "http_inside mem 0 h hm" and "take h mem' = take h mem" and "h \<le> length mem'" and "h \<le> length mem"
    and "message_is hm m u q pr hs b" and "slots_hold mem hs hm" and "ms_len (hm_header_names hm ! length hs) = 0"
    and "\<forall>h \<in> set hs. fst h \<noteq> []"
  shows "message_is (hm_in mem' hm) m u q pr hs (ms_bytes (str_in mem' (hm_body hm)))"
proof -
  have i: "str_inside mem 0 h (hm_method hm)" "str_inside mem 0 h (hm_uri hm)" "str_inside mem 0 h (hm_proto hm)"
    "str_inside mem 0 h (hm_query_string hm)" using assms(1) by (simp_all add: http_inside_def)
  have "length hs < length (hm_header_names hm)" using assms(6) by (simp add: slots_hold_def)
  then have "ms_len (hm_header_names (hm_in mem' hm) ! length hs) = 0"
    using assms(7) by (simp add: hm_in_def str_in_def null_str_def)
  then have "header_list (hm_in mem' hm) = hs"
    using header_list_hold [OF slots_hold_in [OF assms(6,1,2,3,4)] _ assms(8)] by simp
  then show ?thesis using assms(5) str_in_head(1) [OF i(1) assms(2-4)] str_in_head(1) [OF i(2) assms(2-4)]
      str_in_head(1) [OF i(3) assms(2-4)] str_in_head(1) [OF i(4) assms(2-4)]
    by (simp add: message_is_def) (simp add: hm_in_def)
qed

lemma header_found:
  assumes "slots_hold mem hs hm" and "ms_len (hm_header_names hm ! length hs) = 0" and "\<forall>h \<in> set hs. fst h \<noteq> []"
    and "0 \<notin> set name"
  obtains x where "mg_get_http_header hm name = Some x" and "map_option ms_bytes x = lookup_header hs name"
    and "x \<noteq> None \<Longrightarrow> the x \<in> set (hm_header_values hm)"
proof -
  have "map_option (map_option ms_bytes) (mg_get_http_header hm name) = Some (lookup_header hs name)"
    using http_find_header_hold [OF assms(1,2) _ assms(3,4), of 0] by (simp add: mg_get_http_header_def)
  then obtain x where x: "mg_get_http_header hm name = Some x" "map_option ms_bytes x = lookup_header hs name" by auto
  have "http_find_header hm name i = Some (Some v) \<Longrightarrow> v \<in> set (hm_header_values hm)" for i v
  proof (induction hm name i rule: http_find_header.induct)
    case (1 hm name i)
    then show ?case
      by (subst (asm) (2) http_find_header.simps) (auto simp: Let_def split: if_splits bind_splits)
  qed
  then have "x \<noteq> None \<Longrightarrow> the x \<in> set (hm_header_values hm)" using x(1) by (auto simp: mg_get_http_header_def)
  with x that show ?thesis by blast
qed

definition te_name :: bytes where "te_name = str ''Transfer-Encoding''"
definition key_name :: bytes where "key_name = str ''Sec-WebSocket-Key''"

definition chunked_value :: "bytes option \<Rightarrow> bool" where
  "chunked_value v \<longleftrightarrow> (case v of None \<Rightarrow> False | Some v \<Rightarrow> map tolower v = map tolower (str ''chunked''))"

lemma is_chunked_found:
  assumes "slots_hold mem hs hm" and "ms_len (hm_header_names hm ! length hs) = 0" and "\<forall>h \<in> set hs. fst h \<noteq> []"
    and "http_inside mem 0 h hm" and "h \<le> length mem" and "h < 2 ^ 31"
  shows "is_chunked hm = Some (chunked_value (lookup_header hs te_name))"
proof -
  have "0 \<notin> set te_name" by (simp add: te_name_def str_def ch_def)
  then obtain x where x: "mg_get_http_header hm te_name = Some x" "map_option ms_bytes x = lookup_header hs te_name"
    "x \<noteq> None \<Longrightarrow> the x \<in> set (hm_header_values hm)" using header_found [OF assms(1,2,3)] by blast
  show ?thesis
  proof (cases x)
    case None
    have "lookup_header hs te_name = None" using x(2) None by simp
    then show ?thesis using x(1) None by (simp add: is_chunked_def chunked_value_def te_name_def)
  next
    case (Some v)
    then have "str_inside mem 0 h v" using x(3) assms(4) by (simp add: http_inside_def)
    then have v: "ms_valid v" "ms_len v < 2 ^ 31" using assms(5,6) by (auto simp: str_inside_def ms_valid_def null_str_def)
    have z: "0 \<notin> set (str ''chunked'')" by (simp add: str_def ch_def)
    obtain r where "mg_vcasecmp v (str ''chunked'') = Some r" "r = 0 \<longleftrightarrow> map tolower (ms_bytes v) = map tolower (str ''chunked'')"
      using vcasecmp_eq [OF v(1) z v(2)] by auto
    moreover have "lookup_header hs te_name = Some (ms_bytes v)" using x(2) Some by simp
    ultimately show ?thesis using x(1) Some by (simp add: is_chunked_def chunked_value_def te_name_def)
  qed
qed

text \<open>What the parser gives on a buffer that starts with a request.\<close>

lemma request_in_buffer:
  assumes "recv_holds nc (request_text m u q pr hs @ behind) J" and "request_ok m u q pr hs"
    and "length (request_text m u q pr hs @ behind) < 2 ^ 31"
  obtains hm where "mg_parse_http (mb_mem (nc_recv nc)) 0 (c_int (int (mb_len (nc_recv nc)))) True =
      Some (int (length (request_text m u q pr hs)), hm)"
    and "request_parsed (mb_mem (nc_recv nc)) 0 m u q pr hs hm"
    and "http_inside (mb_mem (nc_recv nc)) 0 (length (request_text m u q pr hs)) hm"
proof -
  let ?mem = "mb_mem (nc_recv nc)" and ?n = "length (request_text m u q pr hs @ behind)" and ?l = "length (request_text m u q pr hs)"
  have mem: "?mem = request_text m u q pr hs @ behind @ J" "mb_len (nc_recv nc) = ?n" using assms(1) by (simp_all add: recv_holds_def)
  have n: "c_int (int (mb_len (nc_recv nc))) = int ?n" using mem(2) assms(3) c_int_small [of "int ?n"] by simp
  obtain hm where hm: "mg_parse_http ?mem 0 (int ?n) True = Some (int ?l, hm)" "request_parsed ?mem 0 m u q pr hs hm"
    using mg_parse_http_request_text [of 0 ?mem m u q pr hs "behind @ J" ?n] mem(1) assms(2,3) by auto
  have pos: "0 < ?l" by (simp add: request_text_def crlf_def)
  have "http_inside ?mem 0 ?l hm"
    using mg_parse_http_inside [of 0 ?n ?mem True] hm(1) mem pos by auto
  with hm n that show ?thesis by simp
qed

lemma request_names: "request_ok m u q pr hs \<Longrightarrow> \<forall>h \<in> set hs. fst h \<noteq> []"
  by (auto simp: request_ok_def headers_ok_def header_name_ok_def text_word_def)

lemma recv_remove_bytes:
  assumes "recv_holds nc (a @ b) J" and "nc_recv nc2 = nc_recv nc"
  shows "mbuf_bytes (nc_recv (recv_remove (length a) nc2)) = b"
  using assms by (auto simp: recv_remove_def recv_holds_def mbuf_remove_def mbuf_bytes_def overlay_def bslice_def)

lemma request_uri_ok:
  assumes "request_parsed mem 0 m u q pr hs hm" and "take (length (request_text m u q pr hs)) mem' = request_text m u q pr hs"
    and "ms_bytes (str_in mem' (hm_uri hm)) = u" and "length (request_text m u q pr hs) < 2 ^ 31"
  shows "str_ok (uri_end q) (str_in mem' (hm_uri hm))"
proof -
  let ?l = "length (request_text m u q pr hs)" and ?i = "length m + 1 + length u"
  have p: "ms_p (hm_uri hm) = length m + 1" "ms_mem (hm_uri hm) = mem" "ms_bytes (hm_uri hm) = u" "ms_valid (hm_uri hm)"
    using assms(1) by (simp_all add: request_parsed_def Let_def)
  then have l: "ms_len (hm_uri hm) = length u" using length_ms_bytes [of "hm_uri hm"] by simp
  have n: "hm_uri hm \<noteq> null_str" using p(1) by (auto simp: null_str_def dest: arg_cong [where f = ms_p])
  have "mem' ! ?i = take ?l mem' ! ?i" using request_text_uri_end(1) [of m u q pr hs] by simp
  then have "mem' ! ?i = uri_end q" using assms(2) request_text_uri_end(2) [of m u q pr hs] by simp
  moreover have "?i < length mem'"
    using request_text_uri_end(1) [of m u q pr hs] arg_cong [OF assms(2), of length] by (simp add: min_def split: if_splits)
  moreover have "length u < 2 ^ 31" using request_text_uri_end(1) [of m u q pr hs] assms(4) by simp
  ultimately show ?thesis using n p l by (simp add: str_ok_def str_in_def)
qed

text \<open>A request that announces its length, or has no body.\<close>

lemma http_request_delivers:
  assumes rx: "recv_holds nc (request_text m u q pr hs @ body @ rest) J" and ok: "request_ok m u q pr hs"
    and small: "length (request_text m u q pr hs @ body @ rest) < 2 ^ 31" and body: "length body = request_body_len m hs"
    and te: "\<not> chunked_value (lookup_header hs te_name)" and key: "lookup_header hs key_name = None"
    and env: "he_listener env = Some eps" "endpoints_ok (uri_end q) eps"
    and quiet: "quiet_handlers tab" and nofile: "hf_fp (pd_file (conn_pd nc)) = None"
  shows "\<exists>hm nc'. mg_http_handler env tab (EvRecv n) nc = Some nc' \<and> message_is hm m u q pr hs body \<and>
    http_delivers tab eps u (call_own tab (EvRecv n) nc) hm rest nc'"
proof -
  let ?nc = "call_own tab (EvRecv n) nc" and ?k = "length (request_text m u q pr hs @ body)"
  have rx1: "recv_holds ?nc (request_text m u q pr hs @ body @ rest) J"
    using rx quiet_own [OF quiet] by (simp add: recv_holds_def)
  let ?mem = "mb_mem (nc_recv ?nc)" and ?l = "length (request_text m u q pr hs)"
  obtain hm where p: "mg_parse_http ?mem 0 (c_int (int (mb_len (nc_recv ?nc)))) True = Some (int ?l, hm)"
    "request_parsed ?mem 0 m u q pr hs hm" "http_inside ?mem 0 ?l hm" using request_in_buffer [OF rx1 ok small] by blast
  have pos: "0 < ?l" by (simp add: request_text_def crlf_def)
  have sl: "slots_hold ?mem hs hm" "ms_len (hm_header_names hm ! length hs) = 0" using p(2) by (simp_all add: request_parsed_def Let_def)
  have lm: "?l \<le> length ?mem" "take ?l ?mem = request_text m u q pr hs" using rx1 by (simp_all add: recv_holds_def)
  have ch: "is_chunked hm = Some False" using is_chunked_found [OF sl request_names [OF ok] p(3) lm(1)] small te by simp
  have "0 \<notin> set key_name" by (simp add: key_name_def str_def ch_def)
  then obtain x where x: "mg_get_http_header hm key_name = Some x" "map_option ms_bytes x = lookup_header hs key_name"
    using header_found [OF sl request_names [OF ok]] by blast
  then have k: "mg_get_http_header hm (str ''Sec-WebSocket-Key'') = Some None" using key by (simp add: key_name_def)
  have b: "hm_body hm = \<lparr>ms_mem = ?mem, ms_p = ?l, ms_len = length body\<rparr>" "ms_len (hm_message hm) = ?k"
    using p(2) body small by (auto simp: request_parsed_def Let_def SIZE_MAX_def)
  have "ms_bytes (hm_body hm) = body"
    using rx1 b(1) bslice_append_mid [of "request_text m u q pr hs" ?l body "length body" "rest @ J"] by (simp add: recv_holds_def ms_bytes_def)
  then have mi: "message_is hm m u q pr hs body" using p(2) by (simp add: message_is_def request_parsed_def Let_def)
  have len: "?k \<le> mb_len (nc_recv ?nc)" using rx1 by (simp add: recv_holds_def)
  have same: "hm_in ?mem hm = hm" by (rule hm_in_same [OF p(3)])
  have req: "is_req env" using env(1) by (simp add: is_req_def)
  have run: "mg_http_handler env tab (EvRecv n) nc = map_option (recv_remove ?k) (mg_http_call_endpoint_handler env tab True hm ?nc)"
    using p(1) pos ch k b(2) len req same nofile
    by (simp add: mg_http_handler_def http_on_recv_def Let_def ws_block_def map_conv_bind_option comp_def)
  have "str_in ?mem (hm_uri hm) = hm_uri hm" using arg_cong [OF same, of hm_uri] by (simp add: hm_in_def)
  then have "str_ok (uri_end q) (hm_uri hm)" "ms_bytes (hm_uri hm) = u"
    using request_uri_ok [OF p(2) lm(2)] mi small by (simp_all add: message_is_def)
  then obtain nc2 where "mg_http_call_endpoint_handler env tab True hm ?nc = Some nc2"
    "http_delivers tab eps u ?nc hm rest (recv_remove ?k nc2)"
    using endpoint_delivers [OF env(1,2) _ _ quiet, of hm u ?nc ?k rest]
      recv_remove_bytes [of ?nc "request_text m u q pr hs @ body" rest J] rx1 by auto
  with run mi show ?thesis by auto
qed

text \<open>A request whose body comes in chunks, all of them there: the user's handler sees the body as a chunk and then the
  request with it.\<close>

definition same_outside :: "'u http_conn \<Rightarrow> 'u http_conn \<Rightarrow> bool" where
  "same_outside a b \<longleftrightarrow> nc_send a = nc_send b \<and> hu_user (nc_user a) = hu_user (nc_user b) \<and>
     hu_handler (nc_user a) = hu_handler (nc_user b)"

lemma key_absent:
  assumes "http_inside mem 0 h hm" and "slots_hold mem hs hm" and "ms_len (hm_header_names hm ! length hs) = 0"
    and "take h mem' = take h mem" and "h \<le> length mem'" and "h \<le> length mem" and "\<forall>h \<in> set hs. fst h \<noteq> []"
    and "lookup_header hs key_name = None"
  shows "mg_get_http_header (hm_in mem' hm) (str ''Sec-WebSocket-Key'') = Some None"
proof -
  have nk: "0 \<notin> set key_name" by (simp add: key_name_def str_def ch_def)
  have none: "ms_len (hm_header_names (hm_in mem' hm) ! length hs) = 0"
    using assms(2,3) by (simp add: hm_in_def slots_hold_def str_in_def null_str_def)
  obtain x where "mg_get_http_header (hm_in mem' hm) key_name = Some x" "map_option ms_bytes x = lookup_header hs key_name"
    using header_found [OF slots_hold_in [OF assms(2,1,4,5,6)] none assms(7) nk] by blast
  then show ?thesis using assms(8) by (simp add: key_name_def)
qed

text \<open>One turn of the handler on a request with chunks, up to the reassembly.\<close>

lemma chunked_turn:
  assumes rx: "recv_holds nc (request_text m u q pr hs @ S) J" and ok: "request_ok m u q pr hs"
    and small: "length (request_text m u q pr hs @ S) < 2 ^ 31" and te: "chunked_value (lookup_header hs te_name)"
    and q: "quiet_handlers tab" and nofile: "hf_fp (pd_file (conn_pd nc)) = None" and req: "is_req env"
  obtains hm where "request_parsed (mb_mem (nc_recv nc)) 0 m u q pr hs hm"
    and "http_inside (mb_mem (nc_recv nc)) 0 (length (request_text m u q pr hs)) hm"
    and "\<And>bl hm3 nc3. mg_handle_chunked tab hm (length (request_text m u q pr hs)) (length S) (call_own tab (EvRecv n) nc) =
        Some (bl, hm3, nc3) \<Longrightarrow> mb_addr (nc_recv nc3) = mb_addr (nc_recv nc) \<Longrightarrow>
      mg_get_http_header (hm_in (mb_mem (nc_recv nc3)) hm3) (str ''Sec-WebSocket-Key'') = Some None \<Longrightarrow>
      mg_http_handler env tab (EvRecv n) nc =
        (if ms_len (hm_message hm3) \<le> mb_len (nc_recv nc3)
         then map_option (recv_remove (ms_len (hm_message hm3)))
           (mg_http_call_endpoint_handler env tab True (hm_in (mb_mem (nc_recv nc3)) hm3) nc3)
         else Some nc3)"
proof -
  let ?A = "request_text m u q pr hs" and ?nc = "call_own tab (EvRecv n) nc"
  have pos: "0 < length ?A" by (simp add: request_text_def crlf_def)
  have same: "nc_recv ?nc = nc_recv nc" "conn_pd ?nc = conn_pd nc" using quiet_own [OF q] by simp_all
  obtain hm where p: "mg_parse_http (mb_mem (nc_recv nc)) 0 (c_int (int (mb_len (nc_recv nc)))) True = Some (int (length ?A), hm)"
    "request_parsed (mb_mem (nc_recv nc)) 0 m u q pr hs hm" "http_inside (mb_mem (nc_recv nc)) 0 (length ?A) hm"
    using request_in_buffer [OF rx ok small] by blast
  have sl: "slots_hold (mb_mem (nc_recv nc)) hs hm" "ms_len (hm_header_names hm ! length hs) = 0"
    using p(2) by (simp_all add: request_parsed_def Let_def)
  have lm: "length ?A \<le> length (mb_mem (nc_recv nc))" using rx by (simp add: recv_holds_def)
  have ch: "is_chunked hm = Some True" using is_chunked_found [OF sl request_names [OF ok] p(3) lm] small te by simp
  have nl: "mb_len (nc_recv nc) - length ?A = length S" using rx by (simp add: recv_holds_def)
  have "mg_http_handler env tab (EvRecv n) nc =
        (if ms_len (hm_message hm3) \<le> mb_len (nc_recv nc3)
         then map_option (recv_remove (ms_len (hm_message hm3)))
           (mg_http_call_endpoint_handler env tab True (hm_in (mb_mem (nc_recv nc3)) hm3) nc3)
         else Some nc3)"
    if run: "mg_handle_chunked tab hm (length ?A) (length S) ?nc = Some (bl, hm3, nc3)"
    and addr: "mb_addr (nc_recv nc3) = mb_addr (nc_recv nc)"
    and k: "mg_get_http_header (hm_in (mb_mem (nc_recv nc3)) hm3) (str ''Sec-WebSocket-Key'') = Some None" for bl hm3 nc3
  proof -
    have "ms_len (hm_message (hm_in (mb_mem (nc_recv nc3)) hm3)) = ms_len (hm_message hm3)" by (simp add: hm_in_def str_in_def)
    then show ?thesis using p(1) ch run k req pos addr nl nofile same
      by (simp add: mg_http_handler_def http_on_recv_def Let_def ws_block_def map_conv_bind_option comp_def cong: if_cong)
  qed
  then show thesis using that p(2,3) by blast
qed

text \<open>The last chunk is there.\<close>

lemma http_chunked_delivers:
  assumes rx: "recv_holds nc (request_text m u q pr hs @ B @ chunks_text ds @ chunk_text []) J" and ok: "request_ok m u q pr hs"
    and small: "length (request_text m u q pr hs @ B @ chunks_text ds @ chunk_text []) < 2 ^ 31"
    and ds: "\<forall>d \<in> set ds. d \<noteq> []" and te: "chunked_value (lookup_header hs te_name)"
    and key: "lookup_header hs key_name = None" and env: "he_listener env = Some eps" "endpoints_ok (uri_end q) eps"
    and q: "quiet_handlers tab" and nofile: "hf_fp (pd_file (conn_pd nc)) = None" and pd: "pd_body_len (conn_pd nc) = length B"
  shows "\<exists>hm hm1 nc1 nc'. mg_http_handler env tab (EvRecv n) nc = Some nc' \<and> ms_bytes (hm_body hm1) = B @ concat ds \<and>
    same_outside nc1 (call_own tab (EvRecv n) nc) \<and> message_is hm m u q pr hs (B @ concat ds) \<and>
    http_delivers tab eps u (call_own tab (EvProto (HttpChunk hm1)) nc1) hm [] nc'"
proof -
  let ?A = "request_text m u q pr hs" and ?S = "B @ chunks_text ds @ chunk_text []" and ?R = "chunks_text ds @ chunk_text []"
  let ?nc = "call_own tab (EvRecv n) nc" and ?mem = "mb_mem (nc_recv nc)" and ?b = "B @ concat ds"
  have pos: "0 < length ?A" by (simp add: request_text_def crlf_def)
  have req: "is_req env" using env(1) by (simp add: is_req_def)
  obtain hm where p: "request_parsed ?mem 0 m u q pr hs hm" "http_inside ?mem 0 (length ?A) hm"
    and turn: "\<And>bl hm3 nc3. mg_handle_chunked tab hm (length ?A) (length ?S) ?nc = Some (bl, hm3, nc3) \<Longrightarrow>
      mb_addr (nc_recv nc3) = mb_addr (nc_recv nc) \<Longrightarrow>
      mg_get_http_header (hm_in (mb_mem (nc_recv nc3)) hm3) (str ''Sec-WebSocket-Key'') = Some None \<Longrightarrow>
      mg_http_handler env tab (EvRecv n) nc = (if ms_len (hm_message hm3) \<le> mb_len (nc_recv nc3)
         then map_option (recv_remove (ms_len (hm_message hm3)))
           (mg_http_call_endpoint_handler env tab True (hm_in (mb_mem (nc_recv nc3)) hm3) nc3)
         else Some nc3)"
    using chunked_turn [OF rx ok small te q nofile req, of n] by blast
  have sl: "slots_hold ?mem hs hm" "ms_len (hm_header_names hm ! length hs) = 0" using p(1) by (simp_all add: request_parsed_def Let_def)
  have lm: "length ?A \<le> length ?mem" "take (length ?A) ?mem = ?A" using rx by (simp_all add: recv_holds_def)
  have hmp: "ms_p (hm_body hm) = length ?A" "ms_p (hm_message hm) = 0" using p(2) by (simp_all add: http_inside_def)
  have cok: "chunk_handler_ok tab" using quiet_own [OF q] by (simp add: chunk_handler_ok_def)
  have rx2: "recv_holds ?nc (?A @ B @ chunks_text ds @ chunk_text [] @ []) J" using rx quiet_own [OF q] by (simp add: recv_holds_def)
  have pd2: "pd_body_len (conn_pd ?nc) = length B" using pd quiet_own [OF q] by simp
  have sz: "length (?A @ B @ chunks_text ds @ chunk_text [] @ []) < 2 ^ 63" using small by simp
  have fin: "if True then chunk_text [] = chunk_text [] else chunk_text [] = [] \<and> ds \<noteq> [] \<and> no_chunk ([] @ J) (length [])" by simp
  obtain hm1 nc1 hm3 nc3 J' where
    run: "mg_handle_chunked tab hm (length ?A) (length (B @ chunks_text ds @ chunk_text [] @ [])) ?nc = Some (length ?b, hm3, nc3)"
    and hb1: "ms_bytes (hm_body hm1) = ?b" and out1: "nc_send nc1 = nc_send ?nc"
    and usr1: "nc_user nc1 = (nc_user ?nc)\<lparr>hu_pd := (conn_pd ?nc)\<lparr>pd_body_len := length ?b\<rparr>\<rparr>"
    and n1: "recv_holds nc1 (?A @ B @ concat ds @ []) (replicate (length (chunks_text ds @ chunk_text []) - length (concat ds)) 0 @ J)"
    and addr: "mb_addr (nc_recv nc1) = mb_addr (nc_recv ?nc)"
    and after: "if has_flag (call_own tab (EvProto (HttpChunk hm1)) nc1) MG_F_DELETE_CHUNK
      then recv_holds nc3 (?A @ []) J' \<and> pd_body_len (conn_pd nc3) = 0 \<and> ms_len (hm_body hm3) = 0 \<and>
        (True \<longrightarrow> ms_len (hm_message hm3) = length (?A @ []))
      else nc3 = call_own tab (EvProto (HttpChunk hm1)) nc1 \<and> ms_len (hm_body hm3) = length ?b \<and>
        (True \<longrightarrow> hm3 = (body_len_to (length ?b) hm)\<lparr>hm_message := (hm_message hm)\<lparr>ms_len := length (?A @ B @ concat ds @ [])\<rparr>\<rparr>) \<and>
        (\<not> True \<longrightarrow> hm3 = body_len_to (length ?b) hm)"
    and fl: "nc_flags nc1 = nc_flags ?nc AND NOT MG_F_DELETE_CHUNK"
    by (rule mg_handle_chunked_run [OF rx2 refl pos pd2 sz ds fin hmp cok])
  have "\<not> has_flag (call_own tab (EvProto (HttpChunk hm1)) nc1) MG_F_DELETE_CHUNK"
    using quiet_own(3) [OF q] fl by (simp add: has_flag_def and.assoc)
  with after have nc3: "nc3 = call_own tab (EvProto (HttpChunk hm1)) nc1"
    and hm3: "hm3 = (body_len_to (length ?b) hm)\<lparr>hm_message := (hm_message hm)\<lparr>ms_len := length (?A @ ?b)\<rparr>\<rparr>"
    by simp_all
  have r3: "nc_recv nc3 = nc_recv nc1" using quiet_own [OF q] nc3 by simp
  let ?m3 = "mb_mem (nc_recv nc3)"
  have m3: "take (length ?A) ?m3 = take (length ?A) ?mem" "length ?A \<le> length ?m3"
    "?m3 = ?A @ ?b @ replicate (length ?R - length (concat ds)) 0 @ J" "mb_len (nc_recv nc3) = length (?A @ ?b)"
    using n1 r3 lm(2) by (simp_all add: recv_holds_def)
  have in3: "http_inside ?mem 0 (length ?A) hm3" "slots_hold ?mem hs hm3" "ms_len (hm_header_names hm3 ! length hs) = 0"
    using p(2) sl by (simp_all add: hm3 http_inside_def body_len_to_def slots_hold_def)
  have hb: "hm_body hm3 = \<lparr>ms_mem = ?mem, ms_p = length ?A, ms_len = length ?b\<rparr>"
    using p(2) by (simp add: hm3 body_len_to_def http_inside_def)
  have "message_is hm3 m u q pr hs (ms_bytes (hm_body hm3))"
    using p(1) by (simp add: message_is_def request_parsed_def Let_def hm3 body_len_to_def header_list_def)
  then have "message_is (hm_in ?m3 hm3) m u q pr hs (ms_bytes (str_in ?m3 (hm_body hm3)))"
    using message_in [OF in3(1) m3(1,2) lm(1) _ in3(2,3) request_names [OF ok]] by blast
  moreover have "ms_bytes (str_in ?m3 (hm_body hm3)) = ?b"
    using hb m3(3) pos by (simp add: str_in_body ms_bytes_def bslice_def)
  ultimately have mi: "message_is (hm_in ?m3 hm3) m u q pr hs ?b" by simp
  have k: "mg_get_http_header (hm_in ?m3 hm3) (str ''Sec-WebSocket-Key'') = Some None"
    by (rule key_absent [OF in3(1,2,3) m3(1,2) lm(1) request_names [OF ok] key])
  let ?k = "length (?A @ ?b)"
  have hand: "mg_http_handler env tab (EvRecv n) nc =
      map_option (recv_remove ?k) (mg_http_call_endpoint_handler env tab True (hm_in ?m3 hm3) nc3)"
    using turn [of "length ?b" hm3 nc3] run k addr r3 m3(4) quiet_own(1) [OF q] by (simp add: hm3)
  have mi_u: "ms_bytes (str_in ?m3 (hm_uri hm)) = u" using mi by (simp add: message_is_def hm_in_def hm3 body_len_to_def)
  have "take (length ?A) ?m3 = ?A" using m3(1) lm(2) by simp
  from request_uri_ok [OF p(1) this mi_u] mi_u small have "str_ok (uri_end q) (hm_uri (hm_in ?m3 hm3))" "ms_bytes (hm_uri (hm_in ?m3 hm3)) = u"
    by (simp_all add: hm_in_def hm3 body_len_to_def)
  then obtain nc2 where "mg_http_call_endpoint_handler env tab True (hm_in ?m3 hm3) nc3 = Some nc2"
    "http_delivers tab eps u nc3 (hm_in ?m3 hm3) [] (recv_remove ?k nc2)"
    using endpoint_delivers [OF env(1,2) _ _ q, of "hm_in ?m3 hm3" u nc3 ?k "[]"]
      recv_remove_bytes [of nc1 "?A @ ?b" "[]"] n1 r3 by auto
  moreover have "same_outside nc1 ?nc" using out1 usr1 by (simp add: same_outside_def)
  ultimately show ?thesis using hand mi hb1 nc3 by auto
qed

text \<open>More is to come: what is whole is put together, and the request waits.\<close>

lemma http_chunked_waits:
  assumes rx: "recv_holds nc (request_text m u q pr hs @ B @ chunks_text ds @ R) J" and ok: "request_ok m u q pr hs"
    and small: "length (request_text m u q pr hs @ B @ chunks_text ds @ R) < 2 ^ 31"
    and ds: "\<forall>d \<in> set ds. d \<noteq> []" and R: "no_chunk (R @ J) (length R)" and te: "chunked_value (lookup_header hs te_name)"
    and key: "lookup_header hs key_name = None" and ann: "declared_length hs SIZE_MAX = SIZE_MAX" and post: "has_body m"
    and req: "is_req env"
    and l: "http_listener lg tab" and inv: "mbuf_inv (nc_recv nc)" and nofile: "hf_fp (pd_file (conn_pd nc)) = None" and pd: "pd_body_len (conn_pd nc) = length B"
  shows "\<exists>nc' J'. mg_http_handler env tab (EvRecv n) nc = Some nc' \<and>
    recv_holds nc' (request_text m u q pr hs @ (B @ concat ds) @ R) J' \<and> pd_body_len (conn_pd nc') = length (B @ concat ds) \<and>
    hf_fp (pd_file (conn_pd nc')) = None \<and> mbuf_inv (nc_recv nc') \<and> request_log lg nc' = request_log lg nc \<and>
    hu_handler (nc_user nc') = hu_handler (nc_user nc) \<and>
    has_flag nc' MG_F_CLOSE_IMMEDIATELY = has_flag nc MG_F_CLOSE_IMMEDIATELY"
proof -
  have q: "quiet_handlers tab" using l by (simp add: http_listener_def)
  have own: "request_log lg (call_own tab ev x) = request_log lg x" "hu_handler (nc_user (call_own tab ev x)) = hu_handler (nc_user x)"
    if "\<forall>hm. ev \<noteq> EvProto (HttpRequest hm)" for ev x
    using listener_call [OF l] that by (auto simp: call_own_def split: mg_event.splits http_event.splits)
  let ?A = "request_text m u q pr hs" and ?S = "B @ chunks_text ds @ R" and ?b = "B @ concat ds"
  let ?nc = "call_own tab (EvRecv n) nc" and ?mem = "mb_mem (nc_recv nc)"
  have pos: "0 < length ?A" by (simp add: request_text_def crlf_def)
  obtain hm where p: "request_parsed ?mem 0 m u q pr hs hm" "http_inside ?mem 0 (length ?A) hm"
    and turn: "\<And>bl hm3 nc3. mg_handle_chunked tab hm (length ?A) (length ?S) ?nc = Some (bl, hm3, nc3) \<Longrightarrow>
      mb_addr (nc_recv nc3) = mb_addr (nc_recv nc) \<Longrightarrow>
      mg_get_http_header (hm_in (mb_mem (nc_recv nc3)) hm3) (str ''Sec-WebSocket-Key'') = Some None \<Longrightarrow>
      mg_http_handler env tab (EvRecv n) nc = (if ms_len (hm_message hm3) \<le> mb_len (nc_recv nc3)
         then map_option (recv_remove (ms_len (hm_message hm3)))
           (mg_http_call_endpoint_handler env tab True (hm_in (mb_mem (nc_recv nc3)) hm3) nc3)
         else Some nc3)"
    using chunked_turn [OF rx ok small te q nofile req, of n] by blast
  have sl: "slots_hold ?mem hs hm" "ms_len (hm_header_names hm ! length hs) = 0" using p(1) by (simp_all add: request_parsed_def Let_def)
  have big: "ms_len (hm_message hm) = SIZE_MAX" using p(1) ann post by (simp add: request_parsed_def Let_def request_body_len_def)
  have lm: "length ?A \<le> length ?mem" "take (length ?A) ?mem = ?A" using rx by (simp_all add: recv_holds_def)
  have hmp: "ms_p (hm_body hm) = length ?A" "ms_p (hm_message hm) = 0" using p(2) by (simp_all add: http_inside_def)
  have cok: "chunk_handler_ok tab" using quiet_own [OF q] by (simp add: chunk_handler_ok_def)
  have pd2: "pd_body_len (conn_pd ?nc) = length B" using pd quiet_own [OF q] by simp
  show ?thesis
  proof (cases "ds = []")
    case True
    have rx2: "mb_mem (nc_recv ?nc) = ?A @ B @ R @ J" using rx quiet_own [OF q] True by (simp add: recv_holds_def chunks_text_def)
    have same: "put_mem (?A @ B @ R @ J) ?nc = ?nc" using rx2 unfolding put_mem_def by simp
    have "chunk_loop (?A @ B @ R @ J) (length ?A) (length ?S) (length B) (length B) None = Some (?A @ B @ R @ J, length B, length B, False, None)"
      using chunk_loop_stops [of "length ?A" "length B" "?A @ B @ R @ J" "length ?S" "length B" None] R True by (simp add: chunks_text_def)
    then have run: "mg_handle_chunked tab hm (length ?A) (length ?S) ?nc = Some (length B, hm, ?nc)"
      using rx2 pd2 same by (simp add: mg_handle_chunked_def Let_def)
    have k: "mg_get_http_header (hm_in (mb_mem (nc_recv ?nc)) hm) (str ''Sec-WebSocket-Key'') = Some None"
      using key_absent [OF p(2) sl _ _ lm(1) request_names [OF ok] key, of ?mem] lm quiet_own(1) [OF q] by simp
    have "mg_http_handler env tab (EvRecv n) nc = Some ?nc"
      using turn [OF run _ k] big rx small quiet_own(1) [OF q] by (simp add: recv_holds_def SIZE_MAX_def)
    then show ?thesis using rx pd nofile quiet_own [OF q] True own [of "EvRecv n" nc] inv
      by (auto simp: recv_holds_def chunks_text_def has_flag_def)
  next
    case False
    have rx2: "recv_holds ?nc (?A @ B @ chunks_text ds @ [] @ R) J" using rx quiet_own [OF q] by (simp add: recv_holds_def)
    have sz: "length (?A @ B @ chunks_text ds @ [] @ R) < 2 ^ 63" using small by simp
    have fin: "if False then [] = chunk_text [] else [] = ([] :: bytes) \<and> ds \<noteq> [] \<and> no_chunk (R @ J) (length R)" using False R by simp
    obtain hm1 nc1 hm3 nc3 J' where
      run: "mg_handle_chunked tab hm (length ?A) (length (B @ chunks_text ds @ [] @ R)) ?nc = Some (length ?b, hm3, nc3)"
      and n1: "recv_holds nc1 (?A @ B @ concat ds @ R) (replicate (length (chunks_text ds @ []) - length (concat ds)) 0 @ J)"
      and pd1: "pd_body_len (conn_pd nc1) = length ?b"
      and addr: "mb_addr (nc_recv nc1) = mb_addr (nc_recv ?nc)"
      and after: "if has_flag (call_own tab (EvProto (HttpChunk hm1)) nc1) MG_F_DELETE_CHUNK
        then recv_holds nc3 (?A @ R) J' \<and> pd_body_len (conn_pd nc3) = 0 \<and> ms_len (hm_body hm3) = 0 \<and>
          (False \<longrightarrow> ms_len (hm_message hm3) = length (?A @ R))
        else nc3 = call_own tab (EvProto (HttpChunk hm1)) nc1 \<and> ms_len (hm_body hm3) = length ?b \<and>
          (False \<longrightarrow> hm3 = (body_len_to (length ?b) hm)\<lparr>hm_message := (hm_message hm)\<lparr>ms_len := length (?A @ B @ concat ds @ R)\<rparr>\<rparr>) \<and>
          (\<not> False \<longrightarrow> hm3 = body_len_to (length ?b) hm)"
      and size1: "mb_size (nc_recv nc1) = mb_size (nc_recv ?nc)"
      and fl: "nc_flags nc1 = nc_flags ?nc AND NOT MG_F_DELETE_CHUNK"
      and usr1: "nc_user nc1 = (nc_user ?nc)\<lparr>hu_pd := (conn_pd ?nc)\<lparr>pd_body_len := length ?b\<rparr>\<rparr>"
      by (rule mg_handle_chunked_run [OF rx2 refl pos pd2 sz ds fin hmp cok])
    have "\<not> has_flag (call_own tab (EvProto (HttpChunk hm1)) nc1) MG_F_DELETE_CHUNK"
      using quiet_own(3) [OF q] fl by (simp add: has_flag_def and.assoc)
    with after have nc3: "nc3 = call_own tab (EvProto (HttpChunk hm1)) nc1" and hm3: "hm3 = body_len_to (length ?b) hm" by simp_all
    have r3: "nc_recv nc3 = nc_recv nc1" "conn_pd nc3 = conn_pd nc1" using quiet_own [OF q] nc3 by simp_all
    let ?m3 = "mb_mem (nc_recv nc3)"
    have m3: "take (length ?A) ?m3 = take (length ?A) ?mem" "length ?A \<le> length ?m3" "mb_len (nc_recv nc3) = length (?A @ ?b @ R)"
      using n1 r3 lm(2) by (simp_all add: recv_holds_def)
    have in3: "http_inside ?mem 0 (length ?A) hm3" "slots_hold ?mem hs hm3" "ms_len (hm_header_names hm3 ! length hs) = 0"
      using p(2) sl by (simp_all add: hm3 http_inside_def body_len_to_def slots_hold_def)
    have k: "mg_get_http_header (hm_in ?m3 hm3) (str ''Sec-WebSocket-Key'') = Some None"
      by (rule key_absent [OF in3 m3(1,2) lm(1) request_names [OF ok] key])
    have le: "length (concat ds) \<le> length (chunks_text ds)"
    proof (induction ds)
      case (Cons d ds)
      then show ?case using chunk_text_longer [of d] by (simp add: chunks_text_def)
    qed simp
    have "mb_len (nc_recv nc3) < SIZE_MAX" using le m3(3) small by (simp add: SIZE_MAX_def)
    then have "mg_http_handler env tab (EvRecv n) nc = Some nc3"
      using turn [of "length ?b" hm3 nc3] run addr r3 k big quiet_own(1) [OF q] by (simp add: hm3 body_len_to_def)
    moreover have "recv_holds nc3 (?A @ ?b @ R) (replicate (length (chunks_text ds @ []) - length (concat ds)) 0 @ J)"
      using n1 r3 by (simp add: recv_holds_def)
    moreover have "hf_fp (pd_file (conn_pd nc3)) = None" using r3(2) usr1 nofile quiet_own(2) [OF q] by simp
    moreover have "mbuf_inv (nc_recv nc3)"
      using inv rx n1 r3(1) size1 addr le quiet_own(1) [OF q] by (simp add: mbuf_inv_def recv_holds_def)
    moreover have "request_log lg nc3 = request_log lg nc" "hu_handler (nc_user nc3) = hu_handler (nc_user nc)"
      using nc3 own [of "EvProto (HttpChunk hm1)" nc1] own [of "EvRecv n" nc] usr1 by (simp_all add: request_log_def)
    moreover have "has_flag nc3 MG_F_CLOSE_IMMEDIATELY = has_flag nc MG_F_CLOSE_IMMEDIATELY"
    proof -
      have "nc_flags nc3 = nc_flags nc AND NOT MG_F_DELETE_CHUNK" using nc3 fl quiet_own(3) [OF q] by simp
      moreover have "NOT MG_F_DELETE_CHUNK AND MG_F_CLOSE_IMMEDIATELY = MG_F_CLOSE_IMMEDIATELY"
        by (simp add: MG_F_DELETE_CHUNK_def MG_F_CLOSE_IMMEDIATELY_def)
      ultimately show ?thesis by (simp add: has_flag_def and.assoc)
    qed
    ultimately show ?thesis using pd1 r3(2) by auto
  qed
qed

section \<open>What reassembly gets wrong\<close>

text \<open>The length of a chunk wraps around: a chunk said to have \<open>2 ^ 64 - 2\<close> bytes is whole.\<close>

lemma chunk_length_wraps:
  "mg_http_parse_chunk (str ''FFFFFFFFFFFFFFFE'' @ crlf) 0 18 = Some (18, 18, 2 ^ 64 - 2)"
proof -
  let ?h = "str ''FFFFFFFFFFFFFFFE''"
  have d: "drop (0 + 0) (?h @ crlf) = ?h @ 13 # [10]" by (simp add: crlf_def)
  have x: "\<forall>c \<in> set ?h. is_xdigit c" by (simp add: str_def ch_def is_xdigit_def is_digit_def)
  have "fold (\<lambda>c n. n * 16 + chunk_digit c) ?h 0 = (2 ^ 64 - 2 :: nat)"
    by (simp add: str_def ch_def chunk_digit_def tolower_def)
  then have s: "chunk_scan (?h @ crlf) 0 18 0 0 = Some (16, 2 ^ 64 - 2)"
    using chunk_scan_digits [OF d x, of 18 0] by (simp add: is_xdigit_def is_digit_def ch_def)
  have c: "chunk_crlf (?h @ crlf) 0 18 16 = Some True"
    using chunk_crlf_ahead [of 0 16 "?h @ crlf" "[]" 18] by (simp add: crlf_def)
  have w: "((16 + 2) + (2 ^ 64 - 2)) mod 2 ^ 64 = (16 :: nat)" by simp
  show ?thesis
    unfolding mg_http_parse_chunk_def s bind.bind_lunit prod.case c Let_def w by simp
qed

text \<open>Bytes that are there behind the last chunk are counted as part of the message: of two requests received together
  the second is dropped with the first.  The length of the body put together is not reset either, so that the next
  chunked message on the connection fails the assertion on it, or is taken to begin with a body.\<close>

lemma chunked_message_length:
  assumes "recv_holds nc (A @ chunks_text ds @ chunk_text [] @ R) J" and "length A = buf" and "0 < buf"
    and "pd_body_len (conn_pd nc) = 0" and "length (A @ chunks_text ds @ chunk_text [] @ R) < 2 ^ 63"
    and "\<forall>d \<in> set ds. d \<noteq> []" and "ms_p (hm_body hm) = buf" and "ms_p (hm_message hm) = 0" and "quiet_handlers tab"
  shows "\<exists>hm3 nc3. mg_handle_chunked tab hm buf (length (chunks_text ds @ chunk_text [] @ R)) nc = Some (length (concat ds), hm3, nc3) \<and>
    ms_len (hm_message hm3) = length (A @ concat ds @ R) \<and> pd_body_len (conn_pd nc3) = length (concat ds)"
proof -
  have cok: "chunk_handler_ok tab" using quiet_own [OF assms(9)] by (simp add: chunk_handler_ok_def)
  have rx: "recv_holds nc (A @ [] @ chunks_text ds @ chunk_text [] @ R) J" using assms(1) by simp
  have pd: "pd_body_len (conn_pd nc) = length []" using assms(4) by simp
  have sz: "length (A @ [] @ chunks_text ds @ chunk_text [] @ R) < 2 ^ 63" using assms(5) by simp
  have fin: "if True then chunk_text [] = chunk_text [] else chunk_text [] = [] \<and> ds \<noteq> [] \<and> no_chunk (R @ J) (length R)" by simp
  show ?thesis
  proof (rule mg_handle_chunked_run [OF rx assms(2,3) pd sz assms(6) fin assms(7,8) cok], goal_cases)
    case (1 hm1 nc1 hm3 nc3 J')
    have "\<not> has_flag (call_own tab (EvProto (HttpChunk hm1)) nc1) MG_F_DELETE_CHUNK"
      using quiet_own(3) [OF assms(9)] 1 by (simp add: has_flag_def and.assoc)
    then show ?thesis using 1 quiet_own(2) [OF assms(9)] by (intro exI [of _ hm3] exI [of _ nc3]) auto
  qed
qed

lemma second_chunked_message_fails:
  "blen < pd_body_len (conn_pd nc) \<Longrightarrow> mg_handle_chunked tab hm buf blen nc = None"
  by (simp add: mg_handle_chunked_def Let_def)

section \<open>Chunks that arrive in pieces\<close>

lemma chunk_crlf_short: "len < i + 2 \<Longrightarrow> i < 2 ^ 63 \<Longrightarrow> chunk_crlf mem buf len i = Some False"
  by (simp add: chunk_crlf_def)

lemma chunk_scan_all:
  assumes "\<forall>c \<in> set ds. is_xdigit c"
  shows "drop (buf + i) mem = ds @ r \<Longrightarrow> i + length ds = len \<Longrightarrow> \<exists>n'. chunk_scan mem buf len i n = Some (len, n')"
  using assms
proof (induction ds arbitrary: i n)
  case (Cons d ds)
  have "rd mem (buf + i) = Some d" using Cons.prems(1) by (intro rd_ahead) simp
  moreover have "drop (buf + (i + 1)) mem = ds @ r"
    using drop_past [of "buf + i" mem "[d]" "ds @ r" 1] Cons.prems(1) by (simp add: add.assoc)
  ultimately show ?case using Cons.IH [of "i + 1"] Cons.prems by (subst chunk_scan.simps) auto
qed (subst chunk_scan.simps, simp)

text \<open>A chunk of which the last bytes are missing is not a whole chunk.\<close>

lemma no_chunk_cut:
  assumes "k < length (chunk_text d)" and "length (chunk_text d) < 2 ^ 62"
  shows "no_chunk (take k (chunk_text d) @ J) k"
proof -
  let ?h = "hex_text (length d)" and ?t = "take k (chunk_text d)"
  have t: "chunk_text d = ?h @ 13 # 10 # d @ crlf" by (simp add: chunk_text_def crlf_def)
  have l: "length (chunk_text d) = length ?h + 4 + length d" by (simp add: chunk_text_def crlf_def)
  have big: "length d < 2 ^ 64" "k < 2 ^ 62" using assms l by simp_all
  show ?thesis
  proof (cases "k \<le> length ?h")
    case True
    then have "?t = take k ?h" by (simp add: t)
    moreover have "\<forall>c \<in> set (take k ?h). is_xdigit c" using hex_text_digits by (auto dest: in_set_takeD)
    ultimately obtain n where "chunk_scan (?t @ J) 0 k 0 0 = Some (k, n)"
      using chunk_scan_all [of "take k ?h" 0 0 "?t @ J" J k 0] True by auto
    then show ?thesis using chunk_crlf_short [of k k "?t @ J" 0] big by (simp add: no_chunk_def mg_http_parse_chunk_def)
  next
    case False
    then obtain r where r: "?t = ?h @ 13 # r" by (cases "k - length ?h") (simp_all add: t)
    then have d0: "drop (0 + 0) (?t @ J) = ?h @ 13 # (r @ J)" by simp
    have "chunk_scan (?t @ J) 0 k 0 0 = Some (length ?h, length d)"
      using chunk_scan_digits [OF d0 hex_text_digits, of k 0] False hex_value_hex_text [of "length d"] big
      by (simp add: is_xdigit_def is_digit_def ch_def hex_value_def)
    moreover obtain ok where "chunk_crlf (?t @ J) 0 k (length ?h) = Some ok"
    proof (cases "k < length ?h + 2")
      case True
      then show thesis using that chunk_crlf_short [of k "length ?h"] False big by simp
    next
      case False
      then have "length ?h + 2 \<le> length (?t @ J)" using assms(1) by simp
      then have "\<exists>ok. chunk_crlf (?t @ J) 0 k (length ?h) = Some ok" by (auto simp: chunk_crlf_def rd_def cong: if_cong)
      then show thesis using that by blast
    qed
    moreover have "chunk_crlf (?t @ J) 0 k (length ?h + 2 + length d) = Some False"
      by (rule chunk_crlf_short) (use assms l in simp_all)
    moreover have "(length ?h + 2 + length d) mod 2 ^ 64 = length ?h + 2 + length d" using assms l by simp
    ultimately show ?thesis by (cases ok) (simp_all add: no_chunk_def mg_http_parse_chunk_def Let_def)
  qed
qed

text \<open>What has arrived of a body are whole chunks and the beginning of another, or all of it.\<close>

lemma chunks_cut:
  assumes "chunks_text ds @ chunk_text [] = X @ Y" and "length (chunks_text ds @ chunk_text []) < 2 ^ 62"
  shows "X = chunks_text ds @ chunk_text [] \<and> Y = [] \<or>
    (\<exists>ds1 ds2 R. ds = ds1 @ ds2 \<and> X = chunks_text ds1 @ R \<and> (\<forall>J. no_chunk (R @ J) (length R)) \<and>
       R @ Y = chunks_text ds2 @ chunk_text [])"
  using assms
proof (induction ds arbitrary: X)
  case Nil
  then have e: "chunk_text [] = X @ Y" by (simp add: chunks_text_def)
  show ?case
  proof (cases "Y = []")
    case False
    then have "X = take (length X) (chunk_text [])" "length X < length (chunk_text [])" using e by simp_all
    then have "\<forall>J. no_chunk (X @ J) (length X)" using no_chunk_cut [of "length X" "[]"] Nil.prems(2) by (simp add: chunks_text_def)
    then show ?thesis using e by (intro disjI2 exI [of _ "[]"] exI [of _ "[]"] exI [of _ X]) (simp add: chunks_text_def)
  qed (use e in \<open>simp add: chunks_text_def\<close>)
next
  case (Cons d ds)
  have e: "chunk_text d @ (chunks_text ds @ chunk_text []) = X @ Y" using Cons.prems(1) by (simp add: chunks_text_def)
  show ?case
  proof (cases "length X < length (chunk_text d)")
    case True
    have "X = take (length X) (chunk_text d)" using arg_cong [OF e, of "take (length X)"] True by simp
    moreover have "length (chunk_text d) < 2 ^ 62" using Cons.prems(2) by (simp add: chunks_text_def)
    ultimately have "\<forall>J. no_chunk (X @ J) (length X)" using no_chunk_cut [OF True] by metis
    then show ?thesis using e by (intro disjI2 exI [of _ "[]"] exI [of _ "d # ds"] exI [of _ X]) (simp add: chunks_text_def)
  next
    case False
    define X' where "X' = drop (length (chunk_text d)) X"
    have "take (length (chunk_text d)) X = chunk_text d" using arg_cong [OF e, of "take (length (chunk_text d))"] False by simp
    then have X: "X = chunk_text d @ X'" unfolding X'_def by (metis append_take_drop_id)
    then have Y: "chunks_text ds @ chunk_text [] = X' @ Y" using e by simp
    have c: "chunks_text (d # z) = chunk_text d @ chunks_text z" for z by (simp add: chunks_text_def)
    have "length (chunks_text ds @ chunk_text []) < 2 ^ 62" using Cons.prems(2) c by simp
    from Cons.IH [OF Y this] show ?thesis
    proof (elim disjE exE conjE)
      fix ds1 ds2 R
      assume "ds = ds1 @ ds2" "X' = chunks_text ds1 @ R" "\<forall>J. no_chunk (R @ J) (length R)" "R @ Y = chunks_text ds2 @ chunk_text []"
      then show ?thesis using X c by (intro disjI2 exI [of _ "d # ds1"] exI [of _ ds2] exI [of _ R]) simp
    qed (use X c in simp)
  qed
qed

section \<open>Receiving over the poll loop\<close>

text \<open>\<open>mg_if_recv_tcp_cb\<close> with the protocol handler of HTTP, which may fail: the data is taken over or appended as
  for any connection, then the handler gets its event.\<close>

definition http_receive :: "http_env \<Rightarrow> 'u http_handlers \<Rightarrow> nat \<Rightarrow> bytes \<Rightarrow> 'u http_conn \<Rightarrow> 'u http_conn option" where
  "http_receive env tab addr b nc =
     (if has_flag nc MG_F_CLOSE_IMMEDIATELY then Some nc
      else mg_http_handler env tab (EvRecv (int (length b)))
        (mg_if_recv_tcp_cb (he_io env) (\<lparr>proto_handler = None, user_handler = None\<rparr> :: (http_event, 'u http_user) handlers) addr b True nc))"

fun http_feed :: "http_env \<Rightarrow> 'u http_handlers \<Rightarrow> nat \<Rightarrow> bytes list \<Rightarrow> 'u http_conn \<Rightarrow> 'u http_conn option" where
  "http_feed env tab addr [] nc = Some nc"
| "http_feed env tab addr (p # ps) nc = do { nc \<leftarrow> http_receive env tab addr p nc; http_feed env tab addr ps nc }"

text \<open>A connection on which nothing has been received yet, and a block for what is.\<close>

definition http_fresh :: "nat \<Rightarrow> 'u http_conn \<Rightarrow> bool" where
  "http_fresh addr nc \<longleftrightarrow> 0 < addr \<and> addr < USER_SPACE \<and> mbuf_inv (nc_recv nc) \<and> mb_len (nc_recv nc) = 0 \<and>
     pd_body_len (conn_pd nc) = 0 \<and> hf_fp (pd_file (conn_pd nc)) = None \<and> \<not> has_flag nc MG_F_CLOSE_IMMEDIATELY"

lemma receive_first:
  assumes "http_fresh addr nc"
  obtains nc1 where "http_receive env tab addr b nc = mg_http_handler env tab (EvRecv (int (length b))) nc1"
    and "recv_holds nc1 b []" and "mbuf_inv (nc_recv nc1) \<or> b = []" and "nc_user nc1 = nc_user nc" and "nc_flags nc1 = nc_flags nc"
  using assms that by (auto simp: http_fresh_def http_receive_def mg_if_recv_tcp_cb_def mg_recv_common_def mg_call_def mg_call_user_def
    Let_def recv_holds_def mbuf_inv_def)

lemma receive_more:
  assumes "reliable K (io_ra (he_io env))" and "recv_holds nc x J" and "mbuf_inv (nc_recv nc)" and "x \<noteq> []"
    and "\<not> has_flag nc MG_F_CLOSE_IMMEDIATELY" and "mbuf_grow (length (x @ b)) \<le> K"
  obtains nc1 J' where "http_receive env tab addr b nc = mg_http_handler env tab (EvRecv (int (length b))) nc1"
    and "recv_holds nc1 (x @ b) J'" and "mbuf_inv (nc_recv nc1)" and "nc_user nc1 = nc_user nc" and "nc_flags nc1 = nc_flags nc"
proof -
  let ?m = "nc_recv nc"
  define m' where "m' = mbuf_add (io_ra (he_io env)) ?m b"
  have l: "mb_len ?m = length x" and x: "mbuf_bytes ?m = x" using assms(2) by (simp_all add: recv_holds_def mbuf_bytes_def)
  have m: "mbuf_bytes m' = x @ b" "mbuf_inv m'"
    using mbuf_add_bytes [OF assms(1,3), of b] assms(6) l x by (simp_all add: m'_def)
  have n: "mb_len m' = length (x @ b)" using length_mbuf_bytes [OF m(2)] m(1) by simp
  have "mb_mem m' = (x @ b) @ drop (mb_len m') (mb_mem m')"
    using m(1) append_take_drop_id [of "mb_len m'" "mb_mem m'"] by (simp add: mbuf_bytes_def)
  then show thesis using that [of "nc\<lparr>nc_last_io_time := io_now (he_io env), nc_recv := m'\<rparr>" "drop (mb_len m') (mb_mem m')"] m n assms(4,5) l
    by (simp add: http_receive_def mg_if_recv_tcp_cb_def mg_recv_common_def mg_call_def mg_call_user_def Let_def recv_holds_def m'_def)
qed

text \<open>The chunks of a request from some point on: \<open>S\<close> is what the buffer holds behind what is put together.\<close>

definition delivered_once ::
  "('u \<Rightarrow> (nat \<times> http_message) list) \<Rightarrow> (bytes \<times> nat) list \<Rightarrow> bytes \<Rightarrow> http_message \<Rightarrow> bytes \<Rightarrow> 'u http_conn \<Rightarrow> 'u http_conn \<Rightarrow> bool"
where
  "delivered_once lg eps u hm rest nc nc' \<longleftrightarrow> mbuf_bytes (nc_recv nc') = rest \<and>
     (\<exists>eh. endpoint_chosen eps u eh \<and>
        request_log lg nc' = request_log lg nc @ [(endpoint_or (hu_handler (nc_user nc)) eh, hm)])"

lemma delivered_once_user:
  "nc_user a = nc_user b \<Longrightarrow> delivered_once lg eps u hm rest a nc' = delivered_once lg eps u hm rest b nc'"
  by (simp add: delivered_once_def request_log_def)

lemma listener_own:
  assumes "http_listener lg tab" and "\<forall>hm. ev \<noteq> EvProto (HttpRequest hm)"
  shows "request_log lg (call_own tab ev x) = request_log lg x" "hu_handler (nc_user (call_own tab ev x)) = hu_handler (nc_user x)"
  using listener_call [OF assms(1)] assms(2) by (auto simp: call_own_def split: mg_event.splits http_event.splits)

lemma http_feed_from:
  assumes l: "http_listener lg tab" and env: "he_listener env = Some eps" "endpoints_ok (uri_end q) eps"
    and ok: "request_ok m u q pr hs" and te: "chunked_value (lookup_header hs te_name)" and key: "lookup_header hs key_name = None"
    and ann: "declared_length hs SIZE_MAX = SIZE_MAX" and post: "has_body m" and rel: "reliable K (io_ra (he_io env))"
  shows "recv_holds nc (request_text m u q pr hs @ B @ S) J \<Longrightarrow> S @ concat ps = chunks_text ds @ chunk_text [] \<Longrightarrow>
    \<forall>d \<in> set ds. d \<noteq> [] \<Longrightarrow> \<forall>p \<in> set ps. p \<noteq> [] \<Longrightarrow> mbuf_inv (nc_recv nc) \<Longrightarrow> pd_body_len (conn_pd nc) = length B \<Longrightarrow>
    hf_fp (pd_file (conn_pd nc)) = None \<Longrightarrow> \<not> has_flag nc MG_F_CLOSE_IMMEDIATELY \<Longrightarrow>
    length (request_text m u q pr hs @ B @ S @ concat ps) < 2 ^ 31 \<Longrightarrow>
    mbuf_grow (length (request_text m u q pr hs @ B @ S @ concat ps)) \<le> K \<Longrightarrow>
    \<exists>nc' hm. Option.bind (mg_http_handler env tab (EvRecv n) nc) (http_feed env tab addr ps) = Some nc' \<and>
      message_is hm m u q pr hs (B @ concat ds) \<and> delivered_once lg eps u hm [] nc nc'"
proof (induction ps arbitrary: nc B S ds J n)
  case Nil
  have q: "quiet_handlers tab" using l by (simp add: http_listener_def)
  have S: "S = chunks_text ds @ chunk_text []" using Nil.prems(2) by simp
  have "recv_holds nc (request_text m u q pr hs @ B @ chunks_text ds @ chunk_text []) J"
    "length (request_text m u q pr hs @ B @ chunks_text ds @ chunk_text []) < 2 ^ 31" using Nil.prems(1,9) S by simp_all
  from http_chunked_delivers [OF this(1) ok this(2) Nil.prems(3) te key env q Nil.prems(7,6), of n]
  obtain hm hm1 nc1 nc' where d: "mg_http_handler env tab (EvRecv n) nc = Some nc'" "same_outside nc1 (call_own tab (EvRecv n) nc)"
    "message_is hm m u q pr hs (B @ concat ds)" "http_delivers tab eps u (call_own tab (EvProto (HttpChunk hm1)) nc1) hm [] nc'"
    by blast
  have "delivered_once lg eps u hm [] nc nc'"
    using delivers_log [OF l d(4)] d(2) listener_own [OF l, of "EvRecv n" nc] listener_own [OF l, of "EvProto (HttpChunk hm1)" nc1]
    by (auto simp: delivered_once_def same_outside_def request_log_def)
  with d show ?case by auto
next
  case (Cons p ps)
  let ?A = "request_text m u q pr hs"
  have small: "length (chunks_text ds @ chunk_text []) < 2 ^ 62" unfolding Cons.prems(2) [symmetric] using Cons.prems(9) by simp
  have ne: "concat (p # ps) \<noteq> []" using Cons.prems(4) by simp
  from chunks_cut [OF Cons.prems(2) [symmetric] small] ne obtain ds1 ds2 R where c: "ds = ds1 @ ds2" "S = chunks_text ds1 @ R"
    "\<forall>J. no_chunk (R @ J) (length R)" "R @ concat (p # ps) = chunks_text ds2 @ chunk_text []" by auto
  have req: "is_req env" using env(1) by (simp add: is_req_def)
  have rx: "recv_holds nc (?A @ B @ chunks_text ds1 @ R) J" and sz: "length (?A @ B @ chunks_text ds1 @ R) < 2 ^ 31"
    using Cons.prems(1,9) c(2) by simp_all
  have d1: "\<forall>d \<in> set ds1. d \<noteq> []" "\<forall>d \<in> set ds2. d \<noteq> []" using Cons.prems(3) c(1) by simp_all
  obtain nc2 J2 where w: "mg_http_handler env tab (EvRecv n) nc = Some nc2" "recv_holds nc2 (?A @ (B @ concat ds1) @ R) J2"
    "pd_body_len (conn_pd nc2) = length (B @ concat ds1)" "hf_fp (pd_file (conn_pd nc2)) = None" "mbuf_inv (nc_recv nc2)"
    "request_log lg nc2 = request_log lg nc" "hu_handler (nc_user nc2) = hu_handler (nc_user nc)"
    "\<not> has_flag nc2 MG_F_CLOSE_IMMEDIATELY"
    using http_chunked_waits [OF rx ok sz d1(1) c(3) [rule_format] te key ann post req l Cons.prems(5,7,6), of n] Cons.prems(8) by auto
  have le: "length (concat ds1) \<le> length (chunks_text ds1)"
  proof (induction ds1)
    case (Cons d ds)
    then show ?case using chunk_text_longer [of d] by (simp add: chunks_text_def)
  qed simp
  have pos: "?A @ (B @ concat ds1) @ R \<noteq> []" by (simp add: request_text_def crlf_def)
  have big: "length (?A @ (B @ concat ds1) @ (R @ p) @ concat ps) \<le> length (?A @ B @ S @ concat (p # ps))" using le c(2) by simp
  have gr: "mbuf_grow (length ((?A @ (B @ concat ds1) @ R) @ p)) \<le> K"
    using order_trans [OF mbuf_grow_mono Cons.prems(10), of "length ((?A @ (B @ concat ds1) @ R) @ p)"] big by simp
  obtain nc3 J3 where
    r: "http_receive env tab addr p nc2 = mg_http_handler env tab (EvRecv (int (length p))) nc3"
    "recv_holds nc3 (?A @ (B @ concat ds1) @ (R @ p)) J3" "mbuf_inv (nc_recv nc3)" "nc_user nc3 = nc_user nc2" "nc_flags nc3 = nc_flags nc2"
    using receive_more [OF rel w(2,5) pos w(8) gr, of tab addr] by auto
  have "\<exists>nc' hm. Option.bind (mg_http_handler env tab (EvRecv (int (length p))) nc3) (http_feed env tab addr ps) = Some nc' \<and>
      message_is hm m u q pr hs ((B @ concat ds1) @ concat ds2) \<and> delivered_once lg eps u hm [] nc3 nc'"
  proof (rule Cons.IH [OF r(2)])
    show "mbuf_grow (length (?A @ (B @ concat ds1) @ (R @ p) @ concat ps)) \<le> K"
      by (rule order_trans [OF mbuf_grow_mono [OF big] Cons.prems(10)])
    show "length (?A @ (B @ concat ds1) @ (R @ p) @ concat ps) < 2 ^ 31" using big Cons.prems(9) by linarith
  qed (use c(4) d1(2) Cons.prems(4) r w in \<open>simp_all add: has_flag_def\<close>)
  then obtain nc' hm where f: "Option.bind (mg_http_handler env tab (EvRecv (int (length p))) nc3) (http_feed env tab addr ps) = Some nc'"
    "message_is hm m u q pr hs (B @ concat ds)" "delivered_once lg eps u hm [] nc3 nc'" using c(1) by auto
  have "delivered_once lg eps u hm [] nc nc'" using f(3) r(4) w(6,7) by (simp add: delivered_once_def request_log_def)
  moreover have "Option.bind (mg_http_handler env tab (EvRecv n) nc) (http_feed env tab addr (p # ps)) = Some nc'"
    using w(1) r(1) f(1) by (simp add: bind_eq_Some_conv)
  ultimately show ?case using f(2) by blast
qed

section \<open>Properties\<close>

lemma outq_chunk:
  assumes "reliable K (io_ra io)" and "outq nc b" and "mbuf_grow (length (b @ chunk_text d)) \<le> K" and "length (chunk_text d) < 2 ^ 31"
  shows "outq (mg_send_http_chunk io d nc) (b @ chunk_text d)"
proof -
  have "\<forall>e \<in> set [hex_text (length d) @ crlf, d, crlf]. length e < 2 ^ 31"
    by (rule chunks_small) (use assms(4) in \<open>simp add: chunk_text_def\<close>)
  from outq_sends [OF assms(1,2) _ this] assms(3) show ?thesis by (simp add: mg_send_http_chunk_def chunk_text_def)
qed

lemma outq_chunks:
  assumes "reliable K (io_ra io)"
  shows "outq nc b \<Longrightarrow> mbuf_grow (length (b @ chunks_text ds)) \<le> K \<Longrightarrow> length (chunks_text ds) < 2 ^ 31 \<Longrightarrow> outq (fold (mg_send_http_chunk io) ds nc) (b @ chunks_text ds)"
proof (induction ds arbitrary: nc b)
  case (Cons d ds)
  have c: "chunks_text (d # ds) = chunk_text d @ chunks_text ds" by (simp add: chunks_text_def)
  have "mbuf_grow (length (b @ chunk_text d)) \<le> K"
    by (rule order_trans [OF mbuf_grow_mono Cons.prems(2)]) (simp add: c)
  moreover have "length (chunk_text d) < 2 ^ 31" using Cons.prems(3) by (simp add: c)
  ultimately have "outq (mg_send_http_chunk io d nc) (b @ chunk_text d)" by (rule outq_chunk [OF assms Cons.prems(1)])
  from Cons.IH [OF this] Cons.prems(2,3) show ?case by (simp add: c)
qed (simp add: chunks_text_def)

lemma chunks_sent:
  assumes "reliable K (io_ra io)" and "outq cl []" and "mbuf_grow (length (chunks_text (ds @ [[]]))) \<le> K"
    and "length (chunks_text (ds @ [[]])) < 2 ^ 31"
  shows "mbuf_bytes (nc_send (fold (mg_send_http_chunk io) (ds @ [[]]) cl)) = chunks_text ds @ chunk_text []"
  using outq_chunks [OF assms(1,2), of "ds @ [[]]"] assms(3,4) by (simp add: outq_def chunks_text_def)

lemmas demo_lengths = declared_length_def is_length_name_def content_length_name_def demo_headers_def str_def ch_def tolower_def
  schar_def SIZE_MAX_def

text \<open>Handlers that do nothing but log the requests.\<close>

definition log_handlers :: "((nat \<times> http_message) list) http_handlers" where
  "log_handlers k ev nc = (case ev of
     EvProto (HttpRequest hm) \<Rightarrow> nc\<lparr>nc_user := (nc_user nc)\<lparr>hu_user := hu_user (nc_user nc) @ [(k, hm)]\<rparr>\<rparr>
   | _ \<Rightarrow> nc)"

lemma log_listener: "http_listener (\<lambda>l. l) log_handlers"
  by (simp add: http_listener_def quiet_handlers_def log_handlers_def split: mg_event.split http_event.split)

definition demo_env :: http_env where
  "demo_env = \<lparr>he_io = demo_ws_io, he_listener = Some [(str ''/b'', 5), (str ''/a'', 6)], he_fread = (\<lambda>n b. 0), he_fwrite = (\<lambda>b. 0),
     he_sha_ctx = sha1_ctx0, he_mask = 0\<rparr>"

definition demo_http :: "((nat \<times> http_message) list) http_conn" where
  "demo_http = \<lparr>nc_flags = 0, nc_sock = Some 3, nc_err = 0, nc_recv_mbuf_limit = 2 ^ 64 - 1,
     nc_recv = empty_mbuf, nc_send = empty_mbuf, nc_last_io_time = 0, nc_ev_timer_time = 0,
     nc_user = \<lparr>hu_pd = \<lparr>pd_file = no_file, pd_cgi = None, pd_body_len = 0, pd_endpoints = [], pd_endpoint_handler = None\<rparr>,
       hu_handler = 1, hu_websocket = False, hu_user = []\<rparr>\<rparr>"

lemma demo_http_fresh: "http_fresh 4096 demo_http"
  by (simp add: http_fresh_def demo_http_def no_file_def has_flag_def USER_SPACE_def)

lemma demo_endpoints: "endpoints_ok (uri_end q) [(str ''/b'', 5), (str ''/a'', 6)]"
  by (cases q) (simp_all add: endpoints_ok_def uri_end_def str_def ch_def tolower_def)

text \<open>C2. A request without chunks that arrives with all of its body as the first on its connection, and maybe with more behind it, is
  delivered: exactly one request event is raised, for the endpoint with the longest match of the path or else for the connection's own
  handler, its message has the method, path, query, protocol, headers and body that were sent, and what came behind the message is
  kept.  The request is one that the parser takes as it was written (C3) and has no \<open>Sec-WebSocket-Key\<close>; no pattern of an endpoint has
  alternatives or holds the byte that comes behind the path, a space or a question mark; and the handlers of the user leave the receive
  buffer, the protocol data and the flags alone.\<close>

theorem http_request_delivered:
  assumes "http_listener lg tab" and "he_listener env = Some eps" and "endpoints_ok (uri_end q) eps" and "http_fresh addr nc"
    and "request_ok m u q pr hs" and "length body = request_body_len m hs"
    and "\<not> chunked_value (lookup_header hs te_name)" and "lookup_header hs key_name = None"
    and "length (request_text m u q pr hs @ body @ rest) < 2 ^ 31"
  shows "\<exists>nc' hm. http_receive env tab addr (request_text m u q pr hs @ body @ rest) nc = Some nc' \<and>
    message_is hm m u q pr hs body \<and> delivered_once lg eps u hm rest nc nc'"
proof -
  have q: "quiet_handlers tab" using assms(1) by (simp add: http_listener_def)
  let ?n = "int (length (request_text m u q pr hs @ body @ rest))"
  obtain nc1 where r: "http_receive env tab addr (request_text m u q pr hs @ body @ rest) nc = mg_http_handler env tab (EvRecv ?n) nc1"
    "recv_holds nc1 (request_text m u q pr hs @ body @ rest) []" "nc_user nc1 = nc_user nc" using receive_first [OF assms(4)] by metis
  have nofile: "hf_fp (pd_file (conn_pd nc1)) = None" using assms(4) r(3) by (simp add: http_fresh_def)
  from http_request_delivers [OF r(2) assms(5,9,6,7,8,2,3) q nofile, of ?n] obtain hm nc' where
    d: "mg_http_handler env tab (EvRecv ?n) nc1 = Some nc'" "message_is hm m u q pr hs body"
    "http_delivers tab eps u (call_own tab (EvRecv ?n) nc1) hm rest nc'" by blast
  have "delivered_once lg eps u hm rest nc nc'"
    using delivers_log [OF assms(1) d(3)] listener_own [OF assms(1), of "EvRecv ?n" nc1] r(3)
    by (auto simp: delivered_once_def request_log_def)
  with d r(1) show ?thesis by auto
qed

theorem http_request_delivered_witness:
  "\<exists>nc' hm. http_receive demo_env log_handlers 4096 (demo_request @ str ''xyz'' @ str ''GET'') demo_http = Some nc' \<and>
    message_is hm (str ''POST'') (str ''/a'') (Some (str ''k'')) (str ''HTTP/1.1'') demo_headers (str ''xyz'') \<and>
    delivered_once (\<lambda>l. l) [(str ''/b'', 5), (str ''/a'', 6)] (str ''/a'') hm (str ''GET'') demo_http nc'"
  unfolding demo_request_def
proof (rule http_request_delivered [OF log_listener _ demo_endpoints demo_http_fresh])
  show "request_ok (str ''POST'') (str ''/a'') (Some (str ''k'')) (str ''HTTP/1.1'') demo_headers"
    by (simp add: ok_simps schar_def)
  show "length (str ''xyz'') = request_body_len (str ''POST'') demo_headers"
    by (simp add: request_body_len_def demo_lengths)
  show "\<not> chunked_value (lookup_header demo_headers te_name)" "lookup_header demo_headers key_name = None"
    by (simp_all add: chunked_value_def lookup_header_def demo_headers_def te_name_def key_name_def str_def ch_def tolower_def)
  show "length (request_text (str ''POST'') (str ''/a'') (Some (str ''k'')) (str ''HTTP/1.1'') demo_headers @ str ''xyz'' @ str ''GET'') < 2 ^ 31"
    by (simp add: request_text_def lines_text_def request_line_def target_text_def header_line_def demo_headers_def crlf_def)
qed (simp add: demo_env_def)

text \<open>C1. The body of a PUT or POST request, the first on its connection, with \<open>Transfer-Encoding: chunked\<close>, without
  \<open>Content-Length\<close> and without \<open>Sec-WebSocket-Key\<close>, sent in chunks with \<open>mg_send_http_chunk\<close>, the last one empty, is put together
  by the peer however the stream is cut into pieces behind the head: receiving the pieces one after the other ends without a failure, raises
  exactly one request event, whose message has the concatenation of the chunks as its body, and leaves nothing in the buffer.  The
  conditions on the endpoints and the handlers are those of C2.\<close>

theorem http_chunked_delivered:
  assumes "reliable K (io_ra io)" and "outq cl []" and "\<forall>d \<in> set ds. d \<noteq> []"
    and "x @ concat ps = mbuf_bytes (nc_send (fold (mg_send_http_chunk io) (ds @ [[]]) cl))" and "\<forall>p \<in> set ps. p \<noteq> []"
    and "http_listener lg tab" and "he_listener env = Some eps" and "endpoints_ok (uri_end q) eps" and "http_fresh addr nc"
    and "reliable K (io_ra (he_io env))"
    and "request_ok m u q pr hs" and "has_body m" and "declared_length hs SIZE_MAX = SIZE_MAX"
    and "chunked_value (lookup_header hs te_name)" and "lookup_header hs key_name = None"
    and "length (request_text m u q pr hs @ chunks_text (ds @ [[]])) < 2 ^ 31"
    and "mbuf_grow (length (request_text m u q pr hs @ chunks_text (ds @ [[]]))) \<le> K"
  shows "\<exists>nc' hm. http_feed env tab addr ((request_text m u q pr hs @ x) # ps) nc = Some nc' \<and>
    message_is hm m u q pr hs (concat ds) \<and> delivered_once lg eps u hm [] nc nc'"
proof -
  let ?A = "request_text m u q pr hs" and ?n = "int (length (request_text m u q pr hs @ x))"
  have c: "chunks_text (ds @ [[]]) = chunks_text ds @ chunk_text []" by (simp add: chunks_text_def)
  have "mbuf_grow (length (chunks_text (ds @ [[]]))) \<le> K" by (rule order_trans [OF mbuf_grow_mono assms(17)]) simp
  then have s: "x @ concat ps = chunks_text ds @ chunk_text []" using chunks_sent [OF assms(1,2)] assms(4,16) by simp
  then have sz: "length (?A @ [] @ x @ concat ps) < 2 ^ 31" "mbuf_grow (length (?A @ [] @ x @ concat ps)) \<le> K"
    using assms(16,17) c by simp_all
  obtain nc1 where r: "http_receive env tab addr (?A @ x) nc = mg_http_handler env tab (EvRecv ?n) nc1"
    "recv_holds nc1 (?A @ x) []" "mbuf_inv (nc_recv nc1) \<or> ?A @ x = []" "nc_user nc1 = nc_user nc" "nc_flags nc1 = nc_flags nc"
    using receive_first [OF assms(9)] by metis
  have rx: "recv_holds nc1 (?A @ [] @ x) []" and inv: "mbuf_inv (nc_recv nc1)"
    using r(2,3) by (auto simp: request_text_def crlf_def)
  have st: "pd_body_len (conn_pd nc1) = length []" "hf_fp (pd_file (conn_pd nc1)) = None" "\<not> has_flag nc1 MG_F_CLOSE_IMMEDIATELY"
    using assms(9) r(4,5) by (simp_all add: http_fresh_def has_flag_def)
  from http_feed_from [OF assms(6,7,8,11,14,15,13,12,10) rx s assms(3,5) inv st sz, of ?n addr] obtain nc' hm where
    f: "Option.bind (mg_http_handler env tab (EvRecv ?n) nc1) (http_feed env tab addr ps) = Some nc'"
    "message_is hm m u q pr hs ([] @ concat ds)" "delivered_once lg eps u hm [] nc1 nc'" by blast
  have "delivered_once lg eps u hm [] nc nc'" using f(3) r(4) by (simp add: delivered_once_def request_log_def)
  then show ?thesis using f(1,2) r(1) by auto
qed

definition chunked_headers :: "(bytes \<times> bytes) list" where
  "chunked_headers = [(str ''Transfer-Encoding'', str ''chunked'')]"

theorem http_chunked_delivered_witness:
  "\<exists>nc' hm. http_feed demo_env log_handlers 4096
      [request_text (str ''PUT'') (str ''/a'') None (str ''HTTP/1.1'') chunked_headers @ [0x32], [13, 10, 7], [8, 13, 10, 0x30, 13, 10, 13, 10]]
      demo_http = Some nc' \<and>
    message_is hm (str ''PUT'') (str ''/a'') None (str ''HTTP/1.1'') chunked_headers (concat [[7, 8]]) \<and>
    delivered_once (\<lambda>l. l) [(str ''/b'', 5), (str ''/a'', 6)] (str ''/a'') hm [] demo_http nc'"
proof (rule http_chunked_delivered [of "2 ^ 20" demo_ws_io "demo_ws ()" _ _ _ "\<lambda>l. l" log_handlers demo_env, OF _ _ _ _ _ log_listener _ demo_endpoints demo_http_fresh])
  have t: "chunks_text ([[7, 8]] @ [[]]) = [0x32, 13, 10, 7, 8, 13, 10, 0x30, 13, 10, 13, 10]"
    by (simp add: chunks_text_def chunk_text_def hex_text.simps hex_upper_def str_def ch_def crlf_def)
  have r: "reliable (2 ^ 20) (io_ra demo_ws_io)" using arena_reliable by (simp add: demo_ws_io_def)
  then show "reliable (2 ^ 20) (io_ra demo_ws_io)" .
  show "reliable (2 ^ 20) (io_ra (he_io demo_env))" using r by (simp add: demo_env_def)
  show o: "outq (demo_ws ()) []" by (simp add: outq_def demo_ws_def)
  have "mbuf_grow (length (chunks_text ([[7, 8]] @ [[]]))) \<le> 2 ^ 20" unfolding t by (simp add: mbuf_grow_def)
  from chunks_sent [OF r o this, unfolded t]
  show "[0x32] @ concat [[13, 10, 7], [8, 13, 10, 0x30, 13, 10, 13, 10]] =
      mbuf_bytes (nc_send (fold (mg_send_http_chunk demo_ws_io) ([[7, 8]] @ [[]]) (demo_ws ())))"
    using t by (simp add: chunks_text_def)
  show "request_ok (str ''PUT'') (str ''/a'') None (str ''HTTP/1.1'') chunked_headers"
    by (simp add: ok_simps schar_def chunked_headers_def)
  show "has_body (str ''PUT'')" by (simp add: has_body_def)
  show "declared_length chunked_headers SIZE_MAX = SIZE_MAX"
    by (simp add: demo_lengths chunked_headers_def)
  show "chunked_value (lookup_header chunked_headers te_name)" "lookup_header chunked_headers key_name = None"
    by (simp_all add: chunked_value_def lookup_header_def chunked_headers_def te_name_def key_name_def str_def ch_def tolower_def)
  show "length (request_text (str ''PUT'') (str ''/a'') None (str ''HTTP/1.1'') chunked_headers @ chunks_text ([[7, 8]] @ [[]])) < 2 ^ 31"
    "mbuf_grow (length (request_text (str ''PUT'') (str ''/a'') None (str ''HTTP/1.1'') chunked_headers @ chunks_text ([[7, 8]] @ [[]]))) \<le> 2 ^ 20"
    unfolding t by (simp_all add: request_text_def lines_text_def request_line_def target_text_def header_line_def chunked_headers_def crlf_def mbuf_grow_def)
qed (simp_all add: demo_env_def)

end
