(* ===== verification/Spec2Isabelle.thy ===== *)
theory Spec2Isabelle
  imports Prelude Base64 Mbuf BlockHash Md5 Sha1 Str Util Conn Mqtt Coap Dns Websocket Uri Http HttpConn
begin

text \<open>
  A verification library for mongoose, the embedded networking library in \<open>src/mongoose/mongoose.c\<close> and \<open>mongoose.h\<close>: the one program
  of the repository with logic of its own beside small usage examples and bundled third-party code.  The file is an amalgamation; its
  sections are named below as the file names them.

  \<^bold>\<open>The program.\<close>  One thread runs a poll loop over connections (\<open>net.c\<close>, \<open>net_if_socket.c\<close>).  Each has a receive and a send buffer
  (\<open>mbuf.c\<close>), flags, and a user handler, and may have a protocol handler.  A turn of the loop completes a connect, reads (a stream, a
  datagram, or a new connection of a listener), writes what is in the send buffer, and raises the poll and timer events.  A protocol handler
  gets the events first, parses what is in the receive buffer, raises events of its own for the user and removes what it has
  consumed.  Senders append to the send buffer.  The protocols are MQTT, CoAP, DNS, HTTP and, by a switch of the protocol handler during a
  request, WebSocket.  Below them lie strings, base64, MD5 and SHA-1, URIs and pattern matching.

  \<^bold>\<open>Theories and sources.\<close>
    \<^item> \<open>Prelude\<close>: bytes, C integers, reads through pointers (\<open>rd\<close>), byte order; the collections \<open>bytes_simps\<close>, \<open>buf_simps\<close>, \<open>scan_simps\<close>.
    \<^item> \<open>Base64\<close>: \<open>common/base64.c\<close>, both encoders and the decoder, against RFC 4648.
    \<^item> \<open>Mbuf\<close>: \<open>common/mbuf.c\<close>; \<open>realloc\<close> is a parameter.  The locale \<open>byte_buffer\<close> is the contract of a queue of bytes, \<open>heap\<close> that of a
      buffer over an allocator, interpreted on the model of the code.
    \<^item> \<open>BlockHash\<close>, \<open>Md5\<close>, \<open>Sha1\<close>: \<open>common/md5.c\<close>, \<open>cs_md5\<close>, \<open>common/sha1.c\<close>.  The locale \<open>hash_stream\<close> gives, once for both, that a
      digest does not depend on how the message is cut; the compression functions are compared with the RFC's and the standard's.
    \<^item> \<open>Str\<close>: \<open>common/mg_str.c\<close>, \<open>common/str_util.c\<close>: counted strings, comparison, the built-in \<open>snprintf\<close>, numbers.
    \<^item> \<open>Util\<close>: \<open>mongoose/src/util.c\<close>: tokens, comma lists, \<open>mg_match_prefix_n\<close> with the pattern language as the inductive \<open>pm\<close>.
    \<^item> \<open>Conn\<close>: \<open>net.c\<close>, \<open>net_if_socket.c\<close>: the record \<open>mg_connection\<close>, \<open>mg_call\<close>, sending, receiving, \<open>mg_mgr_handle_conn\<close>, UDP
      dispatch, the relation \<open>turns\<close> of runs of the loop, and the doubly linked list of connections over a store of links.
    \<^item> \<open>Mqtt\<close>, \<open>Coap\<close>, \<open>Dns\<close>: \<open>mqtt.c\<close>, \<open>coap.c\<close>, \<open>dns.c\<close> with \<open>dns_server.c\<close>: senders, parsers and protocol handlers.
    \<^item> \<open>Websocket\<close>: \<open>http_websocket.c\<close>: delivery with reassembly inside the receive buffer, sending, both sides of the handshake.
    \<^item> \<open>Uri\<close>: \<open>uri.c\<close> and the URL coding of \<open>http.c\<close>.
    \<^item> \<open>Http\<close>, \<open>HttpConn\<close>: \<open>http.c\<close>: the parser; the protocol handler with chunked bodies, endpoints, files and the switch to WebSocket.

  \<^bold>\<open>How code and model correspond.\<close>  A definition has the name of the function it models; parts of a long function have names of their own.
  A block of memory is a list of bytes, a pointer an index into it, and a string of a parsed message keeps the block it points into.
  \<open>None\<close> is a failure: an access outside a block or to a block that is gone, an overflow of a signed integer, a failed assertion, or a loop that does not
  end.  Unsigned arithmetic wraps around where the code can reach the bounds (words, or \<open>mod 2 ^ 64\<close>), and a \<open>size_t\<close> given to an \<open>int\<close> is converted by
  \<open>c_int\<close>.  What the system does in a turn (\<open>send\<close>, \<open>recv\<close>, \<open>recvfrom\<close>, \<open>accept\<close>, the clock, \<open>malloc\<close>) is the record \<open>io\<close>; event
  handlers are functions on the connection.  The build is the default one on Unix with a 64-bit, little-endian processor and signed \<open>char\<close>.

  \<^bold>\<open>What is shown.\<close>  For the buffers: the invariant, that an insertion is all or nothing, that appends and removals make a queue.  For coders and
  hashes: round trips and agreement with the standards.  For the loop: the bytes handed to the peer are exactly those sent, in order;
  a user handler cannot change the library's flags; the list stays a list.  For parsers: nothing is read outside the buffer, on any input.  For the
  protocols: what a sender queues is delivered by the handler of the receiver, exactly once and with every field.  Each property states its bounds; most are those
  of an \<open>int\<close>.  Properties about delivery assume an allocator that serves requests up to a bound \<open>K\<close> (\<open>reliable\<close>) and
  handlers that leave the receive buffer alone; both have instances.  Lemmas beside them pin down flaws that the models show: wrapped lengths, reads
  behind the data, overruns, and messages that are lost or delivered twice.

  \<^bold>\<open>Loops.\<close>  Recursion is structural or has a measure, the distance to the end of the data.  Loops that may run for ever or fail
  (\<open>dns_encode_loop\<close>, \<open>sha1_pad_loop\<close>, \<open>subscribe_topics\<close>, \<open>uri_loop\<close>, \<open>ws_deliver_all\<close>) are partial functions in the option type,
  and the properties show that they return.  Only the expansion of a compressed DNS name has fuel, one unit per label or pointer: on a
  name without pointers more fuel than it has labels is enough, and a name that points at itself exhausts any fuel.

  \<^bold>\<open>Not modelled.\<close>  Opening and binding sockets, name resolution and SNTP, SSL, SOCKS and tunnels, the layers for other platforms, serving
  files, WebDAV, starting CGI processes, digest authentication, multipart bodies, the MQTT broker beyond its walk over topics, and wrappers of \<open>printf\<close>:
  they are input and output, off by default, or calls of libraries that are not part of the sources.
\<close>

end
